(* ===== verification/Prelude.thy ===== *)
theory Prelude
  imports "HOL-Library.Word" "HOL-Library.Finite_Map" "HOL-Library.Multiset"
    "HOL-Library.Code_Target_Nat"
begin

text \<open>
  Shared vocabulary of the development: the machine types of the Rust sources, their strings,
  and the small list, map and word facts the component theories rest on.

  \<^item> A Rust \<^verbatim>\<open>char\<close> is a Unicode scalar value; it is modelled by its number
    (\<open>rchar\<close>), and a \<^verbatim>\<open>&str\<close>, \<^verbatim>\<open>String\<close> or
    \<^verbatim>\<open>Arc<str>\<close> by the list of its chars (\<open>rstr\<close>).  Byte offsets of the
    sources only ever cut a string at char boundaries, so they become list cuts.
  \<^item> \<open>str ''...''\<close> writes a literal.
  \<^item> A hash map is a finite map; the iteration order of a hash map, which Rust leaves
    unspecified, is an argument wherever the sources iterate.
\<close>

section \<open>Machine types and strings\<close>

type_synonym u8 = "8 word"
type_synonym u32 = "32 word"
type_synonym u64 = "64 word"

type_synonym rchar = nat
type_synonym rstr = "rchar list"

definition str :: "string \<Rightarrow> rstr" where
  "str s = map of_char s"

lemma str_Nil [simp]: "str [] = []"
  by (simp add: str_def)

lemma str_Cons [simp]: "str (c # cs) = of_char c # str cs"
  by (simp add: str_def)

section \<open>Collections of hints\<close>

named_theorems scan_simps \<open>unfolding of the scanning loops of the sources\<close>
named_theorems inv_dests \<open>consequences of the state invariants\<close>
named_theorems inv_intros \<open>preservation of the state invariants\<close>

section \<open>Words used as counters\<close>

lemma u64_succ_greater:
  fixes c :: u64
  assumes "c \<noteq> - 1"
  shows "unat (c + 1) = Suc (unat c)"
proof -
  from assms have "c + 1 \<noteq> 0"
    by (metis add.commute add_eq_0_iff)
  then show ?thesis
    using unatSuc [of c] by (simp add: add.commute)
qed

lemma u64_succ_fresh:
  fixes c :: u64
  assumes "c \<noteq> - 1" "x \<le> c"
  shows "x < c + 1" "x \<le> c + 1"
proof -
  have "unat x \<le> unat c"
    using assms(2) by (simp add: word_le_nat_alt)
  then have "unat x < unat (c + 1)"
    using u64_succ_greater [OF assms(1)] by simp
  then show "x < c + 1" "x \<le> c + 1"
    by (simp_all add: word_less_nat_alt word_le_nat_alt)
qed

section \<open>Lists\<close>

text \<open>\<^verbatim>\<open>Vec::swap_remove(pos)\<close>: the last element moves to the hole.\<close>

definition swap_remove :: "'a list \<Rightarrow> nat \<Rightarrow> 'a list" where
  "swap_remove xs i = butlast (xs[i := last xs])"

text \<open>\<^verbatim>\<open>Iterator::position\<close>: the first index whose element satisfies the predicate.\<close>

fun position :: "('a \<Rightarrow> bool) \<Rightarrow> 'a list \<Rightarrow> nat option" where
  "position P [] = None"
| "position P (x # xs) = (if P x then Some 0 else map_option Suc (position P xs))"

text \<open>\<^verbatim>\<open>Iterator::min_by_key\<close>: the first of the elements with the least key.\<close>

fun min_by_key :: "('a \<Rightarrow> 'k::linorder) \<Rightarrow> 'a list \<Rightarrow> 'a option" where
  "min_by_key f [] = None"
| "min_by_key f (x # xs) =
     (case min_by_key f xs of
        None \<Rightarrow> Some x
      | Some y \<Rightarrow> if f y < f x then Some y else Some x)"

lemma position_None: "position P xs = None \<longleftrightarrow> (\<forall>x \<in> set xs. \<not> P x)"
  by (induction xs) auto

lemma position_Some:
  "position P xs = Some i \<Longrightarrow> i < length xs \<and> P (xs ! i) \<and> (\<forall>j < i. \<not> P (xs ! j))"
proof (induction xs arbitrary: i)
  case Nil
  then show ?case by simp
next
  case (Cons x xs)
  then show ?case
    by (auto split: if_splits simp: nth_Cons split: nat.splits)
qed

lemma mset_swap_remove:
  assumes "i < length xs"
  shows "mset xs = add_mset (xs ! i) (mset (swap_remove xs i))"
proof -
  let ?ys = "xs[i := last xs]"
  have ne: "xs \<noteq> []" using assms by auto
  then have "last ?ys = last xs"
    using assms by (cases "i = length xs - 1") (auto simp: last_conv_nth nth_list_update)
  with ne have "?ys = butlast ?ys @ [last xs]"
    by (metis append_butlast_last_id list_update_nonempty)
  then have "mset ?ys = mset (butlast ?ys @ [last xs])"
    by simp
  then have "mset ?ys = add_mset (last xs) (mset (butlast ?ys))"
    by simp
  moreover have "mset ?ys = add_mset (last xs) (mset xs - {#xs ! i#})"
    using assms by (simp add: mset_update)
  ultimately have "mset (butlast ?ys) = mset xs - {#xs ! i#}"
    by simp
  then show ?thesis
    using assms by (simp add: swap_remove_def)
qed

lemma distinct_swap_remove:
  assumes "i < length xs" "distinct xs"
  shows "distinct (swap_remove xs i)" "set (swap_remove xs i) = set xs - {xs ! i}"
proof -
  note m = mset_swap_remove [OF assms(1)]
  have d: "distinct ((xs ! i) # swap_remove xs i)"
    using assms(2) m by (metis mset.simps(2) mset_eq_imp_distinct_iff)
  then show "distinct (swap_remove xs i)"
    by simp
  have "set xs = insert (xs ! i) (set (swap_remove xs i))"
    using arg_cong [OF m, of set_mset] by simp
  with d show "set (swap_remove xs i) = set xs - {xs ! i}"
    by auto
qed

lemma length_swap_remove:
  "i < length xs \<Longrightarrow> length (swap_remove xs i) = length xs - 1"
  by (simp add: swap_remove_def)

lemma min_by_key_None [simp]: "min_by_key f xs = None \<longleftrightarrow> xs = []"
  by (cases xs) (auto split: option.splits)

lemma min_by_key_Some:
  "min_by_key f xs = Some x \<Longrightarrow> x \<in> set xs \<and> (\<forall>y \<in> set xs. f x \<le> f y)"
proof (induction xs arbitrary: x)
  case Nil
  then show ?case by simp
next
  case (Cons a xs)
  then show ?case
    by (fastforce split: option.splits if_splits)
qed

lemma min_by_key_cong:
  "(\<And>x. x \<in> set xs \<Longrightarrow> f x = g x) \<Longrightarrow> min_by_key f xs = min_by_key g xs"
proof (induction xs)
  case Nil
  then show ?case by simp
next
  case (Cons a xs)
  moreover have "min_by_key g xs = Some y \<Longrightarrow> y \<in> set xs" for y
    using min_by_key_Some by metis
  ultimately show ?case
    by (auto split: option.splits)
qed

text \<open>The first of the elements with the greatest key, as a scan that replaces the best so far by a
  strictly greater one finds it.\<close>

fun max_from :: "('a \<Rightarrow> 'k::linorder) \<Rightarrow> 'a \<Rightarrow> 'a list \<Rightarrow> 'a" where
  "max_from f b [] = b"
| "max_from f b (x # xs) = max_from f (if f b < f x then x else b) xs"

fun first_max :: "('a \<Rightarrow> 'k::linorder) \<Rightarrow> 'a list \<Rightarrow> 'a option" where
  "first_max f [] = None"
| "first_max f (x # xs) = Some (max_from f x xs)"

definition is_first_max :: "('a \<Rightarrow> 'k::linorder) \<Rightarrow> 'a list \<Rightarrow> 'a \<Rightarrow> 'a list \<Rightarrow> bool" where
  "is_first_max f pre x post \<longleftrightarrow> (\<forall>y \<in> set pre. f y < f x) \<and> (\<forall>y \<in> set post. f y \<le> f x)"

lemma max_from_split:
  "\<exists>pre post. b # xs = pre @ max_from f b xs # post \<and> is_first_max f pre (max_from f b xs) post"
proof (induction xs arbitrary: b)
  case Nil
  show ?case by (intro exI [of _ "[]"]) (simp add: is_first_max_def)
next
  case (Cons x xs)
  define m where "m = max_from f b (x # xs)"
  define b' where "b' = (if f b < f x then x else b)"
  have m: "max_from f b' xs = m" by (simp add: m_def b'_def)
  from Cons [of b'] obtain pre post where split: "b' # xs = pre @ m # post"
    and fm: "is_first_max f pre m post" by (auto simp: m)
  have le: "f b' \<le> f m"
    using split fm by (cases pre) (auto simp: is_first_max_def less_imp_le)
  have "\<exists>pre post. b # x # xs = pre @ m # post \<and> is_first_max f pre m post"
  proof (cases "f b < f x")
    case True
    with split fm le have "b # x # xs = (b # pre) @ m # post \<and> is_first_max f (b # pre) m post"
      by (auto simp: is_first_max_def b'_def)
    then show ?thesis by blast
  next
    case False
    show ?thesis
    proof (cases pre)
      case Nil
      with False split fm have "b # x # xs = [] @ m # x # xs \<and> is_first_max f [] m (x # xs)"
        by (auto simp: is_first_max_def b'_def)
      then show ?thesis by blast
    next
      case (Cons c pre')
      with False split fm have "b # x # xs = (b # x # pre') @ m # post \<and>
          is_first_max f (b # x # pre') m post"
        by (auto simp: is_first_max_def b'_def)
      then show ?thesis by blast
    qed
  qed
  then show ?case by (simp only: m_def)
qed

lemma first_max_split:
  "first_max f xs = Some x \<Longrightarrow> \<exists>pre post. xs = pre @ x # post \<and> is_first_max f pre x post"
  using max_from_split [of _ _ f] by (cases xs) auto

lemma first_max_None [simp]: "first_max f xs = None \<longleftrightarrow> xs = []"
  by (cases xs) auto

lemma max_from_append:
  "\<forall>y \<in> set ys. f y \<le> f (max_from f b xs) \<Longrightarrow> max_from f b (xs @ ys) = max_from f b xs"
proof (induction xs arbitrary: b)
  case Nil
  then show ?case by (induction ys) (auto simp: not_less)
qed auto

lemma max_from_reaches:
  "f b < f x \<Longrightarrow> \<forall>y \<in> set pre. f y < f x \<Longrightarrow> max_from f b (pre @ [x]) = x"
  by (induction pre arbitrary: b) auto

lemma first_max_intro:
  assumes "is_first_max f pre x post"
  shows "first_max f (pre @ x # post) = Some x"
proof (cases pre)
  case Nil
  with assms max_from_append [of post f x "[]"] show ?thesis by (simp add: is_first_max_def)
next
  case (Cons p ps)
  with assms have "max_from f p (ps @ [x]) = x"
    by (intro max_from_reaches) (auto simp: is_first_max_def)
  with assms Cons max_from_append [of post f p "ps @ [x]"] show ?thesis
    by (simp add: is_first_max_def)
qed

lemma first_max_Some: "first_max f xs = Some x \<Longrightarrow> x \<in> set xs \<and> (\<forall>y \<in> set xs. f y \<le> f x)"
  using first_max_split [of f xs x] by (auto simp: is_first_max_def less_imp_le)

lemma first_max_cong:
  assumes "\<And>x. x \<in> set xs \<Longrightarrow> f x = g x"
  shows "first_max f xs = first_max g xs"
proof (cases "first_max f xs")
  case (Some x)
  then obtain pre post where xs: "xs = pre @ x # post" "is_first_max f pre x post"
    using first_max_split by metis
  with assms have "is_first_max g pre x post"
    by (auto simp: is_first_max_def)
  with Some xs(1) first_max_intro [of g pre x post] show ?thesis by simp
qed simp

text \<open>Raising the key of the first maximum, or appending a strict maximum, decides the scan.\<close>

lemma first_max_raise:
  assumes "first_max f xs = Some x" "distinct xs" "f x \<le> g x" "\<And>y. y \<in> set xs \<Longrightarrow> y \<noteq> x \<Longrightarrow> g y = f y"
  shows "first_max g xs = Some x"
proof -
  obtain pre post where xs: "xs = pre @ x # post" "is_first_max f pre x post"
    using first_max_split [OF assms(1)] by blast
  moreover have "\<forall>y \<in> set pre \<union> set post. g y = f y"
    using assms(2,4) xs(1) by auto
  ultimately have "is_first_max g pre x post"
    using assms(3) by (auto simp: is_first_max_def intro: less_le_trans order_trans)
  with xs(1) show ?thesis by (simp add: first_max_intro)
qed

lemma first_max_snoc: "\<forall>y \<in> set xs. f y < f x \<Longrightarrow> first_max f (xs @ [x]) = Some x"
  using first_max_intro [of f xs x "[]"] by (simp add: is_first_max_def)

section \<open>Finite maps\<close>

lemma fmran'_fmupd_subset: "fmran' (fmupd k v m) \<subseteq> insert v (fmran' m)"
  by (auto simp: fmlookup_ran'_iff split: if_splits)

lemma fmlookup_in_fmdom' [inv_dests]: "fmlookup m k = Some v \<Longrightarrow> k \<in> fmdom' m"
  by (rule fmdom'I)

end
