(* ===== verification/Mask.thy ===== *)
theory Mask
  imports Prelude
begin

text \<open>
  Model of \<^verbatim>\<open>crates/logdrain/src/error.rs\<close> and
  \<^verbatim>\<open>crates/logdrain/src/mask.rs\<close>.

  The regular expressions are those of the third-party crate \<^verbatim>\<open>regex\<close>: a compiled
  expression is a value of a type \<open>'re\<close>, \<^verbatim>\<open>Regex::new\<close> is the parameter
  \<open>regex_new\<close> and \<^verbatim>\<open>Regex::replace_all\<close> the parameter \<open>replace_all\<close>.  What the
  code relies on, and the crate documents, is that a borrowed result is the unchanged input.
\<close>

section \<open>Errors\<close>

text \<open>
  \<^verbatim>\<open>LogdrainError\<close>.  A configuration message is the format string of its
  constructor filled with the argument; the text of a foreign error is what that library prints.
\<close>

datatype config_message =
    Depth_too_small nat
  | Threshold_out_of_range
  | Leaf_capacity_zero

datatype persistence_error =
    Io rstr
  | Backend rstr

datatype logdrain_error =
    InvalidConfig config_message
  | RegexCompile rstr
  | Persistence_failed persistence_error
  | BadMagic
  | UnsupportedSnapshotVersion u32 u32
  | Decode rstr

section \<open>Masks\<close>

text \<open>\<^verbatim>\<open>Cow<str>\<close>: an owned result means that something was replaced.\<close>

datatype cow = Borrowed rstr | Owned rstr

fun cow_str :: "cow \<Rightarrow> rstr" where
  "cow_str (Borrowed s) = s"
| "cow_str (Owned s) = s"

record 're mask =
  pattern :: 're
  placeholder :: rstr

definition mask_new :: "(rstr \<Rightarrow> rstr + 're) \<Rightarrow> rstr \<Rightarrow> rstr \<Rightarrow> logdrain_error + 're mask" where
  "mask_new regex_new pat holder =
     (case regex_new pat of
        Inl e \<Rightarrow> Inl (RegexCompile e)
      | Inr re \<Rightarrow> Inr \<lparr>pattern = re, placeholder = holder\<rparr>)"

text \<open>The loop of \<^verbatim>\<open>apply_masks\<close>; \<open>cur\<close> is the text masked so far.\<close>

fun mask_loop :: "('re \<Rightarrow> rstr \<Rightarrow> rstr \<Rightarrow> cow) \<Rightarrow> 're mask list \<Rightarrow> cow \<Rightarrow> cow" where
  "mask_loop replace_all [] cur = cur"
| "mask_loop replace_all (m # ms) cur =
     (case replace_all (pattern m) (cow_str cur) (placeholder m) of
        Owned s \<Rightarrow> mask_loop replace_all ms (Owned s)
      | Borrowed _ \<Rightarrow> mask_loop replace_all ms cur)"

definition apply_masks ::
    "('re \<Rightarrow> rstr \<Rightarrow> rstr \<Rightarrow> cow) \<Rightarrow> rstr \<Rightarrow> 're mask list \<Rightarrow> cow" where
  "apply_masks replace_all line ms = mask_loop replace_all ms (Borrowed line)"

text \<open>
  The built-in masks: \<^verbatim>\<open>expect\<close> panics when the pattern does not compile, which is
  \<open>None\<close>.
\<close>

definition builtin_mask :: "(rstr \<Rightarrow> rstr + 're) \<Rightarrow> rstr \<Rightarrow> rstr \<Rightarrow> 're mask option" where
  "builtin_mask regex_new pat holder =
     (case mask_new regex_new pat holder of Inl _ \<Rightarrow> None | Inr m \<Rightarrow> Some m)"

definition uuid_pattern :: rstr where
  "uuid_pattern = [92] @
     str ''b[0-9a-fA-F]{8}-[0-9a-fA-F]{4}-[0-9a-fA-F]{4}-[0-9a-fA-F]{4}-[0-9a-fA-F]{12}'' @
     [92] @ str ''b''"

definition hex32_pattern :: rstr where
  "hex32_pattern = [92] @ str ''b[0-9a-fA-F]{32}'' @ [92] @ str ''b''"

definition email_pattern :: rstr where
  "email_pattern = [92] @ str ''b[A-Za-z0-9._%+-]+@[A-Za-z0-9.-]+'' @ [92] @
     str ''.[A-Za-z]{2,}'' @ [92] @ str ''b''"

definition ipv4_pattern :: rstr where
  "ipv4_pattern = [92] @ str ''b(?:'' @ [92] @ str ''d{1,3}'' @ [92] @ str ''.){3}'' @ [92] @
     str ''d{1,3}'' @ [92] @ str ''b''"

definition jwt_pattern :: rstr where
  "jwt_pattern = [92] @ str ''beyJ[A-Za-z0-9_-]+'' @ [92] @ str ''.[A-Za-z0-9_-]+'' @ [92] @
     str ''.[A-Za-z0-9_-]+'' @ [92] @ str ''b''"

definition mask_uuid :: "(rstr \<Rightarrow> rstr + 're) \<Rightarrow> 're mask option" where
  "mask_uuid regex_new = builtin_mask regex_new uuid_pattern (str ''<uuid>'')"

definition mask_hex32 :: "(rstr \<Rightarrow> rstr + 're) \<Rightarrow> 're mask option" where
  "mask_hex32 regex_new = builtin_mask regex_new hex32_pattern (str ''<hex32>'')"

definition mask_email :: "(rstr \<Rightarrow> rstr + 're) \<Rightarrow> 're mask option" where
  "mask_email regex_new = builtin_mask regex_new email_pattern (str ''<email>'')"

definition mask_ipv4 :: "(rstr \<Rightarrow> rstr + 're) \<Rightarrow> 're mask option" where
  "mask_ipv4 regex_new = builtin_mask regex_new ipv4_pattern (str ''<ipv4>'')"

definition mask_jwt :: "(rstr \<Rightarrow> rstr + 're) \<Rightarrow> 're mask option" where
  "mask_jwt regex_new = builtin_mask regex_new jwt_pattern (str ''<jwt>'')"

section \<open>Lemmas\<close>

lemma mask_loop_append:
  "mask_loop ra (ms @ ms') cur = mask_loop ra ms' (mask_loop ra ms cur)"
  by (induction ms arbitrary: cur) (auto split: cow.splits)

lemma mask_loop_Borrowed_iff:
  "mask_loop ra ms (Borrowed s) = Borrowed t \<longleftrightarrow>
     t = s \<and> (\<forall>m \<in> set ms. \<exists>u. ra (pattern m) s (placeholder m) = Borrowed u)"
proof -
  have owned: "\<exists>t. mask_loop ra ms (Owned s) = Owned t" for ms s
    by (induction ms arbitrary: s) (auto split: cow.splits)
  show ?thesis
  proof (induction ms)
    case (Cons m ms)
    show ?case
    proof (cases "ra (pattern m) s (placeholder m)")
      case (Owned u)
      with owned [of ms u] show ?thesis by auto
    qed (use Cons in auto)
  qed auto
qed

section \<open>Properties\<close>

text \<open>
  Masks are applied left to right, each to the result of the ones before it, and the line
  is borrowed unchanged exactly when no mask matches it.  The hypothesis is the documented
  contract of \<^verbatim>\<open>Regex::replace_all\<close>: a borrowed result is the input itself.
\<close>

theorem apply_masks_spec:
  fixes ms :: "'re mask list"
  assumes "\<And>re s p t. replace_all re s p = Borrowed t \<Longrightarrow> t = s"
  shows "cow_str (apply_masks replace_all line ms) =
      fold (\<lambda>m s. cow_str (replace_all (pattern m) s (placeholder m))) ms line \<and>
    ((\<exists>t. apply_masks replace_all line ms = Borrowed t) \<longleftrightarrow>
      (\<forall>m \<in> set ms. replace_all (pattern m) line (placeholder m) = Borrowed line))"
proof -
  have "cow_str (mask_loop replace_all ms cur) =
      fold (\<lambda>m s. cow_str (replace_all (pattern m) s (placeholder m))) ms (cow_str cur)" for cur
  proof (induction ms arbitrary: cur)
    case (Cons m ms)
    then show ?case
      using assms [of "pattern m" "cow_str cur" "placeholder m"] by (auto split: cow.splits)
  qed simp
  moreover have "(\<exists>u. replace_all (pattern m) line (placeholder m) = Borrowed u) \<longleftrightarrow>
      replace_all (pattern m) line (placeholder m) = Borrowed line" for m :: "'re mask"
    using assms by blast
  ultimately show ?thesis
    by (simp add: apply_masks_def mask_loop_Borrowed_iff)
qed

theorem apply_masks_spec_witness:
  "cow_str (apply_masks (\<lambda>re s p. if s = re then Owned p else Borrowed s) (str ''10'')
     [\<lparr>pattern = str ''10'', placeholder = str ''<n>''\<rparr>,
      \<lparr>pattern = str ''<n>'', placeholder = str ''<m>''\<rparr>]) = str ''<m>''"
  by (subst apply_masks_spec [THEN conjunct1]) (auto split: if_splits)

end
