(* ===== verification/Float64.thy ===== *)
theory Float64
  imports Prelude "HOL-Library.Log_Nat" Complex_Main
begin

text \<open>
  The part of Rust's \<^verbatim>\<open>f64\<close> the sources compute with: conversion of an unsigned
  integer, addition, division and the ordering tests, on IEEE 754 binary64 values.
  A finite value is its exact rational; an operation rounds its exact result to 53 significant
  bits, to nearest with ties to even (\<open>rne\<close>).  The two zeros are one value, because the
  sources only compare and divide by non-zero values; the exponent range is not bounded, because
  every quantity the sources compute (ratios of token counts, sizes, seconds) is zero or lies
  between \<open>2\<close> to the \<open>-70\<close> and \<open>2\<close> to the \<open>130\<close>.
\<close>

section \<open>Rounding\<close>

text \<open>The exponent of the leading bit of a positive rational, computed on integers.\<close>

definition ilog2q :: "rat \<Rightarrow> int" where
  "ilog2q x =
     (if 1 \<le> x then int (floorlog 2 (nat \<lfloor>x\<rfloor>)) - 1
      else - int (floorlog 2 (nat (\<lceil>1 / x\<rceil> - 1))))"

definition rhe :: "rat \<Rightarrow> int" where
  "rhe q = (let f = \<lfloor>q\<rfloor>; d = q - of_int f in
     if d < 1 / 2 then f else if 1 / 2 < d then f + 1 else if even f then f else f + 1)"

definition rne_pos :: "rat \<Rightarrow> rat" where
  "rne_pos x = of_int (rhe (x * 2 powi (52 - ilog2q x))) * 2 powi (ilog2q x - 52)"

definition rne :: "rat \<Rightarrow> rat" where
  "rne x = (if x = 0 then 0 else if 0 < x then rne_pos x else - rne_pos (- x))"

lemma rhe_of_int [simp]: "rhe (of_int k) = k"
  by (simp add: rhe_def)

lemma rhe_cases: "rhe q = \<lfloor>q\<rfloor> \<or> rhe q = \<lfloor>q\<rfloor> + 1"
  by (simp add: rhe_def Let_def)

lemma rhe_mono:
  assumes "p \<le> q"
  shows "rhe p \<le> rhe q"
proof (cases "\<lfloor>p\<rfloor> = \<lfloor>q\<rfloor>")
  case True
  with assms show ?thesis
    by (auto simp: rhe_def Let_def)
next
  case False
  with floor_mono [OF assms] have "\<lfloor>p\<rfloor> + 1 \<le> \<lfloor>q\<rfloor>"
    by simp
  with rhe_cases [of p] rhe_cases [of q] show ?thesis
    by linarith
qed

lemma two_powi_pos [simp]: "0 < (2::rat) powi k"
  by (simp add: zero_less_power_int)

lemma two_powi_nonneg [simp]: "0 \<le> (2::rat) powi k"
  by (simp add: less_imp_le)

lemma two_powi_add: "(2::rat) powi (a + b) = 2 powi a * 2 powi b"
  by (simp add: power_int_add)

lemma two_powi_mono: "a \<le> b \<Longrightarrow> (2::rat) powi a \<le> 2 powi b"
  by (rule power_int_increasing) auto

lemma two_powi_less_iff: "(2::rat) powi a < 2 powi b \<longleftrightarrow> a < b"
  by (meson linorder_not_less one_less_numeral_iff power_int_strict_increasing semiring_norm(76)
      two_powi_mono)

lemma floorlog2_bounds:
  assumes "0 < n"
  shows "2 ^ (floorlog 2 n - 1) \<le> n" "n < 2 ^ floorlog 2 n" "0 < floorlog 2 n"
proof -
  show "2 ^ (floorlog 2 n - 1) \<le> n" "n < 2 ^ floorlog 2 n"
    using floorlog_bounds [of n 2] assms by auto
  then show "0 < floorlog 2 n"
    using assms by (cases "floorlog 2 n") auto
qed

lemma two_powi_nat: "(2::rat) powi int n = 2 ^ n"
  by simp

lemma two_powi_minus_nat: "(2::rat) powi - int n = 1 / 2 ^ n"
  by (simp add: power_int_minus divide_inverse)

lemma ilog2q_bounds:
  assumes "0 < x"
  shows "2 powi ilog2q x \<le> x" "x < 2 powi (ilog2q x + 1)"
proof -
  have both: "2 powi ilog2q x \<le> x \<and> x < 2 powi (ilog2q x + 1)"
  proof (cases "1 \<le> x")
    case True
    define n where "n = nat \<lfloor>x\<rfloor>"
    define k where "k = floorlog 2 n"
    from True have n: "0 < n" "of_nat n \<le> x" "x < of_nat n + 1"
      by (simp_all add: n_def of_nat_floor) linarith
    have k: "2 ^ (k - 1) \<le> n" "n < 2 ^ k" "0 < k"
      using floorlog2_bounds [OF n(1)] by (simp_all add: k_def)
    have e: "ilog2q x = int (k - 1)"
      using True k(3) by (simp add: ilog2q_def n_def k_def of_nat_diff)
    have "(2::rat) ^ (k - 1) = of_nat (2 ^ (k - 1))" by simp
    also have "\<dots> \<le> of_nat n" using k(1) of_nat_le_iff by blast
    finally have lo: "(2::rat) ^ (k - 1) \<le> x" using n(2) by linarith
    have "of_nat n + 1 \<le> (of_nat (2 ^ k) :: rat)"
      using k(2) by (metis Suc_leI add.commute of_nat_Suc of_nat_le_iff)
    then have hi: "x < 2 ^ k" using n(3) by simp
    have "int (k - 1) + 1 = int k" using k(3) by simp
    with lo hi show ?thesis unfolding e by (simp only: two_powi_nat simp_thms)
  next
    case False
    define y where "y = 1 / x"
    have y: "1 < y" using assms False by (simp add: y_def)
    define n where "n = nat (\<lceil>y\<rceil> - 1)"
    define k where "k = floorlog 2 n"
    have cy: "1 < \<lceil>y\<rceil>" using y by (simp add: less_ceiling_iff)
    have n: "0 < n" "of_nat n < y" "y \<le> of_nat n + 1"
      using cy by (simp_all add: n_def) linarith+
    have k: "2 ^ (k - 1) \<le> n" "n < 2 ^ k" "0 < k"
      using floorlog2_bounds [OF n(1)] by (simp_all add: k_def)
    have e: "ilog2q x = - int k"
      using False by (simp add: ilog2q_def n_def k_def y_def)
    have "of_nat n + 1 \<le> (of_nat (2 ^ k) :: rat)"
      using k(2) by (metis Suc_leI add.commute of_nat_Suc of_nat_le_iff)
    then have "y \<le> 2 ^ k" using n(3) by simp
    then have lo: "1 / 2 ^ k \<le> x"
      using assms by (simp add: y_def field_simps)
    have "(2::rat) ^ (k - 1) = of_nat (2 ^ (k - 1))" by simp
    also have "\<dots> \<le> of_nat n" using k(1) of_nat_le_iff by blast
    finally have "2 ^ (k - 1) < y" using n(2) by linarith
    then have hi: "x < 1 / 2 ^ (k - 1)"
      using assms by (simp add: y_def field_simps)
    have "- int k + 1 = - int (k - 1)" using k(3) by simp
    with lo hi show ?thesis unfolding e by (simp only: two_powi_minus_nat simp_thms)
  qed
  from both show "2 powi ilog2q x \<le> x" by (rule conjunct1)
  from both show "x < 2 powi (ilog2q x + 1)" by (rule conjunct2)
qed

lemma ilog2q_mono:
  assumes "0 < x" "x \<le> y"
  shows "ilog2q x \<le> ilog2q y"
proof -
  have "2 powi ilog2q x < (2::rat) powi (ilog2q y + 1)"
    using ilog2q_bounds [of x] ilog2q_bounds [of y] assms by linarith
  then show ?thesis by (simp add: two_powi_less_iff)
qed

lemma rne_pos_scaled_bounds:
  assumes "0 < x"
  shows "2 ^ 52 \<le> x * 2 powi (52 - ilog2q x)" "x * 2 powi (52 - ilog2q x) < 2 ^ 53"
proof -
  let ?s = "(2::rat) powi (52 - ilog2q x)"
  have "2 powi ilog2q x * ?s \<le> x * ?s" "x * ?s < 2 powi (ilog2q x + 1) * ?s"
    using ilog2q_bounds [OF assms] by (simp_all add: mult_right_mono mult_strict_right_mono)
  moreover have "2 powi ilog2q x * ?s = 2 powi int 52"
    by (simp only: two_powi_add [symmetric]) simp
  moreover have "2 powi (ilog2q x + 1) * ?s = 2 powi int 53"
    by (simp only: two_powi_add [symmetric]) simp
  ultimately show "2 ^ 52 \<le> x * ?s" "x * ?s < 2 ^ 53"
    by (simp_all only: two_powi_nat)
qed

lemma rhe_scaled_bounds:
  assumes "0 < x"
  shows "2 ^ 52 \<le> rhe (x * 2 powi (52 - ilog2q x))" "rhe (x * 2 powi (52 - ilog2q x)) \<le> 2 ^ 53"
proof -
  note b = rne_pos_scaled_bounds [OF assms]
  show "2 ^ 52 \<le> rhe (x * 2 powi (52 - ilog2q x))"
    using rhe_mono [of "of_int (2 ^ 52)" "x * 2 powi (52 - ilog2q x)"] b(1)
    by (simp only: rhe_of_int) simp
  show "rhe (x * 2 powi (52 - ilog2q x)) \<le> 2 ^ 53"
    using rhe_mono [of "x * 2 powi (52 - ilog2q x)" "of_int (2 ^ 53)"] b(2)
    by (simp only: rhe_of_int) simp
qed

lemma rne_pos_binade:
  assumes "0 < x"
  shows "2 powi ilog2q x \<le> rne_pos x" "rne_pos x \<le> 2 powi (ilog2q x + 1)"
proof -
  let ?e = "ilog2q x"
  let ?r = "rhe (x * 2 powi (52 - ?e))"
  have r: "(2::rat) ^ 52 \<le> of_int ?r" "(of_int ?r :: rat) \<le> 2 ^ 53"
    using rhe_scaled_bounds [OF assms] by (metis of_int_le_iff of_int_numeral of_int_power)+
  have "2 powi ?e = 2 ^ 52 * (2::rat) powi (?e - 52)"
    by (simp only: two_powi_nat [symmetric] two_powi_add [symmetric]) simp
  then show "2 powi ?e \<le> rne_pos x"
    unfolding rne_pos_def using r(1) by (simp add: mult_right_mono del: of_int_power)
  have "2 powi (?e + 1) = 2 ^ 53 * (2::rat) powi (?e - 52)"
    by (simp only: two_powi_nat [symmetric] two_powi_add [symmetric]) (simp add: add.commute)
  then show "rne_pos x \<le> 2 powi (?e + 1)"
    unfolding rne_pos_def using r(2) by (simp add: mult_right_mono del: of_int_power)
qed

lemma rne_pos_pos: "0 < x \<Longrightarrow> 0 < rne_pos x"
  using rne_pos_binade(1) [of x] two_powi_pos [of "ilog2q x"] by linarith

lemma rne_pos_mono:
  assumes "0 < x" "x \<le> y"
  shows "rne_pos x \<le> rne_pos y"
proof (cases "ilog2q x = ilog2q y")
  case True
  have "x * 2 powi (52 - ilog2q x) \<le> y * 2 powi (52 - ilog2q x)"
    using assms(2) by (simp add: mult_right_mono)
  then have "rhe (x * 2 powi (52 - ilog2q x)) \<le> rhe (y * 2 powi (52 - ilog2q x))"
    by (rule rhe_mono)
  with True show ?thesis
    unfolding rne_pos_def by (simp add: mult_right_mono)
next
  case False
  with ilog2q_mono [OF assms] have "ilog2q x + 1 \<le> ilog2q y" by simp
  then have "(2::rat) powi (ilog2q x + 1) \<le> 2 powi ilog2q y" by (rule two_powi_mono)
  with rne_pos_binade(2) [of x] rne_pos_binade(1) [of y] assms show ?thesis by linarith
qed

lemma rne_0 [simp]: "rne 0 = 0"
  by (simp add: rne_def)

lemma rne_minus: "rne (- x) = - rne x"
  by (simp add: rne_def)

lemma rne_nonneg: "0 \<le> x \<Longrightarrow> 0 \<le> rne x"
  using rne_pos_pos [of x] by (auto simp: rne_def)

lemma rne_pos_iff: "0 < x \<Longrightarrow> 0 < rne x"
  by (simp add: rne_def rne_pos_pos)

lemma rne_mono:
  assumes "x \<le> y"
  shows "rne x \<le> rne y"
proof (cases "0 < x")
  case True
  with assms show ?thesis by (simp add: rne_def rne_pos_mono)
next
  case False
  show ?thesis
  proof (cases "0 \<le> y")
    case True
    with False show ?thesis
      using rne_nonneg [of y] rne_nonneg [of "- x"] by (simp add: rne_minus)
  next
    case neg: False
    with assms have "rne_pos (- y) \<le> rne_pos (- x)"
      by (intro rne_pos_mono) auto
    with neg assms show ?thesis by (simp add: rne_def)
  qed
qed

text \<open>A value with at most 53 significant bits is not changed.\<close>

lemma rne_exact:
  assumes "0 \<le> m" "m < 2 ^ 53"
  shows "rne (of_int m * 2 powi k) = of_int m * 2 powi k"
proof (cases "m = 0")
  case False
  define x where "x = (of_int m :: rat) * 2 powi k"
  have m1: "(1::rat) \<le> of_int m" using False assms(1) by simp
  have x0: "0 < x" using m1 by (simp add: x_def)
  have "(of_int m :: rat) < 2 ^ 53"
    using assms(2) by (metis of_int_less_iff of_int_numeral of_int_power)
  then have "x < 2 ^ 53 * 2 powi k" by (simp add: x_def del: of_int_less_iff)
  also have "\<dots> = 2 powi (53 + k)"
    by (simp only: two_powi_nat [symmetric] two_powi_add [symmetric]) simp
  finally have "(2::rat) powi ilog2q x < 2 powi (53 + k)"
    using ilog2q_bounds(1) [OF x0] by linarith
  then have ge: "0 \<le> k + (52 - ilog2q x)" by (simp add: two_powi_less_iff)
  define j where "j = nat (k + (52 - ilog2q x))"
  have "x * 2 powi (52 - ilog2q x) = of_int m * 2 powi (k + (52 - ilog2q x))"
    by (simp add: x_def two_powi_add mult.assoc)
  also have "\<dots> = of_int (m * 2 ^ j)"
    using ge by (simp add: j_def power_int_def)
  finally have s: "x * 2 powi (52 - ilog2q x) = of_int (m * 2 ^ j)" .
  have "rne_pos x = x * 2 powi (52 - ilog2q x) * 2 powi (ilog2q x - 52)"
    unfolding rne_pos_def s by (simp only: rhe_of_int)
  also have "\<dots> = x"
    by (simp only: mult.assoc two_powi_add [symmetric]) simp
  finally show ?thesis using x0 by (simp add: rne_def x_def [symmetric])
qed simp

lemma rne_of_nat: "n < 2 ^ 53 \<Longrightarrow> rne (of_nat n) = of_nat n"
  using rne_exact [of "int n" 0] by simp

lemma rne_1 [simp]: "rne 1 = 1"
  using rne_of_nat [of 1] by simp

lemma rne_le_1: "x \<le> 1 \<Longrightarrow> rne x \<le> 1"
  using rne_mono [of x 1] by simp

section \<open>The values and their operations\<close>

text \<open>\<open>Inf True\<close> is negative infinity.\<close>

datatype f64 = NaN | Inf bool | Fin rat

fun f64_le :: "f64 \<Rightarrow> f64 \<Rightarrow> bool" where
  "f64_le NaN _ = False"
| "f64_le _ NaN = False"
| "f64_le (Inf n) y = (n \<or> y = Inf False)"
| "f64_le x (Inf n) = (\<not> n)"
| "f64_le (Fin a) (Fin b) = (a \<le> b)"

fun f64_lt :: "f64 \<Rightarrow> f64 \<Rightarrow> bool" where
  "f64_lt x y = (f64_le x y \<and> \<not> f64_le y x)"

text \<open>\<^verbatim>\<open>n as f64\<close> for an unsigned integer.\<close>

definition f64_of_nat :: "nat \<Rightarrow> f64" where
  "f64_of_nat n = Fin (rne (of_nat n))"

fun f64_div :: "f64 \<Rightarrow> f64 \<Rightarrow> f64" where
  "f64_div NaN _ = NaN"
| "f64_div _ NaN = NaN"
| "f64_div (Inf _) (Inf _) = NaN"
| "f64_div (Inf n) (Fin b) = Inf (n \<noteq> (b < 0))"
| "f64_div (Fin a) (Inf _) = Fin 0"
| "f64_div (Fin a) (Fin b) =
     (if b = 0 then if a = 0 then NaN else Inf (a < 0) else Fin (rne (a / b)))"

fun f64_add :: "f64 \<Rightarrow> f64 \<Rightarrow> f64" where
  "f64_add NaN _ = NaN"
| "f64_add _ NaN = NaN"
| "f64_add (Inf m) (Inf n) = (if m = n then Inf m else NaN)"
| "f64_add (Inf m) (Fin _) = Inf m"
| "f64_add (Fin _) (Inf n) = Inf n"
| "f64_add (Fin a) (Fin b) = Fin (rne (a + b))"

text \<open>A literal of the source is rounded when it is read.\<close>

definition f64_lit :: "rat \<Rightarrow> f64" where
  "f64_lit q = Fin (rne q)"

lemma f64_lt_Fin [simp]: "f64_lt (Fin a) (Fin b) \<longleftrightarrow> a < b"
  by auto

lemma f64_le_Fin_left: "f64_le (Fin a) y \<Longrightarrow> y \<noteq> NaN"
  by auto

lemma f64_le_trans: "f64_le x y \<Longrightarrow> f64_le y z \<Longrightarrow> f64_le x z"
  by (cases x; cases y; cases z) auto

text \<open>
  The ratio of two counts, as \<^verbatim>\<open>m as f64 / n as f64\<close>: between zero and one,
  and one exactly when the counts agree, as long as the counts are below \<open>2\<close> to
  the 53.
\<close>

definition ratio :: "nat \<Rightarrow> nat \<Rightarrow> rat" where
  "ratio m n = rne (rne (of_nat m) / rne (of_nat n))"

lemma f64_div_of_nat:
  assumes "0 < n"
  shows "f64_div (f64_of_nat m) (f64_of_nat n) = Fin (ratio m n)"
  using assms rne_pos_iff [of "of_nat n"] by (simp add: f64_of_nat_def ratio_def)

lemma ratio_mono:
  assumes "m \<le> m'"
  shows "ratio m n \<le> ratio m' n"
  unfolding ratio_def using assms rne_nonneg [of "of_nat n"]
  by (intro rne_mono divide_right_mono) auto

lemma ratio_self [simp]: "0 < n \<Longrightarrow> ratio n n = 1"
  using rne_pos_iff [of "of_nat n"] by (simp add: ratio_def)

lemma ratio_0 [simp]: "ratio 0 n = 0"
  by (simp add: ratio_def)

text \<open>The extreme ratios need no rounding when they are evaluated.\<close>

lemma ratio_code [code]:
  "ratio m n = (if m = 0 then 0 else if m = n then 1 else rne (rne (of_nat m) / rne (of_nat n)))"
proof (cases "m = 0 \<or> m = n")
  case True
  then show ?thesis by (cases "m = 0") auto
qed (simp add: ratio_def)

lemma ratio_range: "m \<le> n \<Longrightarrow> 0 < n \<Longrightarrow> 0 \<le> ratio m n \<and> ratio m n \<le> 1"
  using ratio_mono [of 0 m n] ratio_mono [of m n n] by simp

text \<open>The largest value below one.\<close>

definition below_1 :: rat where
  "below_1 = of_int (2 ^ 53 - 1) * 2 powi (- 53)"

lemma below_1_less: "below_1 < 1"
  by (simp add: below_1_def power_int_def power_one_over divide_inverse [symmetric])

lemma rne_below_1 [simp]: "rne below_1 = below_1"
  unfolding below_1_def by (rule rne_exact) simp_all

lemma ratio_below_1:
  assumes "m < n" "n < 2 ^ 53"
  shows "ratio m n \<le> below_1"
proof -
  have n0: "(0::rat) < of_nat n" using assms(1) by simp
  have "m \<le> n - 1" using assms(1) by simp
  then have "ratio m n \<le> ratio (n - 1) n" by (rule ratio_mono)
  also have "ratio (n - 1) n = rne (of_nat (n - 1) / of_nat n)"
    using assms by (simp only: ratio_def rne_of_nat less_imp_diff_less)
  also have "\<dots> = rne (1 - 1 / of_nat n)"
    using assms by (simp add: diff_divide_distrib of_nat_diff)
  also have "\<dots> \<le> rne below_1"
  proof (rule rne_mono)
    have "(of_nat n :: rat) \<le> of_nat (2 ^ 53)"
      using assms(2) of_nat_le_iff less_imp_le by blast
    then have "1 / of_nat (2 ^ 53) \<le> 1 / (of_nat n :: rat)"
      using n0 by (intro divide_left_mono) auto
    moreover have "below_1 = 1 - 1 / of_nat (2 ^ 53)"
      by (simp add: below_1_def power_int_def field_simps)
    ultimately show "1 - 1 / of_nat n \<le> below_1"
      by linarith
  qed
  finally show ?thesis by simp
qed

lemma ratio_less_1: "m < n \<Longrightarrow> n < 2 ^ 53 \<Longrightarrow> ratio m n < 1"
  using ratio_below_1 [of m n] below_1_less by simp

end
