(* ===== verification/Options.thy ===== *)
theory Options
  imports Mask Float64
begin

text \<open>
  Model of \<^verbatim>\<open>crates/logdrain/src/options.rs\<close>: the resolved options, the fluent
  builder and its validation.  A \<^verbatim>\<open>usize\<close> is a natural number below
  \<open>2\<close> to the 64; the type of compiled regular expressions is \<open>'re\<close>.
\<close>

record 're options =
  sim_threshold :: f64
  depth :: nat
  max_clusters_per_leaf :: nat
  parametrize_numeric_tokens :: bool
  wildcard :: rstr
  path_delimiters :: "rchar list"
  first_line_path_delimiters :: "rchar list"
  first_line_only :: bool
  masks :: "'re mask list"

definition default_options :: "'re options" where
  "default_options =
     \<lparr>sim_threshold = f64_lit (4 / 10), depth = 4, max_clusters_per_leaf = 100,
      parametrize_numeric_tokens = True, wildcard = str ''<*>'', path_delimiters = [],
      first_line_path_delimiters = [], first_line_only = False, masks = []\<rparr>"

text \<open>
  \<^verbatim>\<open>self.depth - 2\<close> on \<^verbatim>\<open>usize\<close>.  Validated options have a depth of
  at least 2; options made by hand and passed to \<^verbatim>\<open>Miner::from_options\<close> need not, and
  the subtraction then wraps (in a build without overflow checks).
\<close>

definition prefix_len :: "'re options \<Rightarrow> nat" where
  "prefix_len opt = (if 2 \<le> depth opt then depth opt - 2 else 2 ^ 64 + depth opt - 2)"

definition active_path_delimiters :: "'re options \<Rightarrow> rchar list" where
  "active_path_delimiters opt =
     (if first_line_only opt \<and> first_line_path_delimiters opt \<noteq> []
      then first_line_path_delimiters opt else path_delimiters opt)"

section \<open>The builder\<close>

record 're miner_builder =
  opts :: "'re options"

definition builder_new :: "'re miner_builder" where
  "builder_new = \<lparr>opts = default_options\<rparr>"

definition set_sim_threshold :: "f64 \<Rightarrow> 're miner_builder \<Rightarrow> 're miner_builder" where
  "set_sim_threshold v b = b\<lparr>opts := (opts b)\<lparr>sim_threshold := v\<rparr>\<rparr>"

definition set_depth :: "nat \<Rightarrow> 're miner_builder \<Rightarrow> 're miner_builder" where
  "set_depth v b = b\<lparr>opts := (opts b)\<lparr>depth := v\<rparr>\<rparr>"

definition set_max_clusters_per_leaf :: "nat \<Rightarrow> 're miner_builder \<Rightarrow> 're miner_builder" where
  "set_max_clusters_per_leaf v b = b\<lparr>opts := (opts b)\<lparr>max_clusters_per_leaf := v\<rparr>\<rparr>"

definition set_parametrize_numeric_tokens :: "bool \<Rightarrow> 're miner_builder \<Rightarrow> 're miner_builder" where
  "set_parametrize_numeric_tokens v b = b\<lparr>opts := (opts b)\<lparr>parametrize_numeric_tokens := v\<rparr>\<rparr>"

definition set_wildcard :: "rstr \<Rightarrow> 're miner_builder \<Rightarrow> 're miner_builder" where
  "set_wildcard v b = b\<lparr>opts := (opts b)\<lparr>wildcard := v\<rparr>\<rparr>"

definition set_path_delimiters :: "rchar list \<Rightarrow> 're miner_builder \<Rightarrow> 're miner_builder" where
  "set_path_delimiters v b = b\<lparr>opts := (opts b)\<lparr>path_delimiters := v\<rparr>\<rparr>"

definition set_first_line_path_delimiters ::
    "rchar list \<Rightarrow> 're miner_builder \<Rightarrow> 're miner_builder" where
  "set_first_line_path_delimiters v b = b\<lparr>opts := (opts b)\<lparr>first_line_path_delimiters := v\<rparr>\<rparr>"

definition set_first_line_only :: "bool \<Rightarrow> 're miner_builder \<Rightarrow> 're miner_builder" where
  "set_first_line_only v b = b\<lparr>opts := (opts b)\<lparr>first_line_only := v\<rparr>\<rparr>"

definition set_masks :: "'re mask list \<Rightarrow> 're miner_builder \<Rightarrow> 're miner_builder" where
  "set_masks v b = b\<lparr>opts := (opts b)\<lparr>masks := v\<rparr>\<rparr>"

lemmas builder_defs =
  builder_new_def set_sim_threshold_def set_depth_def set_max_clusters_per_leaf_def
  set_parametrize_numeric_tokens_def set_wildcard_def set_path_delimiters_def
  set_first_line_path_delimiters_def set_first_line_only_def set_masks_def

text \<open>\<^verbatim>\<open>(0.0..=1.0).contains(&v)\<close>: both comparisons fail on a NaN.\<close>

definition build_options :: "'re miner_builder \<Rightarrow> logdrain_error + 're options" where
  "build_options b =
     (let opt = opts b in
      if depth opt < 2 then Inl (InvalidConfig (Depth_too_small (depth opt)))
      else if \<not> (f64_le (Fin 0) (sim_threshold opt) \<and> f64_le (sim_threshold opt) (Fin 1))
        then Inl (InvalidConfig Threshold_out_of_range)
      else if max_clusters_per_leaf opt = 0 then Inl (InvalidConfig Leaf_capacity_zero)
      else Inr opt)"

section \<open>Valid options\<close>

definition valid_options :: "'re options \<Rightarrow> bool" where
  "valid_options opt \<longleftrightarrow>
     2 \<le> depth opt \<and>
     (\<exists>t. sim_threshold opt = Fin t \<and> 0 \<le> t \<and> t \<le> 1) \<and>
     0 < max_clusters_per_leaf opt"

lemma threshold_in_range:
  "f64_le (Fin 0) v \<and> f64_le v (Fin 1) \<longleftrightarrow> (\<exists>t. v = Fin t \<and> 0 \<le> t \<and> t \<le> 1)"
  by (cases v) auto

lemma valid_default_options: "valid_options default_options"
proof -
  have "0 \<le> rne (4 / 10)" "rne (4 / 10) \<le> 1"
    by (simp_all add: rne_nonneg rne_le_1)
  then show ?thesis
    by (simp add: valid_options_def default_options_def f64_lit_def)
qed

lemma prefix_len_valid: "valid_options opt \<Longrightarrow> prefix_len opt = depth opt - 2"
  by (simp add: valid_options_def prefix_len_def)

section \<open>Properties\<close>

text \<open>
  The builder accepts exactly the options with a depth of at least 2, a threshold that is a
  number between zero and one (no NaN, no infinity) and a leaf capacity of at least one, returns
  them unchanged, and otherwise reports the first of the three rules that is broken.
\<close>

theorem build_options_exact:
  "build_options b =
     (if valid_options (opts b) then Inr (opts b)
      else Inl (InvalidConfig
        (if depth (opts b) < 2 then Depth_too_small (depth (opts b))
         else if \<nexists>t. sim_threshold (opts b) = Fin t \<and> 0 \<le> t \<and> t \<le> 1
           then Threshold_out_of_range
         else Leaf_capacity_zero)))"
  unfolding build_options_def Let_def threshold_in_range valid_options_def by simp blast

end
