(* ===== verification/Prefix_Tree.thy ===== *)
theory Prefix_Tree
  imports Prelude
begin

text \<open>
  Model of \<^verbatim>\<open>crates/logdrain/src/tree.rs\<close>: the leaf buckets and the prefix tree
  of a shard.  A mutable reference returned by \<^verbatim>\<open>descend_or_create\<close> is split into
  the grown tree, a read of the leaf at the path (\<open>descend\<close>) and the write through the
  reference (\<open>write_leaf\<close>).  \<open>None\<close> from \<open>descend_or_create\<close> is the
  \<^verbatim>\<open>unreachable!\<close> panic.
\<close>

section \<open>Leaf buckets\<close>

record leaf_bucket =
  cap :: nat
  ids :: "u64 list"

definition leaf_new :: "nat \<Rightarrow> leaf_bucket" where
  "leaf_new c = \<lparr>cap = c, ids = []\<rparr>"

definition is_full :: "leaf_bucket \<Rightarrow> bool" where
  "is_full b \<longleftrightarrow> cap b \<le> length (ids b)"

definition leaf_insert :: "leaf_bucket \<Rightarrow> u64 \<Rightarrow> leaf_bucket" where
  "leaf_insert b x = b\<lparr>ids := ids b @ [x]\<rparr>"

definition leaf_remove :: "leaf_bucket \<Rightarrow> u64 \<Rightarrow> leaf_bucket" where
  "leaf_remove b x =
     (case position (\<lambda>y. y = x) (ids b) of
        None \<Rightarrow> b
      | Some pos \<Rightarrow> b\<lparr>ids := swap_remove (ids b) pos\<rparr>)"

lemma leaf_new_sel [simp]: "cap (leaf_new c) = c" "ids (leaf_new c) = []"
  by (simp_all add: leaf_new_def)

lemma leaf_insert_sel [simp]:
  "cap (leaf_insert b x) = cap b" "ids (leaf_insert b x) = ids b @ [x]"
  by (simp_all add: leaf_insert_def)

lemma leaf_remove_cap [simp]: "cap (leaf_remove b x) = cap b"
  by (simp add: leaf_remove_def split: option.splits)

lemma leaf_remove_absent: "x \<notin> set (ids b) \<Longrightarrow> leaf_remove b x = b"
  by (auto simp: leaf_remove_def position_None split: option.splits dest!: position_Some)

lemma leaf_remove_ids:
  assumes "distinct (ids b)"
  shows "distinct (ids (leaf_remove b x))" "set (ids (leaf_remove b x)) = set (ids b) - {x}"
proof -
  have "distinct (ids (leaf_remove b x)) \<and> set (ids (leaf_remove b x)) = set (ids b) - {x}"
  proof (cases "position (\<lambda>y. y = x) (ids b)")
    case None
    then have "x \<notin> set (ids b)" by (auto simp: position_None)
    with assms leaf_remove_absent [OF this] show ?thesis by simp
  next
    case (Some pos)
    from position_Some [OF Some] have "pos < length (ids b)" "ids b ! pos = x" by auto
    with Some distinct_swap_remove [OF _ assms] show ?thesis
      by (simp add: leaf_remove_def)
  qed
  then show "distinct (ids (leaf_remove b x))" "set (ids (leaf_remove b x)) = set (ids b) - {x}"
    by auto
qed

lemma leaf_remove_length:
  assumes "x \<in> set (ids b)"
  shows "length (ids (leaf_remove b x)) = length (ids b) - 1"
proof (cases "position (\<lambda>y. y = x) (ids b)")
  case None
  with assms show ?thesis by (auto simp: position_None)
next
  case (Some pos)
  from position_Some [OF Some] Some show ?thesis
    by (simp add: leaf_remove_def length_swap_remove)
qed

section \<open>The tree\<close>

datatype tree_node =
    Internal "(rstr, tree_node) fmap"
  | Leaf leaf_bucket

definition new_internal :: tree_node where
  "new_internal = Internal fmempty"

fun descend_or_create :: "tree_node \<Rightarrow> rstr list \<Rightarrow> nat \<Rightarrow> tree_node option" where
  "descend_or_create node [] leaf_cap =
     (case node of
        Leaf b \<Rightarrow> Some (Leaf b)
      | Internal _ \<Rightarrow> Some (Leaf (leaf_new leaf_cap)))"
| "descend_or_create node (head # rest) leaf_cap =
     (case node of
        Leaf _ \<Rightarrow> None
      | Internal children \<Rightarrow>
          let grown =
            (if fmlookup children head = None
             then fmupd head (if rest = [] then Leaf (leaf_new leaf_cap) else new_internal) children
             else children)
          in (case fmlookup grown head of
                None \<Rightarrow> None
              | Some child \<Rightarrow>
                  map_option (\<lambda>child'. Internal (fmupd head child' grown))
                    (descend_or_create child rest leaf_cap)))"

fun descend :: "tree_node \<Rightarrow> rstr list \<Rightarrow> leaf_bucket option" where
  "descend node [] = (case node of Leaf b \<Rightarrow> Some b | Internal _ \<Rightarrow> None)"
| "descend node (head # rest) =
     (case node of
        Internal children \<Rightarrow>
          (case fmlookup children head of None \<Rightarrow> None | Some child \<Rightarrow> descend child rest)
      | Leaf _ \<Rightarrow> None)"

fun write_leaf :: "tree_node \<Rightarrow> rstr list \<Rightarrow> leaf_bucket \<Rightarrow> tree_node" where
  "write_leaf node [] b = Leaf b"
| "write_leaf node (head # rest) b =
     (case node of
        Internal children \<Rightarrow>
          (case fmlookup children head of
             None \<Rightarrow> node
           | Some child \<Rightarrow> Internal (fmupd head (write_leaf child rest b) children))
      | Leaf _ \<Rightarrow> node)"

text \<open>
  The depth of a shard's tree is fixed: its leaves are exactly at depth \<open>n\<close>.  The one
  exception is a fresh root at depth zero, which is internal and empty until it is first used.
\<close>

fun has_depth :: "nat \<Rightarrow> tree_node \<Rightarrow> bool" where
  "has_depth 0 node = (case node of Leaf _ \<Rightarrow> True | Internal children \<Rightarrow> children = fmempty)"
| "has_depth (Suc n) node =
     (case node of
        Leaf _ \<Rightarrow> False
      | Internal children \<Rightarrow> fmpred (\<lambda>_ child. has_depth n child) children)"

lemma has_depth_new_internal [simp]: "has_depth n new_internal"
  by (cases n) (simp_all add: new_internal_def)

lemma descend_new_internal [simp]: "descend new_internal ks = None"
  by (cases ks) (simp_all add: new_internal_def)

lemma descend_depth: "has_depth n node \<Longrightarrow> descend node ks = Some b \<Longrightarrow> length ks = n"
proof (induction n arbitrary: node ks)
  case 0
  then show ?case by (cases ks) (auto split: tree_node.splits)
next
  case (Suc n)
  then show ?case
    by (cases ks) (auto split: tree_node.splits option.splits dest: fmpredD)
qed

lemma descend_or_create_ok:
  assumes "has_depth n node" "length ks = n"
  shows "\<exists>node'. descend_or_create node ks c = Some node' \<and> has_depth n node' \<and>
    descend node' ks = Some (case descend node ks of None \<Rightarrow> leaf_new c | Some b \<Rightarrow> b) \<and>
    (\<forall>ks'. ks' \<noteq> ks \<longrightarrow> descend node' ks' = descend node ks')"
  using assms
proof (induction ks arbitrary: n node)
  case Nil
  then show ?case
    by (cases node) (auto simp: neq_Nil_conv split: tree_node.splits)
next
  case (Cons k ks)
  then obtain m where n: "n = Suc m" "length ks = m" by auto
  with Cons.prems obtain ch where node: "node = Internal ch"
    and ch: "fmpred (\<lambda>_ child. has_depth m child) ch"
    by (cases node) auto
  define start where "start = (case fmlookup ch k of
      None \<Rightarrow> if ks = [] then Leaf (leaf_new c) else new_internal | Some child \<Rightarrow> child)"
  have depth: "has_depth m start"
    using ch n(2) by (auto simp: start_def split: option.splits dest: fmpredD)
  from Cons.IH [OF depth n(2)] obtain child' where child':
    "descend_or_create start ks c = Some child'" "has_depth m child'"
    "descend child' ks = Some (case descend start ks of None \<Rightarrow> leaf_new c | Some b \<Rightarrow> b)"
    "\<forall>ks'. ks' \<noteq> ks \<longrightarrow> descend child' ks' = descend start ks'"
    by blast
  have start_None: "fmlookup ch k = None \<Longrightarrow>
      descend start ks' = (if ks' = ks \<and> ks = [] then Some (leaf_new c) else None)" for ks'
    by (cases ks') (auto simp: start_def new_internal_def)
  define grown where "grown = (if fmlookup ch k = None then fmupd k start ch else ch)"
  have eq: "descend_or_create node (k # ks) c = Some (Internal (fmupd k child' grown))"
    using child'(1) by (auto simp: node grown_def start_def Let_def split: option.splits)
  have depth': "has_depth n (Internal (fmupd k child' grown))"
    using ch depth child'(2) by (auto simp: n grown_def)
  have at: "descend (Internal (fmupd k child' grown)) (k # ks) =
      Some (case descend node (k # ks) of None \<Rightarrow> leaf_new c | Some b \<Rightarrow> b)"
    using child'(3) start_None
    by (cases "fmlookup ch k") (auto simp: node start_def split: option.splits)
  have other: "descend (Internal (fmupd k child' grown)) ks' = descend node ks'"
    if ne: "ks' \<noteq> k # ks" for ks'
  proof (cases ks')
    case Nil
    then show ?thesis by (simp add: node)
  next
    case (Cons k' r)
    then show ?thesis
      using ne child'(4) start_None [of r]
      by (cases "fmlookup ch k") (auto simp: node grown_def start_def)
  qed
  from eq depth' at other show ?case by blast
qed

lemma write_leaf_ok:
  assumes "has_depth n node" "descend node ks = Some b0"
  shows "has_depth n (write_leaf node ks b) \<and>
    descend (write_leaf node ks b) = (descend node)(ks := Some b)"
  using assms
proof (induction ks arbitrary: n node)
  case Nil
  have "n = 0" using descend_depth [OF Nil] by simp
  moreover have "\<exists>b'. node = Leaf b'" using Nil(2) by (auto split: tree_node.splits)
  ultimately have n: "n = 0" "\<exists>b'. node = Leaf b'" by auto
  then have "descend (write_leaf node [] b) ks' = ((descend node)([] := Some b)) ks'" for ks'
    by (cases ks') auto
  with n show ?case by auto
next
  case (Cons k ks)
  then obtain m where n: "n = Suc m"
    using descend_depth [OF Cons.prems] by (cases n) auto
  with Cons.prems obtain ch child where node: "node = Internal ch"
    and ch: "fmpred (\<lambda>_ child. has_depth m child) ch"
    and child: "fmlookup ch k = Some child" "descend child ks = Some b0"
    by (auto split: tree_node.splits option.splits)
  from ch child(1) have "has_depth m child" by (rule fmpredD)
  from Cons.IH [OF this child(2)] have IH:
    "has_depth m (write_leaf child ks b)"
    "descend (write_leaf child ks b) = (descend child)(ks := Some b)" by auto
  have "descend (write_leaf node (k # ks) b) ks' = ((descend node)(k # ks := Some b)) ks'" for ks'
    using child(1) IH(2) by (cases ks') (auto simp: node)
  with IH(1) ch child(1) show ?case
    by (auto simp: node n)
qed

section \<open>The tree as an index of buckets\<close>

text \<open>
  What the miner relies on: a path index whose paths have one length, that grows a fresh bucket
  at an absent path, and in which writing a bucket changes that path only.
\<close>

locale bucket_index =
  fixes wf_index :: "nat \<Rightarrow> 't \<Rightarrow> bool"
    and empty_index :: 't
    and lookup :: "'t \<Rightarrow> 'k list \<Rightarrow> 'b option"
    and grow :: "'t \<Rightarrow> 'k list \<Rightarrow> nat \<Rightarrow> 't option"
    and put :: "'t \<Rightarrow> 'k list \<Rightarrow> 'b \<Rightarrow> 't"
    and fresh :: "nat \<Rightarrow> 'b"
  assumes wf_empty: "wf_index n empty_index"
    and lookup_empty: "lookup empty_index ks = None"
    and lookup_length: "wf_index n t \<Longrightarrow> lookup t ks = Some b \<Longrightarrow> length ks = n"
    and grow_ok: "wf_index n t \<Longrightarrow> length ks = n \<Longrightarrow>
      \<exists>t'. grow t ks c = Some t' \<and> wf_index n t' \<and>
        lookup t' ks = Some (case lookup t ks of None \<Rightarrow> fresh c | Some b \<Rightarrow> b) \<and>
        (\<forall>ks'. ks' \<noteq> ks \<longrightarrow> lookup t' ks' = lookup t ks')"
    and write_ok: "wf_index n t \<Longrightarrow> lookup t ks = Some b0 \<Longrightarrow>
      wf_index n (put t ks b) \<and> lookup (put t ks b) = (lookup t)(ks := Some b)"
begin

text \<open>Growing the path and then writing the bucket there is a map update, and never panics.\<close>

lemma grow_write:
  assumes "wf_index n t" "length ks = n"
  obtains t' b0 where "grow t ks c = Some t'" "lookup t' ks = Some b0"
    "b0 = (case lookup t ks of None \<Rightarrow> fresh c | Some b \<Rightarrow> b)"
    "wf_index n t'" "\<And>b. wf_index n (put t' ks b)"
    "\<And>b. lookup (put t' ks b) = (lookup t)(ks := Some b)"
proof -
  from grow_ok [OF assms, of c] obtain t' where t':
    "grow t ks c = Some t'" "wf_index n t'"
    "lookup t' ks = Some (case lookup t ks of None \<Rightarrow> fresh c | Some b \<Rightarrow> b)"
    "\<And>ks'. ks' \<noteq> ks \<Longrightarrow> lookup t' ks' = lookup t ks'"
    by blast
  have "lookup (put t' ks b) = (lookup t)(ks := Some b)" for b
    using write_ok [OF t'(2,3), of b] t'(4) by auto
  with that t' write_ok [OF t'(2,3)] show ?thesis by blast
qed

lemma grow_total: "wf_index n t \<Longrightarrow> length ks = n \<Longrightarrow> grow t ks c \<noteq> None"
  using grow_ok [of n t ks c] by auto

end

interpretation tree_index: bucket_index has_depth new_internal descend descend_or_create
  write_leaf leaf_new
proof (unfold_locales, goal_cases)
  case (1 n)
  show ?case by simp
next
  case (2 ks)
  show ?case by simp
next
  case (3 n t ks b)
  then show ?case by (rule descend_depth)
next
  case (4 n t ks c)
  then show ?case by (rule descend_or_create_ok)
next
  case (5 n t ks b0 b)
  then show ?case by (rule write_leaf_ok)
qed

section \<open>Properties\<close>

text \<open>
  The tree is an index of buckets by key path.  In a tree whose leaves are at depth
  \<open>n\<close>, descending with creation along \<open>n\<close> keys never reaches the
  \<^verbatim>\<open>unreachable!\<close> panic, yields the bucket that was there (or a fresh empty one with the
  given capacity), leaves every other path as it was and keeps the leaves at depth
  \<open>n\<close>; a write through the returned reference changes that bucket only.
\<close>

theorem descend_or_create_spec:
  assumes "has_depth n node" "length ks = n"
  shows "\<exists>node'. descend_or_create node ks c = Some node' \<and> has_depth n node' \<and>
    descend node' = (descend node)(ks :=
      Some (case descend node ks of None \<Rightarrow> leaf_new c | Some b \<Rightarrow> b)) \<and>
    (\<forall>b. has_depth n (write_leaf node' ks b) \<and>
      descend (write_leaf node' ks b) = (descend node)(ks := Some b))"
proof -
  obtain node' b0 where node': "descend_or_create node ks c = Some node'"
    "descend node' ks = Some b0" "b0 = (case descend node ks of None \<Rightarrow> leaf_new c | Some b \<Rightarrow> b)"
    "has_depth n node'" "\<And>b. has_depth n (write_leaf node' ks b)"
    "\<And>b. descend (write_leaf node' ks b) = (descend node)(ks := Some b)"
    by (rule tree_index.grow_write [OF assms]) blast
  have "descend node' = (descend node)(ks := Some b0)"
    using tree_index.grow_ok [OF assms, of c] node'(1,2) by auto
  with node' show ?thesis by metis
qed

theorem descend_or_create_spec_witness:
  "has_depth 2 new_internal \<and> length [str ''GET'', str ''/api''] = 2 \<and>
   (\<exists>node'. descend_or_create new_internal [str ''GET'', str ''/api''] 100 = Some node' \<and>
     descend node' [str ''GET'', str ''/api''] = Some (leaf_new 100))"
proof -
  have h: "has_depth 2 new_internal" "length [str ''GET'', str ''/api''] = 2" by simp_all
  show ?thesis
    using h descend_or_create_spec [OF h, of 100] by (metis descend_new_internal fun_upd_same option.simps(4))
qed

text \<open>
  Removing a member from a bucket removes that id and nothing else, whatever its position,
  and shrinks a bucket that held it by one.
\<close>

theorem leaf_remove_spec:
  assumes "distinct (ids b)"
  shows "distinct (ids (leaf_remove b x)) \<and> set (ids (leaf_remove b x)) = set (ids b) - {x} \<and>
    length (ids (leaf_remove b x)) = length (ids b) - (if x \<in> set (ids b) then 1 else 0) \<and>
    cap (leaf_remove b x) = cap b"
  using leaf_remove_ids [OF assms, of x] leaf_remove_length [of x b] leaf_remove_absent [of x b]
  by auto

theorem leaf_remove_spec_witness:
  "distinct (ids \<lparr>cap = 3, ids = [10, 20, 30]\<rparr>) \<and>
   set (ids (leaf_remove \<lparr>cap = 3, ids = [10, 20, 30]\<rparr> 10)) = {20, 30}"
  using leaf_remove_spec [of "\<lparr>cap = 3, ids = [10, 20, 30]\<rparr>" 10] by auto

end
