(* ===== verification/Tokenize.thy ===== *)
theory Tokenize
  imports Prelude
begin

text \<open>
  Model of \<^verbatim>\<open>crates/logdrain/src/tokenize.rs\<close>: whitespace splitting, path
  splitting with the delimiters recorded on the tokens, first-line splitting and the numeric
  test.  \<^verbatim>\<open>Token\<close> and \<^verbatim>\<open>OwnedToken\<close> have the same three
  fields and the conversion copies them, so both are the record \<open>token\<close>.
\<close>

section \<open>Data\<close>

record token =
  tok_text :: rstr
  leading_delim :: "rchar option"
  trailing_delim :: "rchar option"

definition plain_token :: "rstr \<Rightarrow> token" where
  "plain_token s = \<lparr>tok_text = s, leading_delim = None, trailing_delim = None\<rparr>"

lemma plain_token_sel [simp]:
  "tok_text (plain_token s) = s" "leading_delim (plain_token s) = None"
  "trailing_delim (plain_token s) = None"
  by (simp_all add: plain_token_def)

definition owned_token :: "token \<Rightarrow> token" where
  "owned_token t = \<lparr>tok_text = tok_text t, leading_delim = leading_delim t,
     trailing_delim = trailing_delim t\<rparr>"

lemma owned_token_id [simp]: "owned_token t = t"
  by (simp add: owned_token_def)

lemma map_owned_token [simp]: "map owned_token ts = ts"
  by (simp add: map_idI)

section \<open>String splitting of the standard library\<close>

text \<open>\<^verbatim>\<open>char::is_whitespace\<close>: the Unicode property White\_Space.\<close>

definition is_whitespace :: "rchar \<Rightarrow> bool" where
  "is_whitespace c \<longleftrightarrow> 9 \<le> c \<and> c \<le> 13 \<or> c = 32 \<or> c = 133 \<or> c = 160 \<or> c = 5760 \<or>
     8192 \<le> c \<and> c \<le> 8202 \<or> c = 8232 \<or> c = 8233 \<or> c = 8239 \<or> c = 8287 \<or> c = 12288"

text \<open>\<^verbatim>\<open>str::split\<close> with a char predicate: the pieces between the matches,
  empty ones included.\<close>

fun split_on :: "(rchar \<Rightarrow> bool) \<Rightarrow> rstr \<Rightarrow> rstr list" where
  "split_on P [] = [[]]"
| "split_on P (c # cs) =
     (if P c then [] # split_on P cs
      else (case split_on P cs of [] \<Rightarrow> [[c]] | p # ps \<Rightarrow> (c # p) # ps))"

definition split_whitespace :: "rstr \<Rightarrow> rstr list" where
  "split_whitespace s = filter (\<lambda>p. p \<noteq> []) (split_on is_whitespace s)"

section \<open>The tokenizer\<close>

text \<open>
  The loop of \<^verbatim>\<open>push_path_tokens\<close>: \<open>seg\<close> is the slice
  \<^verbatim>\<open>piece[seg_start..i]\<close> read so far, \<open>cur_leading\<close> the delimiter before it.
\<close>

fun path_loop :: "rchar list \<Rightarrow> rstr \<Rightarrow> rchar option \<Rightarrow> rstr \<Rightarrow> token list \<Rightarrow> token list" where
  "path_loop delims [] cur_leading seg out =
     (if seg \<noteq> [] then
        out @ [\<lparr>tok_text = seg, leading_delim = cur_leading, trailing_delim = None\<rparr>]
      else out)"
| "path_loop delims (ch # rest) cur_leading seg out =
     (if ch \<in> set delims then
        path_loop delims rest (Some ch) []
          (if seg \<noteq> [] then
             out @ [\<lparr>tok_text = seg, leading_delim = cur_leading, trailing_delim = Some ch\<rparr>]
           else out)
      else path_loop delims rest cur_leading (seg @ [ch]) out)"

definition push_path_tokens :: "rstr \<Rightarrow> rchar list \<Rightarrow> token list \<Rightarrow> token list" where
  "push_path_tokens piece delims out =
     (let len_before = length out;
          out' = path_loop delims piece None [] out
      in if length out' = len_before \<and> piece \<noteq> [] then out' @ [plain_token piece] else out')"

definition tokenize_with :: "rstr \<Rightarrow> rchar list \<Rightarrow> token list" where
  "tokenize_with line delims =
     fold (\<lambda>piece out. push_path_tokens piece delims out) (split_whitespace line) []"

text \<open>\<^verbatim>\<open>split_first_line\<close>; 10 is the newline.\<close>

fun split_first_line :: "rstr \<Rightarrow> rstr \<times> rstr option" where
  "split_first_line [] = ([], None)"
| "split_first_line (c # cs) =
     (if c = 10 then ([], Some cs)
      else (case split_first_line cs of (first, suffix) \<Rightarrow> (c # first, suffix)))"

definition is_ascii_digit :: "rchar \<Rightarrow> bool" where
  "is_ascii_digit b \<longleftrightarrow> 48 \<le> b \<and> b \<le> 57"

text \<open>The bytes of a non-ASCII char are at least 128, so testing bytes is testing chars.\<close>

definition is_numeric_token :: "rstr \<Rightarrow> bool" where
  "is_numeric_token s \<longleftrightarrow> s \<noteq> [] \<and> list_all is_ascii_digit s"

section \<open>Facts about the splitting\<close>

lemma split_on_not_Nil [simp]: "split_on P s \<noteq> []"
  by (cases s) (auto split: list.splits)

lemma split_on_pieces: "p \<in> set (split_on P s) \<Longrightarrow> c \<in> set p \<Longrightarrow> c \<in> set s \<and> \<not> P c"
proof (induction P s arbitrary: p rule: split_on.induct)
  case (2 P a cs)
  then show ?case
    by (cases "split_on P cs") (fastforce split: if_splits)+
qed auto

lemma concat_split_on: "concat (split_on P s) = filter (\<lambda>c. \<not> P c) s"
  by (induction P s rule: split_on.induct) (auto split: list.splits)

lemma split_whitespace_pieces:
  "p \<in> set (split_whitespace s) \<Longrightarrow> p \<noteq> [] \<and> (\<forall>c \<in> set p. \<not> is_whitespace c)"
  by (auto simp: split_whitespace_def dest: split_on_pieces)

lemma concat_filter_ne: "concat (filter (\<lambda>p. p \<noteq> []) ps) = concat ps"
  by (induction ps) auto

lemma concat_split_whitespace:
  "concat (split_whitespace s) = filter (\<lambda>c. \<not> is_whitespace c) s"
  by (simp add: split_whitespace_def concat_filter_ne concat_split_on)

section \<open>Facts about the path splitting\<close>

lemma path_loop_out: "path_loop delims cs l seg out = out @ path_loop delims cs l seg []"
proof (induction cs arbitrary: l seg out)
  case Nil
  then show ?case by simp
next
  case (Cons c cs)
  show ?case
    by (simp only: path_loop.simps Cons [of "Some c" "[]" "if _ then _ else _"]
        Cons [of _ "seg @ [c]" out]) (simp add: Cons [of _ _ "[_]"])
qed

definition path_tokens :: "rchar list \<Rightarrow> rstr \<Rightarrow> token list" where
  "path_tokens delims piece = push_path_tokens piece delims []"

lemma push_path_tokens_append:
  "push_path_tokens piece delims out = out @ path_tokens delims piece"
  using path_loop_out [of delims piece None "[]" out]
  by (simp add: push_path_tokens_def path_tokens_def Let_def)

lemma fold_push_append:
  "fold (\<lambda>piece out. push_path_tokens piece delims out) ps out =
     out @ concat (map (path_tokens delims) ps)"
  by (induction ps arbitrary: out) (simp_all add: push_path_tokens_append)

lemma tokenize_with_concat:
  "tokenize_with line delims = concat (map (path_tokens delims) (split_whitespace line))"
  by (simp add: tokenize_with_def fold_push_append)

lemma path_loop_Nil_iff:
  "path_loop delims cs l seg [] = [] \<longleftrightarrow> seg = [] \<and> set cs \<subseteq> set delims"
  by (induction cs arbitrary: l seg) (auto simp: path_loop_out [of _ _ _ _ "[_]"])

lemma path_tokens_eq:
  "path_tokens delims piece =
     (if piece \<noteq> [] \<and> set piece \<subseteq> set delims then [plain_token piece]
      else path_loop delims piece None [] [])"
  using path_loop_Nil_iff [of delims piece None "[]"]
  by (auto simp: path_tokens_def push_path_tokens_def Let_def)

lemma path_tokens_Nil_iff [simp]: "path_tokens delims piece = [] \<longleftrightarrow> piece = []"
  by (auto simp: path_tokens_eq path_loop_Nil_iff)

lemma path_loop_texts:
  assumes "set seg \<inter> set delims = {}"
  shows "\<forall>t \<in> set (path_loop delims cs l seg []).
      tok_text t \<noteq> [] \<and> set (tok_text t) \<subseteq> set seg \<union> set cs \<and> set (tok_text t) \<inter> set delims = {}"
  using assms
proof (induction cs arbitrary: l seg)
  case Nil
  then show ?case by auto
next
  case (Cons c cs)
  from Cons.prems Cons.IH [of "[]" "Some c"] Cons.IH [of "seg @ [c]" l] show ?case
    by (auto simp: path_loop_out [of _ _ _ _ "[_]"])
qed

lemma path_loop_concat:
  "concat (map tok_text (path_loop delims cs l seg [])) = seg @ filter (\<lambda>c. c \<notin> set delims) cs"
  by (induction cs arbitrary: l seg) (auto simp: path_loop_out [of _ _ _ _ "[_]"])

text \<open>The delimiters recorded on a token are delimiters of the piece.\<close>

lemma path_loop_flags:
  assumes "set_option l \<subseteq> set delims"
  shows "\<forall>t \<in> set (path_loop delims cs l seg []).
      set_option (leading_delim t) \<subseteq> set delims \<and> set_option (trailing_delim t) \<subseteq> set delims"
  using assms
proof (induction cs arbitrary: l seg)
  case Nil
  then show ?case by auto
next
  case (Cons c cs)
  from Cons.prems Cons.IH [of "Some c" "[]"] Cons.IH [of l "seg @ [c]"] show ?case
    by (auto simp: path_loop_out [of _ _ _ _ "[_]"])
qed

text \<open>
  A token as the tokenizer makes it: non-empty, free of whitespace, and either free of
  delimiters or a piece of delimiters only, which carries no flag.
\<close>

definition token_ok :: "rchar list \<Rightarrow> token \<Rightarrow> bool" where
  "token_ok delims t \<longleftrightarrow>
     tok_text t \<noteq> [] \<and> list_all (\<lambda>c. \<not> is_whitespace c) (tok_text t) \<and>
     (list_all (\<lambda>c. c \<notin> set delims) (tok_text t) \<or>
      list_all (\<lambda>c. c \<in> set delims) (tok_text t) \<and> t = plain_token (tok_text t)) \<and>
     set_option (leading_delim t) \<subseteq> set delims \<and> set_option (trailing_delim t) \<subseteq> set delims"

lemma path_tokens_ok:
  assumes "\<forall>c \<in> set piece. \<not> is_whitespace c"
  shows "list_all (token_ok delims) (path_tokens delims piece)"
proof (cases "piece \<noteq> [] \<and> set piece \<subseteq> set delims")
  case True
  with assms show ?thesis
    by (auto simp: path_tokens_eq token_ok_def list_all_iff)
next
  case False
  have "token_ok delims t" if t: "t \<in> set (path_loop delims piece None [] [])" for t
  proof -
    from path_loop_texts [of "[]" delims piece None] t
    have "tok_text t \<noteq> []" "set (tok_text t) \<subseteq> set piece" "set (tok_text t) \<inter> set delims = {}"
      by auto
    moreover from path_loop_flags [of None delims piece "[]"] t
    have "set_option (leading_delim t) \<subseteq> set delims" "set_option (trailing_delim t) \<subseteq> set delims"
      by auto
    ultimately show ?thesis
      using assms by (auto simp: token_ok_def list_all_iff)
  qed
  with False show ?thesis
    by (auto simp: path_tokens_eq list_all_iff)
qed

lemma path_tokens_concat:
  "concat (map tok_text (path_tokens delims piece)) =
     (if set piece \<subseteq> set delims then piece else filter (\<lambda>c. c \<notin> set delims) piece)"
  by (auto simp: path_tokens_eq path_loop_concat)

lemma tokenize_with_no_delims:
  "tokenize_with line [] = map plain_token (split_whitespace line)"
proof -
  have loop: "path_loop [] cs None seg [] = (if seg @ cs = [] then [] else [plain_token (seg @ cs)])"
    for cs seg
    by (induction cs arbitrary: seg) (auto simp: plain_token_def)
  have "p \<noteq> [] \<Longrightarrow> path_tokens [] p = [plain_token p]" for p
    by (simp add: path_tokens_eq loop)
  then have "map (path_tokens []) (split_whitespace line) = map (\<lambda>p. [plain_token p]) (split_whitespace line)"
    using split_whitespace_pieces by auto
  then show ?thesis
    by (simp only: tokenize_with_concat concat_map_singleton)
qed

lemma tokenize_well_formed_ok: "list_all (token_ok delims) (tokenize_with line delims)"
proof -
  have "list_all (token_ok delims) (path_tokens delims p)" if "p \<in> set (split_whitespace line)" for p
    using path_tokens_ok [of p delims] split_whitespace_pieces [OF that] by blast
  then show ?thesis
    by (auto simp: tokenize_with_concat list_all_iff)
qed

section \<open>Properties\<close>

text \<open>
  C34.  Every token the tokenizer makes is non-empty, holds no whitespace, holds no path
  delimiter unless it is a lone run of delimiters kept verbatim with no flag, and is flagged
  with path delimiters of the configured set only.
\<close>

theorem tokenize_well_formed: "list_all (token_ok delims) (tokenize_with line delims)"
  by (rule tokenize_well_formed_ok)

text \<open>
  No input is dropped silently: the token texts carry, in order, exactly the characters
  of the line that are neither whitespace nor path delimiters, and a line with anything but
  whitespace in it yields a token.
\<close>

theorem tokenize_keeps_text:
  "filter (\<lambda>c. c \<notin> set delims) (concat (map tok_text (tokenize_with line delims))) =
     filter (\<lambda>c. \<not> is_whitespace c \<and> c \<notin> set delims) line \<and>
   (tokenize_with line delims = [] \<longleftrightarrow> filter (\<lambda>c. \<not> is_whitespace c) line = [])"
proof -
  have piece: "filter (\<lambda>c. c \<notin> set delims) (concat (map tok_text (path_tokens delims p))) =
      filter (\<lambda>c. c \<notin> set delims) p" for p
    by (simp add: path_tokens_concat)
  have pieces: "filter (\<lambda>c. c \<notin> set delims)
       (concat (map tok_text (concat (map (path_tokens delims) ps)))) =
      filter (\<lambda>c. c \<notin> set delims) (concat ps)" for ps
    by (induction ps) (simp_all add: piece)
  have ne: "[] \<notin> set (split_whitespace line)"
    using split_whitespace_pieces by blast
  then have "tokenize_with line delims = [] \<longleftrightarrow> split_whitespace line = []"
    by (cases "split_whitespace line") (auto simp: tokenize_with_concat)
  also have "\<dots> \<longleftrightarrow> concat (split_whitespace line) = []"
    using ne by (cases "split_whitespace line") auto
  finally show ?thesis
    by (simp only: pieces tokenize_with_concat concat_split_whitespace filter_filter conj_commute
        simp_thms)
qed

text \<open>
  First-line splitting loses nothing and cuts at the first newline: the first line holds
  no newline, and the line is the first line, a newline and the suffix.
\<close>

theorem split_first_line_spec:
  "case split_first_line line of (first, suffix) \<Rightarrow>
     10 \<notin> set first \<and>
     line = first @ (case suffix of None \<Rightarrow> [] | Some rest \<Rightarrow> 10 # rest)"
  by (induction line) (auto split: prod.splits option.splits)

end
