(* ===== verification/Template.thy ===== *)
theory Template
  imports Tokenize
begin

text \<open>
  The abstract specification of a template: a list of slots, each a literal text or the
  wildcard.  A slot is below another when it matches fewer texts, and the join of two slots
  is the least slot above both; generalizing a template is the pointwise join
  (\<open>generalize_join\<close> in theory \<open>Cluster\<close>), so the order and the repetition of
  the lines that shaped a template do not matter.
\<close>

datatype slot = Lit rstr | Wild

instantiation slot :: "{semilattice_sup, order_top}"
begin

definition less_eq_slot :: "slot \<Rightarrow> slot \<Rightarrow> bool" where
  "less_eq_slot s t \<longleftrightarrow> t = Wild \<or> s = t"

definition less_slot :: "slot \<Rightarrow> slot \<Rightarrow> bool" where
  "less_slot s t \<longleftrightarrow> t = Wild \<and> s \<noteq> Wild"

definition sup_slot :: "slot \<Rightarrow> slot \<Rightarrow> slot" where
  "sup_slot s t = (if s = t then s else Wild)"

definition top_slot :: slot where
  "top_slot = Wild"

instance
  by standard (auto simp: less_eq_slot_def less_slot_def sup_slot_def top_slot_def)

end

lemma sup_slot_simps [simp]:
  "sup (Lit a) (Lit b) = (if a = b then Lit a else Wild)"
  "sup Wild s = Wild" "sup s Wild = Wild"
  by (auto simp: sup_slot_def)

lemma slot_le_simps [simp]: "Lit a \<le> Lit b \<longleftrightarrow> a = b" "s \<le> Wild" "Wild \<le> s \<longleftrightarrow> s = Wild"
  by (auto simp: less_eq_slot_def)

type_synonym template = "slot list"

definition slot_of :: "rstr \<Rightarrow> rstr \<Rightarrow> slot" where
  "slot_of w s = (if s = w then Wild else Lit s)"

definition template_of :: "rstr \<Rightarrow> token list \<Rightarrow> template" where
  "template_of w ts = map (slot_of w \<circ> tok_text) ts"

definition join :: "template \<Rightarrow> template \<Rightarrow> template" where
  "join = map2 sup"

definition template_le :: "template \<Rightarrow> template \<Rightarrow> bool" where
  "template_le = list_all2 (\<le>)"

lemma slot_of_inject [simp]: "slot_of w a = slot_of w b \<longleftrightarrow> a = b"
  by (auto simp: slot_of_def)

lemma slot_of_Wild [simp]: "slot_of w a = Wild \<longleftrightarrow> a = w"
  by (simp add: slot_of_def)

lemma slot_of_le: "slot_of w a \<le> slot_of w b \<longleftrightarrow> b = w \<or> b = a"
  by (auto simp: slot_of_def)

lemma length_template_of [simp]: "length (template_of w ts) = length ts"
  by (simp add: template_of_def)

lemma length_join [simp]: "length (join a b) = min (length a) (length b)"
  by (simp add: join_def)

lemma join_nth: "i < length a \<Longrightarrow> i < length b \<Longrightarrow> join a b ! i = sup (a ! i) (b ! i)"
  by (simp add: join_def)

lemma join_commute: "join a b = join b a"
  by (rule nth_equalityI) (auto simp: join_nth sup.commute)

lemma join_assoc: "join (join a b) c = join a (join b c)"
  by (rule nth_equalityI) (auto simp: join_nth sup.assoc)

lemma join_idem [simp]: "join a a = a"
  by (rule nth_equalityI) (auto simp: join_nth)

lemma template_le_refl [simp]: "template_le a a"
  by (simp add: template_le_def list.rel_refl)

lemma template_le_trans: "template_le a b \<Longrightarrow> template_le b c \<Longrightarrow> template_le a c"
  by (auto simp: template_le_def list_all2_conv_all_nth) (metis order_trans)

lemma join_upper: "length a = length b \<Longrightarrow> template_le a (join a b) \<and> template_le b (join a b)"
  by (auto simp: template_le_def list_all2_conv_all_nth join_nth)

lemma template_le_join_left: "length (join a b) = length a \<Longrightarrow> template_le a (join a b)"
  by (auto simp: template_le_def list_all2_conv_all_nth join_nth)

lemma join_least:
  "template_le a c \<Longrightarrow> template_le b c \<Longrightarrow> template_le (join a b) c"
  by (auto simp: template_le_def list_all2_conv_all_nth join_nth)

lemma join_eq_left_iff:
  assumes "length a = length b"
  shows "join a b = a \<longleftrightarrow> template_le b a"
proof
  assume "join a b = a"
  with join_upper [OF assms] show "template_le b a" by simp
next
  assume "template_le b a"
  then show "join a b = a"
    using assms by (intro nth_equalityI)
      (auto simp: template_le_def list_all2_conv_all_nth join_nth sup.absorb1)
qed

text \<open>Joining a list of templates into one: the result does not depend on their order.\<close>

definition join_all :: "template list \<Rightarrow> template \<Rightarrow> template" where
  "join_all = fold (\<lambda>b a. join a b)"

lemma join_all_Nil [simp]: "join_all [] a = a"
  by (simp add: join_all_def)

lemma join_all_Cons [simp]: "join_all (b # bs) a = join_all bs (join a b)"
  by (simp add: join_all_def)

lemma join_all_snoc: "join_all (bs @ [b]) a = join (join_all bs a) b"
  by (simp add: join_all_def)

lemma join_all_upper:
  "length (join_all bs a) = length a \<Longrightarrow> template_le a (join_all bs a)"
proof (induction bs arbitrary: a)
  case (Cons b bs)
  have shorter: "length (join_all bs c) \<le> length c" for c
  proof (induction bs arbitrary: c)
    case (Cons d ds)
    from Cons [of "join c d"] show ?case by simp
  qed simp
  have l: "length (join a b) = length a"
    using Cons.prems shorter [of "join a b"] by simp
  have "template_le (join a b) (join_all bs (join a b))"
    using Cons.prems l by (intro Cons.IH) simp
  with template_le_join_left [OF l] show ?case
    by (auto intro: template_le_trans)
qed simp

lemma join_all_perm:
  assumes "mset bs = mset cs"
  shows "join_all bs a = join_all cs a"
proof -
  have "fold (\<lambda>b a. join a b) bs = fold (\<lambda>b a. join a b) cs"
    using assms
  proof (rule fold_multiset_equiv [rotated])
    fix x y
    show "(\<lambda>a. join a x) \<circ> (\<lambda>a. join a y) = (\<lambda>a. join a y) \<circ> (\<lambda>a. join a x)"
      by (rule ext) (metis comp_apply join_assoc join_commute)
  qed
  then show ?thesis by (simp add: join_all_def)
qed

end
