(* ===== verification/Similarity.thy ===== *)
theory Similarity
  imports Tokenize Float64
begin

text \<open>
  Model of \<^verbatim>\<open>crates/logdrain/src/similarity.rs\<close>: the fraction of positions of a
  token vector that a template matches, as a binary64 value.
\<close>

fun count_matches :: "token list \<Rightarrow> token list \<Rightarrow> rstr \<Rightarrow> nat" where
  "count_matches (t # ts) (tok # toks) wildcard =
     (if tok_text t = wildcard \<or> tok_text t = tok_text tok then 1 else 0) +
     count_matches ts toks wildcard"
| "count_matches _ _ wildcard = 0"

definition similarity :: "token list \<Rightarrow> token list \<Rightarrow> rstr \<Rightarrow> f64" where
  "similarity template tokens wildcard =
     (if length template \<noteq> length tokens then Fin 0
      else if template = [] then Fin 1
      else f64_div (f64_of_nat (count_matches template tokens wildcard))
             (f64_of_nat (length template)))"

text \<open>Whether a template matches a token vector at every position.\<close>

definition matches_all :: "token list \<Rightarrow> token list \<Rightarrow> rstr \<Rightarrow> bool" where
  "matches_all template tokens wildcard \<longleftrightarrow>
     list_all2 (\<lambda>t tok. tok_text t = wildcard \<or> tok_text t = tok_text tok) template tokens"

lemma count_matches_le: "count_matches ts toks w \<le> length ts"
  by (induction ts toks w rule: count_matches.induct) auto

lemma count_matches_full:
  "length ts = length toks \<Longrightarrow>
     count_matches ts toks w = length ts \<longleftrightarrow> matches_all ts toks w"
proof (induction ts toks w rule: count_matches.induct)
  case (1 t ts tok toks w)
  then show ?case
    using count_matches_le [of ts toks w] by (auto simp: matches_all_def)
qed (auto simp: matches_all_def)

text \<open>Also the equation it is evaluated by.\<close>

lemma similarity_Fin [code]:
  "similarity ts toks w =
     Fin (if length ts \<noteq> length toks then 0 else if ts = [] then 1
          else ratio (count_matches ts toks w) (length ts))"
  using f64_div_of_nat [of "length ts" "count_matches ts toks w"] by (auto simp: similarity_def)

text \<open>The score as a number; \<open>similarity\<close> is always finite.\<close>

definition score :: "token list \<Rightarrow> token list \<Rightarrow> rstr \<Rightarrow> rat" where
  "score ts toks w = (if length ts \<noteq> length toks then 0 else if ts = [] then 1
     else ratio (count_matches ts toks w) (length ts))"

lemma similarity_score: "similarity ts toks w = Fin (score ts toks w)"
  by (simp add: similarity_Fin score_def)

lemma score_range: "0 \<le> score ts toks w \<and> score ts toks w \<le> 1"
  using ratio_range [of "count_matches ts toks w" "length ts"] count_matches_le [of ts toks w]
  by (auto simp: score_def)

lemma score_full: "matches_all ts toks w \<Longrightarrow> score ts toks w = 1"
  using count_matches_full [of ts toks w] ratio_self [of "length ts"]
  by (auto simp: score_def matches_all_def dest: list_all2_lengthD simp del: ratio_self)

lemma matches_all_refl: "matches_all toks toks w"
  by (auto simp: matches_all_def list_all2_conv_all_nth)

text \<open>A template that matches more positions scores at least as high.\<close>

lemma score_mono:
  assumes "length ts = length us" "count_matches ts toks w \<le> count_matches us toks w"
  shows "score ts toks w \<le> score us toks w"
  using assms ratio_mono [OF assms(2)] by (auto simp: score_def)

section \<open>Properties\<close>

text \<open>
  The similarity is a number between zero and one; it is one when every position of the
  template is the wildcard or equals the token there, and, for vectors of fewer than
  \<open>2\<close> to the 53 tokens, only then: rounding never turns a near match into a full one.
\<close>

theorem similarity_range:
  assumes "length tokens < 2 ^ 53"
  shows "f64_le (Fin 0) (similarity template tokens wildcard) \<and>
    f64_le (similarity template tokens wildcard) (Fin 1) \<and>
    (similarity template tokens wildcard = Fin 1 \<longleftrightarrow> matches_all template tokens wildcard)"
proof -
  have "matches_all template tokens wildcard" if s: "score template tokens wildcard = 1"
  proof (rule ccontr)
    assume no: "\<not> matches_all template tokens wildcard"
    from s have l: "length template = length tokens"
      by (simp add: score_def split: if_splits)
    from no have "count_matches template tokens wildcard < length template"
      using count_matches_full [OF l, of wildcard] count_matches_le [of template tokens wildcard]
      by simp
    moreover from no l have "template \<noteq> []"
      by (auto simp: matches_all_def)
    ultimately show False
      using ratio_less_1 [of "count_matches template tokens wildcard" "length template"] assms l s
      by (simp add: score_def)
  qed
  then show ?thesis
    using score_range [of template tokens wildcard] score_full [of template tokens wildcard]
    by (auto simp: similarity_score)
qed

theorem similarity_range_witness:
  "length [plain_token (str ''user''), plain_token (str ''42'')] < 2 ^ 53 \<and>
   similarity [plain_token (str ''user''), plain_token (str ''<*>'')]
     [plain_token (str ''user''), plain_token (str ''42'')] (str ''<*>'') = Fin 1"
  using similarity_range [of "[plain_token (str ''user''), plain_token (str ''42'')]"
      "[plain_token (str ''user''), plain_token (str ''<*>'')]" "str ''<*>''"]
  by (simp add: matches_all_def)

end
