(* ===== verification/Cluster.thy ===== *)
theory Cluster
  imports Template Similarity
begin

text \<open>
  Model of \<^verbatim>\<open>crates/logdrain/src/cluster.rs\<close>: the mutable cluster body, its
  operations and the public snapshot.  Atomics are plain words here; the interleaving of their
  updates is the subject of the miner's theories.  A \<^verbatim>\<open>SystemTime\<close> is the integer
  number of nanoseconds since the Unix epoch, and the clock reading of an operation is an
  argument.
\<close>

section \<open>Time\<close>

type_synonym systime = int

text \<open>\<^verbatim>\<open>as_millis() as u64\<close> keeps the low 64 bits.\<close>

definition unix_ms :: "systime \<Rightarrow> u64" where
  "unix_ms t = (if t < 0 then 0 else word_of_int (t div 1000000))"

definition time_from_ms :: "u64 \<Rightarrow> systime" where
  "time_from_ms ms = uint ms * 1000000"

lemma unix_ms_time_from_ms [simp]: "unix_ms (time_from_ms ms) = ms"
  by (simp add: unix_ms_def time_from_ms_def)

section \<open>The cluster body\<close>

record cluster_inner =
  body_id :: u64
  tokens :: "token list"
  hits :: u64
  created_at :: systime
  updated_at_ms :: u64
  last_used :: u64
  event_first_ms :: u64
  event_last_ms :: u64
  body_suffix :: "rstr option"
  members :: "rstr list"

definition EVENT_UNSET :: u64 where
  "EVENT_UNSET = - 1"

definition cluster_new ::
    "u64 \<Rightarrow> token list \<Rightarrow> systime \<Rightarrow> rstr option \<Rightarrow> u64 option \<Rightarrow> cluster_inner" where
  "cluster_new i toks now sfx event_ms =
     (let (event_first, event_last) =
        (case event_ms of Some ms \<Rightarrow> (ms, ms) | None \<Rightarrow> (EVENT_UNSET, 0))
      in \<lparr>body_id = i, tokens = toks, hits = 1, created_at = now, updated_at_ms = unix_ms now,
          last_used = 0, event_first_ms = event_first, event_last_ms = event_last,
          body_suffix = sfx, members = []\<rparr>)"

definition touch :: "u64 \<Rightarrow> systime \<Rightarrow> cluster_inner \<Rightarrow> cluster_inner" where
  "touch tick now b = b\<lparr>hits := hits b + 1, updated_at_ms := unix_ms now, last_used := tick\<rparr>"

definition observe_event :: "u64 \<Rightarrow> cluster_inner \<Rightarrow> cluster_inner" where
  "observe_event ms b =
     b\<lparr>event_first_ms := min (event_first_ms b) ms, event_last_ms := max (event_last_ms b) ms\<rparr>"

definition recency :: "cluster_inner \<Rightarrow> u64" where
  "recency b = last_used b"

definition would_generalize :: "cluster_inner \<Rightarrow> token list \<Rightarrow> rstr \<Rightarrow> bool" where
  "would_generalize b incoming wildcard \<longleftrightarrow>
     list_ex (\<lambda>(stored, tok). tok_text stored \<noteq> wildcard \<and> tok_text stored \<noteq> tok_text tok)
       (zip (tokens b) incoming)"

definition add_member :: "rstr \<Rightarrow> cluster_inner \<Rightarrow> cluster_inner" where
  "add_member m b =
     (if \<not> list_ex (\<lambda>x. x = m) (members b) then b\<lparr>members := members b @ [m]\<rparr> else b)"

text \<open>The loop of \<^verbatim>\<open>generalize\<close>: the new tokens and the \<open>changed\<close> flag.\<close>

fun generalize_loop :: "token list \<Rightarrow> token list \<Rightarrow> rstr \<Rightarrow> bool \<Rightarrow> token list \<times> bool" where
  "generalize_loop (stored # rest) (tok # toks) wildcard changed =
     (if tok_text stored = wildcard then
        (case generalize_loop rest toks wildcard changed of (ts, c) \<Rightarrow> (stored # ts, c))
      else if tok_text stored \<noteq> tok_text tok then
        (case generalize_loop rest toks wildcard True of
           (ts, c) \<Rightarrow> (stored\<lparr>tok_text := wildcard\<rparr> # ts, c))
      else
        (case generalize_loop rest toks wildcard changed of (ts, c) \<Rightarrow> (stored # ts, c)))"
| "generalize_loop rest toks wildcard changed = (rest, changed)"

definition generalize :: "token list \<Rightarrow> rstr \<Rightarrow> cluster_inner \<Rightarrow> cluster_inner \<times> bool" where
  "generalize incoming wildcard b =
     (case generalize_loop (tokens b) incoming wildcard False of
        (ts, changed) \<Rightarrow> (b\<lparr>tokens := ts\<rparr>, changed))"

section \<open>Rendering\<close>

text \<open>The loop of \<^verbatim>\<open>render_template\<close>; 32 is the space.\<close>

fun render_loop :: "nat \<Rightarrow> rchar option \<Rightarrow> rstr \<Rightarrow> token list \<Rightarrow> rchar option \<times> rstr" where
  "render_loop i prev_trailing s [] = (prev_trailing, s)"
| "render_loop i prev_trailing s (t # ts) =
     (let s1 = (if 0 < i then s @ [case prev_trailing of Some c \<Rightarrow> c | None \<Rightarrow> 32] else s);
          s2 = (if prev_trailing = None
                then (case leading_delim t of Some c \<Rightarrow> s1 @ [c] | None \<Rightarrow> s1) else s1)
      in render_loop (Suc i) (trailing_delim t) (s2 @ tok_text t) ts)"

definition render_template :: "token list \<Rightarrow> rstr" where
  "render_template ts =
     (case render_loop 0 None [] ts of
        (Some c, s) \<Rightarrow> s @ [c]
      | (None, s) \<Rightarrow> s)"

section \<open>The public snapshot\<close>

record cluster =
  pub_id :: u64
  template :: rstr
  pub_tokens :: "token list"
  pub_size :: u64
  pub_created_at :: systime
  pub_updated_at :: systime
  event_first :: "systime option"
  event_last :: "systime option"
  pub_suffix :: "rstr option"
  pub_members :: "rstr list"

definition to_public :: "cluster_inner \<Rightarrow> cluster" where
  "to_public b =
     (let ef = event_first_ms b;
          (lo, hi) =
            (if ef = EVENT_UNSET then (None, None)
             else (Some (time_from_ms ef), Some (time_from_ms (event_last_ms b))))
      in \<lparr>pub_id = body_id b, template = render_template (tokens b), pub_tokens = tokens b,
          pub_size = hits b, pub_created_at = created_at b,
          pub_updated_at = time_from_ms (updated_at_ms b),
          event_first = lo, event_last = hi,
          pub_suffix = body_suffix b, pub_members = members b\<rparr>)"

text \<open>
  \<^verbatim>\<open>later.duration_since(earlier).map(as_secs_f64).unwrap_or(0.0)\<close>: whole seconds
  plus the fraction, each converted and rounded.
\<close>

definition secs_between :: "systime \<Rightarrow> systime \<Rightarrow> f64" where
  "secs_between later earlier =
     (if later < earlier then Fin 0
      else let d = nat (later - earlier) in
        f64_add (f64_of_nat (d div 10 ^ 9)) (f64_div (f64_of_nat (d mod 10 ^ 9)) (f64_of_nat (10 ^ 9))))"

definition rate_over :: "u64 \<Rightarrow> f64 \<Rightarrow> f64" where
  "rate_over n secs =
     (if f64_lt secs (Fin 1) then Fin 0
      else f64_div (f64_of_nat (unat n)) (f64_div secs (Fin 60)))"

definition lines_per_minute :: "cluster \<Rightarrow> f64" where
  "lines_per_minute c = rate_over (pub_size c) (secs_between (pub_updated_at c) (pub_created_at c))"

definition event_lines_per_minute :: "cluster \<Rightarrow> f64 option" where
  "event_lines_per_minute c =
     (case event_first c of
        None \<Rightarrow> None
      | Some lo \<Rightarrow>
          (case event_last c of
             None \<Rightarrow> None
           | Some hi \<Rightarrow> Some (rate_over (pub_size c) (secs_between hi lo))))"

section \<open>Lemmas on the operations\<close>

lemma touch_sel [simp]:
  "body_id (touch t n b) = body_id b" "tokens (touch t n b) = tokens b"
  "hits (touch t n b) = hits b + 1" "created_at (touch t n b) = created_at b"
  "updated_at_ms (touch t n b) = unix_ms n" "last_used (touch t n b) = t"
  "event_first_ms (touch t n b) = event_first_ms b"
  "event_last_ms (touch t n b) = event_last_ms b"
  "body_suffix (touch t n b) = body_suffix b" "members (touch t n b) = members b"
  by (simp_all add: touch_def)

lemma observe_event_sel [simp]:
  "body_id (observe_event ms b) = body_id b" "tokens (observe_event ms b) = tokens b"
  "hits (observe_event ms b) = hits b" "created_at (observe_event ms b) = created_at b"
  "updated_at_ms (observe_event ms b) = updated_at_ms b"
  "last_used (observe_event ms b) = last_used b"
  "event_first_ms (observe_event ms b) = min (event_first_ms b) ms"
  "event_last_ms (observe_event ms b) = max (event_last_ms b) ms"
  "body_suffix (observe_event ms b) = body_suffix b" "members (observe_event ms b) = members b"
  by (simp_all add: observe_event_def)

lemma add_member_sel [simp]:
  "body_id (add_member m b) = body_id b" "tokens (add_member m b) = tokens b"
  "hits (add_member m b) = hits b" "created_at (add_member m b) = created_at b"
  "updated_at_ms (add_member m b) = updated_at_ms b" "last_used (add_member m b) = last_used b"
  "event_first_ms (add_member m b) = event_first_ms b"
  "event_last_ms (add_member m b) = event_last_ms b"
  "body_suffix (add_member m b) = body_suffix b"
  by (simp_all add: add_member_def)

lemma add_member_members:
  "set (members (add_member m b)) = insert m (set (members b))"
  "distinct (members b) \<Longrightarrow> distinct (members (add_member m b))"
  by (auto simp: add_member_def list_ex_iff)

lemma cluster_new_sel [simp]:
  "body_id (cluster_new i toks now s e) = i" "tokens (cluster_new i toks now s e) = toks"
  "hits (cluster_new i toks now s e) = 1" "created_at (cluster_new i toks now s e) = now"
  "updated_at_ms (cluster_new i toks now s e) = unix_ms now"
  "body_suffix (cluster_new i toks now s e) = s" "members (cluster_new i toks now s e) = []"
  by (simp_all add: cluster_new_def Let_def split: prod.splits)

lemma generalize_sel [simp]:
  "body_id (fst (generalize inc w b)) = body_id b" "hits (fst (generalize inc w b)) = hits b"
  "created_at (fst (generalize inc w b)) = created_at b"
  "updated_at_ms (fst (generalize inc w b)) = updated_at_ms b"
  "last_used (fst (generalize inc w b)) = last_used b"
  "event_first_ms (fst (generalize inc w b)) = event_first_ms b"
  "event_last_ms (fst (generalize inc w b)) = event_last_ms b"
  "body_suffix (fst (generalize inc w b)) = body_suffix b"
  "members (fst (generalize inc w b)) = members b"
  by (simp_all add: generalize_def split: prod.splits)

text \<open>The generalization loop, position by position.\<close>

definition generalize_token :: "rstr \<Rightarrow> token \<Rightarrow> token \<Rightarrow> token" where
  "generalize_token w stored tok =
     (if tok_text stored = w \<or> tok_text stored = tok_text tok then stored
      else stored\<lparr>tok_text := w\<rparr>)"

lemma generalize_loop_eq:
  assumes "length ts = length toks"
  shows "generalize_loop ts toks w c =
    (map2 (generalize_token w) ts toks, c \<or> \<not> matches_all ts toks w)"
  using assms
proof (induction ts toks w c rule: generalize_loop.induct)
  case (1 t ts tok toks w c)
  then show ?case
    by (auto simp: generalize_token_def matches_all_def split: prod.splits)
qed (auto simp: matches_all_def)

lemma generalize_tokens:
  "length (tokens b) = length inc \<Longrightarrow>
     tokens (fst (generalize inc w b)) = map2 (generalize_token w) (tokens b) inc"
  by (simp add: generalize_def generalize_loop_eq)

lemma generalize_changed:
  "length (tokens b) = length inc \<Longrightarrow>
     snd (generalize inc w b) \<longleftrightarrow> \<not> matches_all (tokens b) inc w"
  by (simp add: generalize_def generalize_loop_eq)

lemma would_generalize_iff:
  "length (tokens b) = length inc \<Longrightarrow>
     would_generalize b inc w \<longleftrightarrow> \<not> matches_all (tokens b) inc w"
  by (auto simp: would_generalize_def matches_all_def list_ex_iff list_all2_iff)

lemma generalize_matches: 
  assumes "length ts = length toks"
  shows "matches_all (map2 (generalize_token w) ts toks) toks w"
  using assms by (auto simp: matches_all_def list_all2_conv_all_nth generalize_token_def)

lemma generalize_noop:
  "matches_all ts toks w \<Longrightarrow> map2 (generalize_token w) ts toks = ts"
  by (rule nth_equalityI)
    (auto simp: matches_all_def list_all2_conv_all_nth generalize_token_def)

lemma generalize_template:
  "template_of w (map2 (generalize_token w) ts toks) = join (template_of w ts) (template_of w toks)"
  by (rule nth_equalityI)
    (auto simp: template_of_def join_nth generalize_token_def slot_of_def)

lemma generalize_flags:
  assumes "length ts = length toks"
  shows "map leading_delim (map2 (generalize_token w) ts toks) = map leading_delim ts"
    "map trailing_delim (map2 (generalize_token w) ts toks) = map trailing_delim ts"
  using assms by (auto intro!: nth_equalityI simp: generalize_token_def)

lemma matches_all_template:
  "matches_all ts toks w \<longleftrightarrow> template_le (template_of w toks) (template_of w ts)"
proof -
  have "template_le (template_of w toks) (template_of w ts) \<longleftrightarrow>
      list_all2 (\<lambda>tok t. slot_of w (tok_text tok) \<le> slot_of w (tok_text t)) toks ts"
    by (simp add: template_le_def template_of_def list_all2_map1 list_all2_map2)
  also have "\<dots> \<longleftrightarrow> matches_all ts toks w"
    by (auto simp: matches_all_def slot_of_le list_all2_conv_all_nth)
  finally show ?thesis by simp
qed

text \<open>Folding a list of token vectors into a template, as a run of matches does.\<close>

definition generalize_all :: "rstr \<Rightarrow> token list list \<Rightarrow> cluster_inner \<Rightarrow> cluster_inner" where
  "generalize_all w = fold (\<lambda>inc b. fst (generalize inc w b))"

lemma generalize_all_Nil [simp]: "generalize_all w [] b = b"
  by (simp add: generalize_all_def)

lemma generalize_all_Cons [simp]:
  "generalize_all w (inc # incs) b = generalize_all w incs (fst (generalize inc w b))"
  by (simp add: generalize_all_def)

lemma generalize_all_tokens:
  assumes "\<forall>inc \<in> set incs. length inc = length (tokens b)"
  shows "template_of w (tokens (generalize_all w incs b)) =
      join_all (map (template_of w) incs) (template_of w (tokens b))"
    "map leading_delim (tokens (generalize_all w incs b)) = map leading_delim (tokens b)"
    "map trailing_delim (tokens (generalize_all w incs b)) = map trailing_delim (tokens b)"
  using assms
  by (induction incs arbitrary: b)
    (simp_all add: generalize_tokens generalize_template generalize_flags del: map_map)

text \<open>A token vector is determined by its template and its flags.\<close>

lemma tokens_from_template:
  assumes "template_of w ts = template_of w us" "map leading_delim ts = map leading_delim us"
    "map trailing_delim ts = map trailing_delim us"
  shows "ts = (us :: token list)"
proof (rule nth_equalityI)
  show len: "length ts = length us"
    using assms(2) by (metis length_map)
  fix i assume i: "i < length ts"
  have "slot_of w (tok_text (ts ! i)) = slot_of w (tok_text (us ! i))"
    using arg_cong [OF assms(1), of "\<lambda>x. x ! i"] i len by (simp add: template_of_def)
  moreover have "leading_delim (ts ! i) = leading_delim (us ! i)"
    using arg_cong [OF assms(2), of "\<lambda>x. x ! i"] i len by simp
  moreover have "trailing_delim (ts ! i) = trailing_delim (us ! i)"
    using arg_cong [OF assms(3), of "\<lambda>x. x ! i"] i len by simp
  ultimately show "ts ! i = us ! i" by simp
qed

text \<open>The event window after a list of events.\<close>

definition observe_all :: "u64 list \<Rightarrow> cluster_inner \<Rightarrow> cluster_inner" where
  "observe_all = fold observe_event"

lemma observe_all_window:
  "event_first_ms (observe_all es b) = fold (\<lambda>e m. min m e) es (event_first_ms b)"
  "event_last_ms (observe_all es b) = fold (\<lambda>e m. max m e) es (event_last_ms b)"
  by (induction es arbitrary: b) (simp_all add: observe_all_def)

lemma fold_min: "fold (\<lambda>e m. min m e) es (x::'a::linorder) = Min (insert x (set es))"
proof (induction es arbitrary: x)
  case (Cons e es)
  then show ?case
    by (cases "es = []") (simp_all add: min.assoc min.left_commute min.commute insert_commute)
qed simp

lemma fold_max: "fold (\<lambda>e m. max m e) es (x::'a::linorder) = Max (insert x (set es))"
proof (induction es arbitrary: x)
  case (Cons e es)
  then show ?case
    by (cases "es = []") (simp_all add: max.assoc max.left_commute max.commute insert_commute)
qed simp

section \<open>Rendering, token by token\<close>

definition opt_list :: "'a option \<Rightarrow> 'a list" where
  "opt_list x = (case x of None \<Rightarrow> [] | Some c \<Rightarrow> [c])"

lemma opt_list_simps [simp]: "opt_list None = []" "opt_list (Some c) = [c]"
  by (simp_all add: opt_list_def)

fun render_rest :: "rchar option \<Rightarrow> token list \<Rightarrow> rstr" where
  "render_rest prev [] = opt_list prev"
| "render_rest prev (t # ts) =
     (case prev of Some c \<Rightarrow> [c] | None \<Rightarrow> 32 # opt_list (leading_delim t)) @ tok_text t @
     render_rest (trailing_delim t) ts"

definition finish :: "rchar option \<times> rstr \<Rightarrow> rstr" where
  "finish r = (case r of (Some c, s) \<Rightarrow> s @ [c] | (None, s) \<Rightarrow> s)"

lemma finish_render_loop:
  "0 < i \<Longrightarrow> finish (render_loop i prev s ts) = s @ render_rest prev ts"
proof (induction ts arbitrary: i prev s)
  case Nil
  then show ?case by (cases prev) (simp_all add: finish_def)
next
  case (Cons t ts)
  then show ?case
    by (cases prev; cases "leading_delim t") (simp_all add: Let_def)
qed

lemma render_template_Nil [simp]: "render_template [] = []"
  by (simp add: render_template_def)

lemma render_template_Cons:
  "render_template (t # ts) = opt_list (leading_delim t) @ tok_text t @ render_rest (trailing_delim t) ts"
proof -
  have "render_template (t # ts) = finish (render_loop 0 None [] (t # ts))"
    by (simp only: render_template_def finish_def)
  then show ?thesis
    by (cases "leading_delim t") (simp_all add: finish_render_loop Let_def)
qed

lemma render_rest_None: "ts \<noteq> [] \<Longrightarrow> render_rest None ts = 32 # render_template ts"
  by (cases ts) (simp_all add: render_template_Cons)

lemma render_rest_append:
  "ts \<noteq> [] \<Longrightarrow> trailing_delim (last ts) = None \<Longrightarrow>
     render_rest prev (ts @ us) = render_rest prev ts @ render_rest None us"
proof (induction ts arbitrary: prev)
  case (Cons t ts)
  then show ?case by (cases ts) simp_all
qed simp

lemma render_template_append:
  assumes "ts \<noteq> []" "trailing_delim (last ts) = None"
  shows "render_template (ts @ us) = render_template ts @ render_rest None us"
proof (cases ts)
  case (Cons t ts')
  show ?thesis
  proof (cases "ts' = []")
    case True
    with Cons assms show ?thesis by (simp add: render_template_Cons)
  next
    case False
    with Cons assms render_rest_append [of ts' "trailing_delim t" us] show ?thesis
      by (simp add: render_template_Cons)
  qed
qed (use assms in simp)

text \<open>Pieces without two adjacent delimiters render back to themselves.\<close>

fun no_adjacent :: "rchar list \<Rightarrow> rstr \<Rightarrow> bool" where
  "no_adjacent delims (a # b # cs) =
     (\<not> (a \<in> set delims \<and> b \<in> set delims) \<and> no_adjacent delims (b # cs))"
| "no_adjacent delims _ = True"

lemma no_adjacent_split: "no_adjacent delims (as @ b # cs) \<Longrightarrow> no_adjacent delims (b # cs)"
  by (induction as) (auto elim: no_adjacent.elims split: list.splits simp: neq_Nil_conv append_eq_Cons_conv)

lemma render_rest_path_loop:
  assumes "d \<in> set delims" "set seg \<inter> set delims = {}" "no_adjacent delims (d # seg @ rest)"
  shows "render_rest (Some d) (path_loop delims rest (Some d) seg []) = d # seg @ rest"
  using assms
proof (induction rest arbitrary: d seg)
  case Nil
  then show ?case by simp
next
  case (Cons c rest)
  show ?case
  proof (cases "c \<in> set delims")
    case True
    with Cons.prems have "seg \<noteq> []" by auto
    moreover have "no_adjacent delims (c # rest)"
      using no_adjacent_split [of delims "d # seg" c rest] Cons.prems(3) by simp
    ultimately show ?thesis
      using Cons.IH [of c "[]"] True by (simp add: path_loop_out [of _ _ _ _ "[_]"])
  next
    case False
    with Cons.prems Cons.IH [of d "seg @ [c]"] show ?thesis by simp
  qed
qed

lemma render_path_loop:
  assumes "set_option l \<subseteq> set delims" "set seg \<inter> set delims = {}"
    "no_adjacent delims (opt_list l @ seg @ rest)" "path_loop delims rest l seg [] \<noteq> []"
  shows "render_template (path_loop delims rest l seg []) = opt_list l @ seg @ rest"
  using assms
proof (induction rest arbitrary: l seg)
  case Nil
  then show ?case by (simp add: render_template_Cons split: if_splits)
next
  case (Cons c rest)
  show ?case
  proof (cases "c \<in> set delims \<and> seg = []")
    case True
    with Cons.prems have "l = None" by (cases l) auto
    with True Cons.prems Cons.IH [of "Some c" "[]"] show ?thesis by simp
  next
    case False
    show ?thesis
    proof (cases "c \<in> set delims")
      case True
      with False have "seg \<noteq> []" by simp
      moreover have "no_adjacent delims (c # rest)"
        using no_adjacent_split [of delims "opt_list l @ seg" c rest] Cons.prems(3) by simp
      ultimately show ?thesis
        using render_rest_path_loop [of c delims "[]" rest] True
        by (simp add: path_loop_out [of _ _ _ _ "[_]"] render_template_Cons)
    next
      case False
      with Cons.prems Cons.IH [of l "seg @ [c]"] show ?thesis by simp
    qed
  qed
qed

lemma path_loop_last:
  assumes "seg @ rest \<noteq> []" "last (seg @ rest) \<notin> set delims" "set seg \<inter> set delims = {}"
  shows "path_loop delims rest l seg [] \<noteq> [] \<and> trailing_delim (last (path_loop delims rest l seg [])) = None"
  using assms
proof (induction rest arbitrary: l seg)
  case (Cons c rest)
  then show ?case
    by (cases "rest = []") (auto simp: path_loop_out [of _ _ _ _ "[_]"])
qed simp

text \<open>The pieces the rendering keeps apart and intact.\<close>

definition renderable :: "rchar list \<Rightarrow> rstr \<Rightarrow> bool" where
  "renderable delims p \<longleftrightarrow> set p \<subseteq> set delims \<or> no_adjacent delims p"

definition closed_piece :: "rchar list \<Rightarrow> rstr \<Rightarrow> bool" where
  "closed_piece delims p \<longleftrightarrow> set p \<subseteq> set delims \<or> last p \<notin> set delims"

lemma render_path_tokens:
  assumes "p \<noteq> []" "renderable delims p"
  shows "render_template (path_tokens delims p) = p"
proof (cases "set p \<subseteq> set delims")
  case True
  with assms(1) show ?thesis by (simp add: path_tokens_eq render_template_Cons)
next
  case False
  then show ?thesis
    using assms render_path_loop [of None delims "[]" p] path_loop_Nil_iff [of delims p None "[]"]
    by (simp add: path_tokens_eq renderable_def)
qed

lemma last_path_tokens:
  assumes "p \<noteq> []" "closed_piece delims p"
  shows "trailing_delim (last (path_tokens delims p)) = None"
  using assms path_loop_last [of "[]" p delims None]
  by (auto simp: path_tokens_eq closed_piece_def)

fun unwords :: "rstr list \<Rightarrow> rstr" where
  "unwords [] = []"
| "unwords [p] = p"
| "unwords (p # ps) = p @ 32 # unwords ps"

lemma render_pieces:
  assumes "[] \<notin> set ps" "list_all (renderable delims) ps" "list_all (closed_piece delims) (butlast ps)"
  shows "render_template (concat (map (path_tokens delims) ps)) = unwords ps"
  using assms
proof (induction ps rule: unwords.induct)
  case (2 p)
  then show ?case by (simp add: render_path_tokens)
next
  case (3 p q ps)
  let ?rest = "concat (map (path_tokens delims) (q # ps))"
  have ne: "?rest \<noteq> []" using 3 by auto
  have "render_template (path_tokens delims p @ ?rest) =
      render_template (path_tokens delims p) @ render_rest None ?rest"
    using 3 by (intro render_template_append last_path_tokens) auto
  also have "\<dots> = p @ 32 # unwords (q # ps)"
    using 3 render_rest_None [OF ne] by (auto simp: render_path_tokens)
  finally show ?case by simp
qed simp

section \<open>Rates\<close>

definition span_secs :: "nat \<Rightarrow> rat" where
  "span_secs d = rne (rne (of_nat (d div 10 ^ 9)) + ratio (d mod 10 ^ 9) (10 ^ 9))"

lemma secs_between_Fin:
  "secs_between later earlier =
     (if later < earlier then Fin 0 else Fin (span_secs (nat (later - earlier))))"
  using f64_div_of_nat [of "10 ^ 9"]
  by (simp add: secs_between_def span_secs_def Let_def f64_of_nat_def)

lemma span_secs_less_1: "span_secs d < 1 \<longleftrightarrow> d < 10 ^ 9"
proof
  assume "span_secs d < 1"
  show "d < 10 ^ 9"
  proof (rule ccontr)
    assume "\<not> d < 10 ^ 9"
    then have "0 < d div 10 ^ 9"
      by (simp add: div_greater_zero_iff)
    then have "rne 1 \<le> rne (of_nat (d div 10 ^ 9))"
      by (intro rne_mono) simp
    then have "1 \<le> rne (of_nat (d div 10 ^ 9)) + ratio (d mod 10 ^ 9) (10 ^ 9)"
      using ratio_range [of "d mod 10 ^ 9" "10 ^ 9"] by simp
    then have "rne 1 \<le> span_secs d"
      unfolding span_secs_def by (rule rne_mono)
    with \<open>span_secs d < 1\<close> show False by simp
  qed
next
  assume "d < 10 ^ 9"
  then have "span_secs d = rne (ratio d (10 ^ 9))"
    by (simp add: span_secs_def)
  also have "\<dots> \<le> rne below_1"
    using \<open>d < 10 ^ 9\<close> by (intro rne_mono ratio_below_1) simp_all
  finally show "span_secs d < 1"
    using below_1_less by simp
qed

lemma rate_over_Fin:
  assumes "1 \<le> x"
  shows "\<exists>r. rate_over n (Fin x) = Fin r \<and> 0 \<le> r \<and> (r = 0 \<longleftrightarrow> n = 0)"
proof -
  have p: "0 < rne (x / 60)" using assms by (intro rne_pos_iff) simp
  have "rate_over n (Fin x) = Fin (rne (rne (of_nat (unat n)) / rne (x / 60)))"
    using assms p by (simp add: rate_over_def f64_of_nat_def)
  moreover have "0 < rne (rne (of_nat (unat n)) / rne (x / 60))" if "0 < n"
  proof -
    have "0 < rne (of_nat (unat n))"
      using that by (intro rne_pos_iff) (simp add: word_less_nat_alt del: of_nat_unat)
    with p show ?thesis by (metis divide_pos_pos rne_pos_iff)
  qed
  ultimately show ?thesis
    by (cases "n = 0") (auto simp: word_neq_0_conv less_imp_le)
qed

lemma rate_over_spec:
  "\<exists>r. rate_over n (secs_between later earlier) = Fin r \<and> 0 \<le> r \<and>
     (r = 0 \<longleftrightarrow> n = 0 \<or> later - earlier < 10 ^ 9)"
proof (cases "later - earlier < 10 ^ 9")
  case True
  then have "later < earlier \<or> nat (later - earlier) < 10 ^ 9"
    by (cases "later < earlier") (simp_all add: nat_less_iff)
  then have "\<exists>x. secs_between later earlier = Fin x \<and> x < 1"
    by (auto simp: secs_between_Fin span_secs_less_1)
  with True show ?thesis by (auto simp: rate_over_def)
next
  case False
  then have "\<not> nat (later - earlier) < 10 ^ 9"
    by simp
  with False have "\<exists>x. secs_between later earlier = Fin x \<and> 1 \<le> x"
    using span_secs_less_1 [of "nat (later - earlier)"] by (simp add: secs_between_Fin not_less)
  with False rate_over_Fin show ?thesis by auto
qed

section \<open>Properties\<close>

text \<open>
  C32.  Generalizing a template against a token vector of its length computes the least template
  above both: each slot becomes the join of the stored slot and the incoming one.  The result
  matches the vector, the delimiter flags are kept, and the reported change, the read-only
  prediction \<^verbatim>\<open>would_generalize\<close> and an actual change of the template agree.
\<close>

theorem generalize_refines_join:
  assumes "length (tokens b) = length inc"
  shows "case generalize inc w b of (b', changed) \<Rightarrow>
    template_of w (tokens b') = join (template_of w (tokens b)) (template_of w inc) \<and>
    matches_all (tokens b') inc w \<and>
    map leading_delim (tokens b') = map leading_delim (tokens b) \<and>
    map trailing_delim (tokens b') = map trailing_delim (tokens b) \<and>
    (changed \<longleftrightarrow> would_generalize b inc w) \<and>
    (changed \<longleftrightarrow> template_of w (tokens b') \<noteq> template_of w (tokens b))"
proof -
  have "matches_all (tokens b) inc w \<longleftrightarrow>
      join (template_of w (tokens b)) (template_of w inc) = template_of w (tokens b)"
    using assms by (simp add: matches_all_template join_eq_left_iff)
  then show ?thesis
    using assms
    using generalize_tokens [OF assms, of w] generalize_changed [OF assms, of w]
      would_generalize_iff [OF assms, of w] generalize_flags [OF assms, of w]
      generalize_matches [OF assms, of w] generalize_template [of w "tokens b" inc]
    by (simp add: split_beta del: map_map)
qed

theorem generalize_refines_join_witness:
  "template_of (str ''<*>'') (tokens (fst (generalize
     [plain_token (str ''user''), plain_token (str ''42'')] (str ''<*>'')
     (cluster_new 1 [plain_token (str ''user''), plain_token (str ''7'')] 0 None None))))
   = [Lit (str ''user''), Wild]"
  using generalize_refines_join [of
      "cluster_new 1 [plain_token (str ''user''), plain_token (str ''7'')] 0 None None"
      "[plain_token (str ''user''), plain_token (str ''42'')]" "str ''<*>''"]
  by (simp add: split_beta template_of_def slot_of_def join_def)

text \<open>
  The template of a cluster does not depend on the order in which its lines arrived, nor
  does anything else \<^verbatim>\<open>generalize\<close> writes: folding the same token vectors in
  any order gives the same tokens.
\<close>

theorem generalization_order_irrelevant:
  assumes "mset incs = mset incs'" "\<forall>inc \<in> set incs. length inc = length (tokens b)"
  shows "tokens (generalize_all w incs b) = tokens (generalize_all w incs' b)"
proof -
  have l: "\<forall>inc \<in> set incs'. length inc = length (tokens b)"
    using assms by (metis set_mset_mset)
  have "mset (map (template_of w) incs) = mset (map (template_of w) incs')"
    using assms(1) by simp
  then show ?thesis
    using generalize_all_tokens [OF assms(2), of w] generalize_all_tokens [OF l, of w]
    by (intro tokens_from_template [of w]) (simp_all add: join_all_perm)
qed

theorem generalization_order_irrelevant_witness:
  "tokens (generalize_all (str ''*'') [map plain_token [str ''a'', str ''c''],
       map plain_token [str ''b'', str ''d'']]
     (cluster_new 1 (map plain_token [str ''a'', str ''d'']) 0 None None)) =
   tokens (generalize_all (str ''*'') [map plain_token [str ''b'', str ''d''],
       map plain_token [str ''a'', str ''c'']]
     (cluster_new 1 (map plain_token [str ''a'', str ''d'']) 0 None None))"
  by (rule generalization_order_irrelevant) simp_all

text \<open>
  The event window of a cluster is the least and the greatest event time supplied with its
  lines, the one of its first line included.  It is unset exactly when every time supplied, if
  any, was \<open>u64::MAX\<close>: that value is the sentinel of the unset window, so a cluster whose
  only event times are \<open>u64::MAX\<close> reports no event time at all.
\<close>

theorem event_window_spec:
  "let es = opt_list e0 @ later;
       c = to_public (observe_all later (cluster_new i toks now sfx e0))
   in if list_all (\<lambda>e. e = EVENT_UNSET) es then event_first c = None \<and> event_last c = None
      else event_first c = Some (time_from_ms (Min (set es))) \<and>
        event_last c = Some (time_from_ms (Max (set es)))"
proof -
  let ?es = "opt_list e0 @ later"
  let ?b = "observe_all later (cluster_new i toks now sfx e0)"
  have lo: "event_first_ms ?b = Min (insert EVENT_UNSET (set ?es))"
    by (cases e0; cases "later = []")
      (simp_all add: observe_all_window cluster_new_def fold_min EVENT_UNSET_def insert_commute
        min_absorb2)
  have hi: "event_last_ms ?b = Max (insert 0 (set ?es))"
    by (cases e0; cases "later = []") (simp_all add: observe_all_window cluster_new_def fold_max insert_commute
        max_absorb2)
  have ne: "?es \<noteq> [] \<Longrightarrow> Min (insert EVENT_UNSET (set ?es)) = Min (set ?es)"
    "?es \<noteq> [] \<Longrightarrow> Max (insert 0 (set ?es)) = Max (set ?es)"
    by (simp_all add: EVENT_UNSET_def min_absorb2 max_absorb2)
  have unset: "Min (insert EVENT_UNSET (set ?es)) = EVENT_UNSET \<longleftrightarrow>
      list_all (\<lambda>e. e = EVENT_UNSET) ?es"
  proof
    assume "Min (insert EVENT_UNSET (set ?es)) = EVENT_UNSET"
    then have "e \<in> set ?es \<Longrightarrow> EVENT_UNSET \<le> e" for e
      by (metis Min_le List.finite_set finite_insert insertCI)
    then show "list_all (\<lambda>e. e = EVENT_UNSET) ?es"
      by (auto simp: EVENT_UNSET_def list_all_iff intro: word_order.extremum_uniqueI)
  next
    assume "list_all (\<lambda>e. e = EVENT_UNSET) ?es"
    then have "insert EVENT_UNSET (set ?es) = {EVENT_UNSET}"
      by (auto simp: list_all_iff)
    then show "Min (insert EVENT_UNSET (set ?es)) = EVENT_UNSET"
      by (simp only: Min_singleton)
  qed
  show ?thesis
  proof (cases "list_all (\<lambda>e. e = EVENT_UNSET) ?es")
    case True
    with unset lo show ?thesis by (simp add: to_public_def Let_def)
  next
    case False
    then have "?es \<noteq> []" by auto
    with False unset lo hi ne show ?thesis by (simp add: to_public_def Let_def)
  qed
qed

text \<open>
  The two rates of a public cluster are always finite non-negative numbers, never a
  division by zero or a NaN, and are zero exactly when the span is under one second (or
  negative, when the clock went back) or the size is zero; the event rate exists exactly when
  the event window does.
\<close>

theorem rates_spec:
  "(\<exists>r. lines_per_minute c = Fin r \<and> 0 \<le> r \<and>
      (r = 0 \<longleftrightarrow> pub_size c = 0 \<or> pub_updated_at c - pub_created_at c < 10 ^ 9)) \<and>
   (case (event_first c, event_last c) of
      (Some lo, Some hi) \<Rightarrow>
        (\<exists>r. event_lines_per_minute c = Some (Fin r) \<and> 0 \<le> r \<and>
          (r = 0 \<longleftrightarrow> pub_size c = 0 \<or> hi - lo < 10 ^ 9))
    | _ \<Rightarrow> event_lines_per_minute c = None)"
  using rate_over_spec [of "pub_size c"]
  by (auto simp: lines_per_minute_def event_lines_per_minute_def split: option.splits)

text \<open>
  A tokenized line renders back to its pieces separated by single spaces, as long as no
  piece has two adjacent delimiters (a piece of delimiters only may) and no piece but the last
  ends in a delimiter.
\<close>

theorem render_tokenize:
  assumes "list_all (renderable delims) (split_whitespace line)"
    "list_all (closed_piece delims) (butlast (split_whitespace line))"
  shows "render_template (tokenize_with line delims) = unwords (split_whitespace line)"
  using assms split_whitespace_pieces
  by (auto simp: tokenize_with_concat intro!: render_pieces)

theorem render_tokenize_witness:
  "render_template (tokenize_with (str ''GET   /api/users  ok'') [47]) = str ''GET /api/users ok''"
  by (subst render_tokenize)
    (simp_all add: split_whitespace_def is_whitespace_def renderable_def closed_piece_def)

text \<open>
  The second condition is needed: a template whose middle piece ends in a delimiter renders without
  the space that separated it from the next piece, so the rendered text need not tokenize to as
  many tokens as the template has.  The lines \<^verbatim>\<open>a/ b\<close> and
  \<^verbatim>\<open>a/b\<close> render alike; they have the same token texts and are one cluster.
\<close>

theorem render_not_stable:
  "render_template (tokenize_with (str ''a/ / b'') [47]) = str ''a// b'' \<and>
   length (tokenize_with (str ''a/ / b'') [47]) = 3 \<and>
   length (tokenize_with (str ''a// b'') [47]) = 2 \<and>
   render_template (tokenize_with (str ''a/ b'') [47]) =
     render_template (tokenize_with (str ''a/b'') [47])"
  by (simp add: tokenize_with_def push_path_tokens_def split_whitespace_def is_whitespace_def
      render_template_def Let_def plain_token_def)

end
