(* ===== verification/Miner.thy ===== *)
theory Miner
  imports Options Prefix_Tree Cluster
begin

text \<open>
  Model of the ingest and query paths of \<^verbatim>\<open>crates/logdrain/src/miner.rs\<close>,
  executed by one thread.  A shard behind its lock is its value, and a handle
  \<^verbatim>\<open>Arc<RwLock<ClusterInner>>\<close> found in the id map is the id with the body read;
  writing through it writes the map at that id.  Every \<^verbatim>\<open>add\<close> reads the clock at
  most once: the reading is the argument \<open>now\<close>.  \<open>None\<close> is a panic.
  \<open>replace_all\<close> is the regular expression library's replacement (theory
  \<open>Mask\<close>).
\<close>

section \<open>State\<close>

datatype update_type = Created | TemplateChanged | Unchanged

record add_result =
  cluster_id :: u64
  update :: update_type

record shard =
  root :: tree_node

record 're miner =
  shards :: "(nat, shard) fmap"
  clusters_by_id :: "(u64, cluster_inner) fmap"
  options :: "'re options"
  counter :: u64
  tick :: u64

definition from_options :: "'re options \<Rightarrow> 're miner" where
  "from_options opt = \<lparr>shards = fmempty, clusters_by_id = fmempty, options = opt, counter = 0, tick = 0\<rparr>"

definition build :: "'re miner_builder \<Rightarrow> logdrain_error + 're miner" where
  "build b = (case build_options b of Inl e \<Rightarrow> Inl e | Inr opt \<Rightarrow> Inr (from_options opt))"

text \<open>\<^verbatim>\<open>fetch_add\<close> returns the old value and wraps.\<close>

definition next_tick :: "'re miner \<Rightarrow> u64 \<times> 're miner" where
  "next_tick m = (tick m, m\<lparr>tick := tick m + 1\<rparr>)"

definition miner_len :: "'re miner \<Rightarrow> nat" where
  "miner_len m = fcard (fmdom (clusters_by_id m))"

definition miner_is_empty :: "'re miner \<Rightarrow> bool" where
  "miner_is_empty m \<longleftrightarrow> miner_len m = 0"

definition descent_keys :: "'re options \<Rightarrow> token list \<Rightarrow> rstr list" where
  "descent_keys opt toks =
     (let n = min (prefix_len opt) (length toks)
      in map (\<lambda>tok. if parametrize_numeric_tokens opt \<and> is_numeric_token (tok_text tok)
                    then wildcard opt else tok_text tok) (take n toks))"

definition shard_for :: "nat \<Rightarrow> 're miner \<Rightarrow> shard \<times> 're miner" where
  "shard_for n m =
     (case fmlookup (shards m) n of
        Some s \<Rightarrow> (s, m)
      | None \<Rightarrow>
          let s = \<lparr>root = new_internal\<rparr> in (s, m\<lparr>shards := fmupd n s (shards m)\<rparr>))"

section \<open>Matching\<close>

text \<open>The loop of \<^verbatim>\<open>best_match\<close> over the ids of a leaf.\<close>

fun best_match_loop ::
    "(u64, cluster_inner) fmap \<Rightarrow> rstr \<Rightarrow> token list \<Rightarrow> u64 list \<Rightarrow>
     (u64 \<times> f64 \<times> cluster_inner) option \<Rightarrow> (u64 \<times> f64 \<times> cluster_inner) option" where
  "best_match_loop cs w toks [] best = best"
| "best_match_loop cs w toks (i # js) best =
     (case fmlookup cs i of
        None \<Rightarrow> best_match_loop cs w toks js best
      | Some body \<Rightarrow>
          let sim = similarity (tokens body) toks w
          in best_match_loop cs w toks js
               (case best of
                  None \<Rightarrow> Some (i, sim, body)
                | Some (_, b, _) \<Rightarrow> if f64_lt b sim then Some (i, sim, body) else best))"

definition best_match ::
    "'re miner \<Rightarrow> leaf_bucket \<Rightarrow> token list \<Rightarrow> (u64 \<times> f64 \<times> cluster_inner) option" where
  "best_match m leaf toks =
     best_match_loop (clusters_by_id m) (wildcard (options m)) toks (ids leaf) None"

text \<open>\<^verbatim>\<open>.filter(|(_, sim, _)| *sim >= self.options.sim_threshold)\<close>\<close>

definition above_threshold ::
    "'re miner \<Rightarrow> (u64 \<times> f64 \<times> cluster_inner) option \<Rightarrow> (u64 \<times> f64 \<times> cluster_inner) option" where
  "above_threshold m r =
     (case r of
        Some (i, sim, body) \<Rightarrow> if f64_le (sim_threshold (options m)) sim then r else None
      | None \<Rightarrow> None)"

definition apply_match ::
    "systime \<Rightarrow> u64 \<Rightarrow> cluster_inner \<Rightarrow> token list \<Rightarrow> rstr option \<Rightarrow> u64 option \<Rightarrow>
     're miner \<Rightarrow> add_result \<times> 're miner" where
  "apply_match now i body toks member event_ms m =
     (let (t, m1) = next_tick m;
          b1 = touch t now body;
          b2 = (case event_ms of Some ms \<Rightarrow> observe_event ms b1 | None \<Rightarrow> b1);
          needs_generalize = would_generalize b2 toks (wildcard (options m))
      in if \<not> needs_generalize \<and> member = None
         then (\<lparr>cluster_id = i, update = Unchanged\<rparr>,
               m1\<lparr>clusters_by_id := fmupd i b2 (clusters_by_id m1)\<rparr>)
         else
           let (b3, changed) =
                 (if needs_generalize then generalize toks (wildcard (options m)) b2 else (b2, False));
               b4 = (case member of Some x \<Rightarrow> add_member x b3 | None \<Rightarrow> b3)
           in (\<lparr>cluster_id = i, update = if changed then TemplateChanged else Unchanged\<rparr>,
               m1\<lparr>clusters_by_id := fmupd i b4 (clusters_by_id m1)\<rparr>))"

section \<open>Eviction and creation\<close>

definition evict_if_full :: "leaf_bucket \<Rightarrow> 're miner \<Rightarrow> leaf_bucket \<times> 're miner" where
  "evict_if_full leaf m =
     (if \<not> is_full leaf then (leaf, m)
      else
        (case min_by_key
            (\<lambda>i. case fmlookup (clusters_by_id m) i of Some a \<Rightarrow> recency a | None \<Rightarrow> 0) (ids leaf) of
           Some v \<Rightarrow> (leaf_remove leaf v, m\<lparr>clusters_by_id := fmdrop v (clusters_by_id m)\<rparr>)
         | None \<Rightarrow> (leaf, m)))"

text \<open>
  The last part of \<^verbatim>\<open>add_inner\<close>: a new cluster in the leaf at \<open>keys\<close> of the
  shard \<open>n\<close>, whose grown tree is \<open>node\<close>.
\<close>

definition create_cluster ::
    "systime \<Rightarrow> nat \<Rightarrow> tree_node \<Rightarrow> rstr list \<Rightarrow> leaf_bucket \<Rightarrow> token list \<Rightarrow> rstr option \<Rightarrow>
     rstr option \<Rightarrow> u64 option \<Rightarrow> 're miner \<Rightarrow> add_result \<times> 're miner" where
  "create_cluster now n node keys leaf toks suffix member event_ms m =
     (let i = counter m + 1;
          m1 = m\<lparr>counter := counter m + 1\<rparr>;
          inner = cluster_new i (map owned_token toks) now suffix event_ms;
          (t, m2) = next_tick m1;
          inner1 = inner\<lparr>last_used := t\<rparr>;
          inner2 = (case member of Some x \<Rightarrow> add_member x inner1 | None \<Rightarrow> inner1);
          m3 = m2\<lparr>clusters_by_id := fmupd i inner2 (clusters_by_id m2)\<rparr>;
          (leaf1, m4) = evict_if_full leaf m3;
          node1 = write_leaf node keys (leaf_insert leaf1 i)
      in (\<lparr>cluster_id = i, update = Created\<rparr>, m4\<lparr>shards := fmupd n \<lparr>root = node1\<rparr> (shards m4)\<rparr>))"

section \<open>Ingest\<close>

text \<open>Masking, first-line splitting and tokenizing, as every entry point does them.\<close>

definition preprocess ::
    "('re \<Rightarrow> rstr \<Rightarrow> rstr \<Rightarrow> cow) \<Rightarrow> 're options \<Rightarrow> rstr \<Rightarrow> token list \<times> rstr option" where
  "preprocess replace_all opt line =
     (let masked = cow_str (apply_masks replace_all line (masks opt));
          (first, suffix) = (if first_line_only opt then split_first_line masked else (masked, None))
      in (tokenize_with first (active_path_delimiters opt), suffix))"

definition add_inner ::
    "('re \<Rightarrow> rstr \<Rightarrow> rstr \<Rightarrow> cow) \<Rightarrow> systime \<Rightarrow> rstr \<Rightarrow> rstr option \<Rightarrow> u64 option \<Rightarrow>
     're miner \<Rightarrow> (add_result \<times> 're miner) option" where
  "add_inner replace_all now line member event_ms m =
     (let (toks, suffix) = preprocess replace_all (options m) line;
          n = length toks;
          keys = descent_keys (options m) toks;
          (s, m0) = shard_for n m;
          matched =
            (case descend (root s) keys of
               None \<Rightarrow> None
             | Some leaf \<Rightarrow> above_threshold m0 (best_match m0 leaf toks))
      in case matched of
           Some (i, _, body) \<Rightarrow> Some (apply_match now i body toks member event_ms m0)
         | None \<Rightarrow>
             (case descend_or_create (root s) keys (max_clusters_per_leaf (options m)) of
                None \<Rightarrow> None
              | Some node \<Rightarrow>
                  (case descend node keys of
                     None \<Rightarrow> None
                   | Some leaf \<Rightarrow>
                       let m1 = m0\<lparr>shards := fmupd n \<lparr>root = node\<rparr> (shards m0)\<rparr>
                       in case above_threshold m1 (best_match m1 leaf toks) of
                            Some (i, _, body) \<Rightarrow> Some (apply_match now i body toks member event_ms m1)
                          | None \<Rightarrow>
                              Some (create_cluster now n node keys leaf toks suffix member event_ms m1))))"

definition add ::
    "('re \<Rightarrow> rstr \<Rightarrow> rstr \<Rightarrow> cow) \<Rightarrow> systime \<Rightarrow> rstr \<Rightarrow> 're miner \<Rightarrow>
     (add_result \<times> 're miner) option" where
  "add replace_all now line m = add_inner replace_all now line None None m"

definition add_with_member ::
    "('re \<Rightarrow> rstr \<Rightarrow> rstr \<Rightarrow> cow) \<Rightarrow> systime \<Rightarrow> rstr \<Rightarrow> rstr \<Rightarrow> 're miner \<Rightarrow>
     (add_result \<times> 're miner) option" where
  "add_with_member replace_all now line member m = add_inner replace_all now line (Some member) None m"

definition add_at ::
    "('re \<Rightarrow> rstr \<Rightarrow> rstr \<Rightarrow> cow) \<Rightarrow> systime \<Rightarrow> rstr \<Rightarrow> u64 \<Rightarrow> 're miner \<Rightarrow>
     (add_result \<times> 're miner) option" where
  "add_at replace_all now line event_ms m = add_inner replace_all now line None (Some event_ms) m"

definition add_with_member_at ::
    "('re \<Rightarrow> rstr \<Rightarrow> rstr \<Rightarrow> cow) \<Rightarrow> systime \<Rightarrow> rstr \<Rightarrow> rstr \<Rightarrow> u64 \<Rightarrow> 're miner \<Rightarrow>
     (add_result \<times> 're miner) option" where
  "add_with_member_at replace_all now line member event_ms m =
     add_inner replace_all now line (Some member) (Some event_ms) m"

section \<open>Queries\<close>

definition tokens_for_query :: "'re options \<Rightarrow> rstr \<Rightarrow> token list" where
  "tokens_for_query opt masked =
     (let first = (if first_line_only opt then fst (split_first_line masked) else masked)
      in tokenize_with first (active_path_delimiters opt))"

definition match_only ::
    "('re \<Rightarrow> rstr \<Rightarrow> rstr \<Rightarrow> cow) \<Rightarrow> rstr \<Rightarrow> 're miner \<Rightarrow> u64 option" where
  "match_only replace_all line m =
     (let masked = cow_str (apply_masks replace_all line (masks (options m)));
          toks = tokens_for_query (options m) masked;
          n = length toks;
          keys = descent_keys (options m) toks
      in case fmlookup (shards m) n of
           None \<Rightarrow> None
         | Some s \<Rightarrow>
             (case descend (root s) keys of
                None \<Rightarrow> None
              | Some leaf \<Rightarrow> map_option (\<lambda>(i, _, _). i) (above_threshold m (best_match m leaf toks))))"

text \<open>The loop of \<^verbatim>\<open>extract\<close>.\<close>

fun extract_loop :: "rstr \<Rightarrow> token list \<Rightarrow> token list \<Rightarrow> rstr list" where
  "extract_loop w (stored # ts) (tok # toks) =
     (if tok_text stored = w then tok_text tok # extract_loop w ts toks else extract_loop w ts toks)"
| "extract_loop w _ _ = []"

definition miner_extract ::
    "('re \<Rightarrow> rstr \<Rightarrow> rstr \<Rightarrow> cow) \<Rightarrow> rstr \<Rightarrow> 're miner \<Rightarrow> (u64 \<times> rstr list) option" where
  "miner_extract replace_all line m =
     (case match_only replace_all line m of
        None \<Rightarrow> None
      | Some i \<Rightarrow>
          let masked = cow_str (apply_masks replace_all line (masks (options m)));
              toks = tokens_for_query (options m) masked
          in case fmlookup (clusters_by_id m) i of
               None \<Rightarrow> None
             | Some body \<Rightarrow> Some (i, extract_loop (wildcard (options m)) (tokens body) toks))"

text \<open>\<open>order\<close> is the iteration order of the id map.\<close>

definition clusters :: "u64 list \<Rightarrow> 're miner \<Rightarrow> cluster list" where
  "clusters order m =
     List.map_filter (\<lambda>i. map_option to_public (fmlookup (clusters_by_id m) i)) order"

definition miner_cluster :: "u64 \<Rightarrow> 're miner \<Rightarrow> cluster option" where
  "miner_cluster i m =
     (case fmlookup (clusters_by_id m) i of None \<Rightarrow> None | Some body \<Rightarrow> Some (to_public body))"

section \<open>Restoring a cluster\<close>

definition insert_existing :: "cluster_inner \<Rightarrow> 're miner \<Rightarrow> 're miner option" where
  "insert_existing inner m =
     (let n = length (tokens inner);
          i = body_id inner;
          (s, m0) = shard_for n m;
          keys = descent_keys (options m) (tokens inner)
      in case descend_or_create (root s) keys (max_clusters_per_leaf (options m)) of
           None \<Rightarrow> None
         | Some node \<Rightarrow>
             (case descend node keys of
                None \<Rightarrow> None
              | Some leaf \<Rightarrow>
                  let (leaf1, m1) = evict_if_full leaf m0;
                      node1 = write_leaf node keys (leaf_insert leaf1 i);
                      m2 = m1\<lparr>shards := fmupd n \<lparr>root = node1\<rparr> (shards m1)\<rparr>
                  in Some (m2\<lparr>clusters_by_id := fmupd i inner (clusters_by_id m2)\<rparr>)))"

end
