(* ===== verification/Miner_Inv.thy ===== *)
theory Miner_Inv
  imports Miner
begin

text \<open>
  The state invariant of the miner and the lemmas on its operations.  The tree of a shard is
  read as a map from key paths to id lists (\<open>bucket\<close>); the invariant says that this index and the id
  map agree: a live cluster stands in exactly the bucket that its own tokens lead to.
\<close>

section \<open>The index of a miner\<close>

definition bucket :: "'re miner \<Rightarrow> nat \<Rightarrow> rstr list \<Rightarrow> u64 list" where
  "bucket m n ks =
     (case fmlookup (shards m) n of
        None \<Rightarrow> []
      | Some s \<Rightarrow> (case descend (root s) ks of None \<Rightarrow> [] | Some leaf \<Rightarrow> ids leaf))"

abbreviation body_of :: "'re miner \<Rightarrow> u64 \<Rightarrow> cluster_inner option" where
  "body_of m i \<equiv> fmlookup (clusters_by_id m) i"

definition placed :: "'re options \<Rightarrow> nat \<Rightarrow> rstr list \<Rightarrow> cluster_inner \<Rightarrow> bool" where
  "placed opt n ks b \<longleftrightarrow> length (tokens b) = n \<and> descent_keys opt (tokens b) = ks"

definition leaf_ok :: "'re options \<Rightarrow> leaf_bucket \<Rightarrow> bool" where
  "leaf_ok opt leaf \<longleftrightarrow>
     cap leaf = max_clusters_per_leaf opt \<and> length (ids leaf) \<le> cap leaf \<and> distinct (ids leaf)"

definition shape_ok :: "'re miner \<Rightarrow> bool" where
  "shape_ok m \<longleftrightarrow>
     (\<forall>n s. fmlookup (shards m) n = Some s \<longrightarrow>
        has_depth (min (prefix_len (options m)) n) (root s) \<and>
        (\<forall>ks leaf. descend (root s) ks = Some leaf \<longrightarrow> leaf_ok (options m) leaf))"

definition index_ok :: "'re miner \<Rightarrow> bool" where
  "index_ok m \<longleftrightarrow>
     (\<forall>n ks i. i \<in> set (bucket m n ks) \<longleftrightarrow> (\<exists>b. body_of m i = Some b \<and> placed (options m) n ks b))"

definition bodies_ok :: "'re miner \<Rightarrow> bool" where
  "bodies_ok m \<longleftrightarrow>
     (\<forall>i b. body_of m i = Some b \<longrightarrow>
        body_id b = i \<and> 0 < i \<and> i \<le> counter m \<and> distinct (members b))"

definition miner_inv :: "'re miner \<Rightarrow> bool" where
  "miner_inv m \<longleftrightarrow> valid_options (options m) \<and> shape_ok m \<and> index_ok m \<and> bodies_ok m"

lemma miner_invD [inv_dests]:
  assumes "miner_inv m"
  shows "valid_options (options m)" "shape_ok m" "index_ok m" "bodies_ok m"
  using assms by (simp_all add: miner_inv_def)

lemma bodies_okD:
  "miner_inv m \<Longrightarrow> body_of m i = Some b \<Longrightarrow> body_id b = i \<and> 0 < i \<and> i \<le> counter m \<and> distinct (members b)"
  by (simp add: miner_inv_def bodies_ok_def)

lemma index_okD:
  "miner_inv m \<Longrightarrow> i \<in> set (bucket m n ks) \<longleftrightarrow> (\<exists>b. body_of m i = Some b \<and> placed (options m) n ks b)"
  by (simp add: miner_inv_def index_ok_def)

lemma bucket_leaf_ok:
  assumes "shape_ok m"
  shows "distinct (bucket m n ks)" "length (bucket m n ks) \<le> max_clusters_per_leaf (options m)"
  using assms by (fastforce simp: shape_ok_def leaf_ok_def bucket_def split: option.splits)+

section \<open>Keys\<close>

lemma length_descent_keys [simp]:
  "length (descent_keys opt toks) = min (prefix_len opt) (length toks)"
  by (simp add: descent_keys_def Let_def)

text \<open>The key of one token.\<close>

definition token_key :: "'re options \<Rightarrow> token \<Rightarrow> rstr" where
  "token_key opt tok =
     (if parametrize_numeric_tokens opt \<and> is_numeric_token (tok_text tok)
      then wildcard opt else tok_text tok)"

lemma descent_keys_eq:
  "descent_keys opt toks = map (token_key opt) (take (min (prefix_len opt) (length toks)) toks)"
  by (simp add: descent_keys_def token_key_def Let_def)

text \<open>
  Generalizing a template against a token vector with the same keys keeps the keys: where the
  keys agree, the texts agree, or the token becomes (or already is) the wildcard its key is.
\<close>

lemma token_key_generalize:
  "token_key opt t = token_key opt u \<Longrightarrow>
     token_key opt (generalize_token (wildcard opt) t u) = token_key opt t"
  by (auto simp: token_key_def generalize_token_def split: if_splits)

lemma descent_keys_generalize:
  assumes "length ts = length us" "descent_keys opt ts = descent_keys opt us"
  shows "descent_keys opt (map2 (generalize_token (wildcard opt)) ts us) = descent_keys opt ts"
proof (rule nth_equalityI)
  fix i
  assume "i < length (descent_keys opt (map2 (generalize_token (wildcard opt)) ts us))"
  then have i: "i < prefix_len opt" "i < length ts" "i < length us"
    using assms(1) by auto
  have "token_key opt (ts ! i) = token_key opt (us ! i)"
    using arg_cong [OF assms(2), of "\<lambda>x. x ! i"] i by (simp add: descent_keys_eq)
  with i show "descent_keys opt (map2 (generalize_token (wildcard opt)) ts us) ! i =
      descent_keys opt ts ! i"
    by (simp add: descent_keys_eq token_key_generalize)
qed (use assms(1) in simp)

section \<open>The winner of a token vector\<close>

definition score_of :: "'re miner \<Rightarrow> token list \<Rightarrow> u64 \<Rightarrow> rat" where
  "score_of m toks i =
     (case body_of m i of None \<Rightarrow> 0 | Some b \<Rightarrow> score (tokens b) toks (wildcard (options m)))"

definition passes :: "'re options \<Rightarrow> rat \<Rightarrow> bool" where
  "passes opt q \<longleftrightarrow> f64_le (sim_threshold opt) (Fin q)"

definition home :: "'re miner \<Rightarrow> token list \<Rightarrow> u64 list" where
  "home m toks = bucket m (length toks) (descent_keys (options m) toks)"

definition winner :: "'re miner \<Rightarrow> token list \<Rightarrow> u64 option" where
  "winner m toks =
     (case first_max (score_of m toks) (home m toks) of
        None \<Rightarrow> None
      | Some i \<Rightarrow> if passes (options m) (score_of m toks i) then Some i else None)"

lemma passes_mono: "passes opt p \<Longrightarrow> p \<le> q \<Longrightarrow> passes opt q"
  by (cases "sim_threshold opt") (auto simp: passes_def)

lemma passes_1: "valid_options opt \<Longrightarrow> passes opt 1"
  by (auto simp: passes_def valid_options_def)

lemma winner_Some:
  assumes "winner m toks = Some i"
  shows "i \<in> set (home m toks)" "first_max (score_of m toks) (home m toks) = Some i"
    "passes (options m) (score_of m toks i)"
  using assms first_max_Some [of "score_of m toks" "home m toks" i]
  by (auto simp: winner_def split: option.splits if_splits)

lemma winner_None:
  assumes "winner m toks = None" "i \<in> set (home m toks)"
  shows "\<not> passes (options m) (score_of m toks i)"
proof -
  have "home m toks \<noteq> []" using assms(2) by auto
  then obtain j where j: "first_max (score_of m toks) (home m toks) = Some j"
    using first_max_None by (metis not_None_eq)
  with assms(1) have "\<not> passes (options m) (score_of m toks j)"
    by (simp add: winner_def split: if_splits)
  moreover have "score_of m toks i \<le> score_of m toks j"
    using first_max_Some [OF j] assms(2) by blast
  ultimately show ?thesis
    using passes_mono by blast
qed

text \<open>The scan of the code finds the winner.\<close>

lemma best_match_loop_from:
  assumes "fmlookup cs i = Some b" "\<forall>j \<in> set js. fmlookup cs j \<noteq> None"
    "\<forall>j c. fmlookup cs j = Some c \<longrightarrow> f j = score (tokens c) toks w"
  shows "best_match_loop cs w toks js (Some (i, Fin (f i), b)) =
    (let k = max_from f i js in Some (k, Fin (f k), the (fmlookup cs k)))"
  using assms(1,2)
proof (induction js arbitrary: i b)
  case Nil
  then show ?case by simp
next
  case (Cons j js)
  then obtain c where c: "fmlookup cs j = Some c" by auto
  with assms(3) have "f j = score (tokens c) toks w" by blast
  with c Cons.prems Cons.IH [of j c] Cons.IH [of i b] show ?case
    by (simp add: similarity_score Let_def)
qed

lemma best_match_loop_first_max:
  assumes "\<forall>j \<in> set js. fmlookup cs j \<noteq> None"
    "\<forall>j c. fmlookup cs j = Some c \<longrightarrow> f j = score (tokens c) toks w"
  shows "best_match_loop cs w toks js None =
    map_option (\<lambda>k. (k, Fin (f k), the (fmlookup cs k))) (first_max f js)"
proof (cases js)
  case (Cons j js')
  with assms(1) obtain c where c: "fmlookup cs j = Some c" by auto
  with assms(2) have "f j = score (tokens c) toks w" by blast
  with Cons c assms best_match_loop_from [OF c, of js' f toks w] show ?thesis
    by (simp add: similarity_score Let_def)
qed simp

text \<open>The part of the state the matching reads: two miners that agree on it have one winner.\<close>

definition same_index :: "'re miner \<Rightarrow> 're miner \<Rightarrow> bool" where
  "same_index m m' \<longleftrightarrow>
     clusters_by_id m' = clusters_by_id m \<and> options m' = options m \<and> bucket m' = bucket m"

lemma same_index_refl [simp]: "same_index m m"
  by (simp add: same_index_def)

lemma same_index_sym: "same_index m m' \<Longrightarrow> same_index m' m"
  by (simp add: same_index_def)

lemma winner_cong:
  assumes "same_index m m'"
  shows "winner m' toks = winner m toks"
proof -
  have "score_of m' toks = score_of m toks"
    using assms by (auto simp: score_of_def same_index_def fun_eq_iff split: option.splits)
  with assms show ?thesis by (simp add: winner_def home_def same_index_def cong: option.case_cong)
qed

lemma above_threshold_best_match:
  assumes inv: "miner_inv m0" and leaf: "ids leaf = home m0 toks"
    and m: "same_index m0 m"
  shows "above_threshold m (best_match m leaf toks) =
    map_option (\<lambda>k. (k, Fin (score_of m0 toks k), the (body_of m0 k))) (winner m0 toks)"
proof -
  have live: "\<forall>j \<in> set (ids leaf). body_of m0 j \<noteq> None"
    using index_okD [OF inv] leaf by (auto simp: home_def)
  have "best_match m leaf toks =
      map_option (\<lambda>k. (k, Fin (score_of m0 toks k), the (body_of m0 k)))
        (first_max (score_of m0 toks) (ids leaf))"
    unfolding best_match_def using m
    by (simp add: same_index_def)
      (intro best_match_loop_first_max live; simp add: score_of_def)
  with m leaf show ?thesis
    by (cases "first_max (score_of m0 toks) (home m0 toks)")
      (simp_all add: above_threshold_def winner_def passes_def same_index_def)
qed

section \<open>Shards\<close>

definition leaf_ids :: "leaf_bucket option \<Rightarrow> u64 list" where
  "leaf_ids l = (case l of None \<Rightarrow> [] | Some leaf \<Rightarrow> ids leaf)"

lemma leaf_ok_new [simp]: "leaf_ok opt (leaf_new (max_clusters_per_leaf opt))"
  by (simp add: leaf_ok_def)

lemma leaf_ids_simps [simp]: "leaf_ids None = []" "leaf_ids (Some l) = ids l"
  by (simp_all add: leaf_ids_def)

lemma bucket_lookup:
  "fmlookup (shards m) n = Some s \<Longrightarrow> bucket m n ks = leaf_ids (descend (root s) ks)"
  by (simp add: bucket_def leaf_ids_def)

lemma bucket_upd:
  "bucket (m\<lparr>shards := fmupd n s (shards m)\<rparr>) k ks =
     (if k = n then leaf_ids (descend (root s) ks) else bucket m k ks)"
  by (simp add: bucket_def leaf_ids_def)

lemma bucket_simps [simp]:
  "bucket (m\<lparr>clusters_by_id := cs\<rparr>) = bucket m" "bucket (m\<lparr>counter := c\<rparr>) = bucket m"
  "bucket (m\<lparr>tick := t\<rparr>) = bucket m"
  by (simp_all add: bucket_def fun_eq_iff)

lemma shape_ok_simps [simp]:
  "shape_ok (m\<lparr>clusters_by_id := cs\<rparr>) = shape_ok m" "shape_ok (m\<lparr>counter := c\<rparr>) = shape_ok m"
  "shape_ok (m\<lparr>tick := t\<rparr>) = shape_ok m"
  by (simp_all add: shape_ok_def)

lemma shape_ok_upd [inv_intros]:
  assumes "shape_ok m" "has_depth (min (prefix_len (options m)) n) (root s)"
    "\<And>ks leaf. descend (root s) ks = Some leaf \<Longrightarrow> leaf_ok (options m) leaf"
  shows "shape_ok (m\<lparr>shards := fmupd n s (shards m)\<rparr>)"
  using assms by (simp add: shape_ok_def)

lemma shape_okD:
  assumes "shape_ok m" "fmlookup (shards m) n = Some s"
  shows "has_depth (min (prefix_len (options m)) n) (root s)"
    "descend (root s) ks = Some leaf \<Longrightarrow> leaf_ok (options m) leaf"
  using assms by (auto simp: shape_ok_def)

lemma shard_for_ok:
  assumes "shape_ok m" "shard_for n m = (s, m0)"
  shows "shape_ok m0" "same_index m m0" "fmlookup (shards m0) n = Some s"
    "counter m0 = counter m" "tick m0 = tick m"
proof -
  have "shape_ok m0 \<and> same_index m m0 \<and> fmlookup (shards m0) n = Some s \<and>
      counter m0 = counter m \<and> tick m0 = tick m"
  proof (cases "fmlookup (shards m) n")
    case None
    with assms(2) have m0: "s = \<lparr>root = new_internal\<rparr>" "m0 = m\<lparr>shards := fmupd n s (shards m)\<rparr>"
      by (auto simp: shard_for_def Let_def)
    then have "bucket m0 k ks = bucket m k ks" for k ks
      using None by (simp add: bucket_upd) (simp add: bucket_def)
    with m0 assms(1) show ?thesis
      by (auto simp: same_index_def fun_eq_iff intro!: shape_ok_upd)
  next
    case (Some s')
    with assms show ?thesis by (simp add: shard_for_def)
  qed
  then show "shape_ok m0" "same_index m m0" "fmlookup (shards m0) n = Some s"
    "counter m0 = counter m" "tick m0 = tick m" by auto
qed

text \<open>
  Growing the tree at the keys of a token vector: no panic, no change of the index, and a leaf
  whose rewriting changes one bucket.
\<close>

lemma grow_leaf:
  assumes shape: "shape_ok m0" and s: "fmlookup (shards m0) n = Some s"
    and keys: "length keys = min (prefix_len (options m0)) n"
  obtains node leaf where
    "descend_or_create (root s) keys (max_clusters_per_leaf (options m0)) = Some node"
    "descend node keys = Some leaf" "leaf_ok (options m0) leaf" "ids leaf = bucket m0 n keys"
    "shape_ok (m0\<lparr>shards := fmupd n \<lparr>root = node\<rparr> (shards m0)\<rparr>)"
    "same_index m0 (m0\<lparr>shards := fmupd n \<lparr>root = node\<rparr> (shards m0)\<rparr>)"
    "\<And>b. has_depth (min (prefix_len (options m0)) n) (write_leaf node keys b)"
    "\<And>b. descend (write_leaf node keys b) = (descend (root s))(keys := Some b)"
proof -
  let ?c = "max_clusters_per_leaf (options m0)"
  from shape_okD(1) [OF shape s] keys obtain node leaf where node:
    "descend_or_create (root s) keys ?c = Some node" "descend node keys = Some leaf"
    "leaf = (case descend (root s) keys of None \<Rightarrow> leaf_new ?c | Some b \<Rightarrow> b)"
    "has_depth (min (prefix_len (options m0)) n) node"
    "\<And>b. has_depth (min (prefix_len (options m0)) n) (write_leaf node keys b)"
    "\<And>b. descend (write_leaf node keys b) = (descend (root s))(keys := Some b)"
    by (rule tree_index.grow_write) blast
  have desc: "descend node ks = (if ks = keys then Some leaf else descend (root s) ks)" for ks
    using tree_index.grow_ok [OF shape_okD(1) [OF shape s] keys, of ?c] node(1,2) by auto
  have leaf: "leaf_ok (options m0) leaf"
    using shape_okD(2) [OF shape s] node(3) by (cases "descend (root s) keys") simp_all
  have lids: "ids leaf = bucket m0 n keys"
    using node(3) by (simp add: bucket_lookup [OF s] split: option.splits)
  have "shape_ok (m0\<lparr>shards := fmupd n \<lparr>root = node\<rparr> (shards m0)\<rparr>)"
    using shape node(4) leaf shape_okD(2) [OF shape s]
    by (intro shape_ok_upd) (auto simp: desc split: if_splits)
  moreover have "same_index m0 (m0\<lparr>shards := fmupd n \<lparr>root = node\<rparr> (shards m0)\<rparr>)"
    using lids by (auto simp: same_index_def fun_eq_iff bucket_upd desc bucket_lookup [OF s])
  ultimately show ?thesis
    using that node leaf lids by blast
qed

section \<open>The two outcomes of an ingest\<close>

definition same_but_shards :: "'re miner \<Rightarrow> 're miner \<Rightarrow> bool" where
  "same_but_shards m m0 \<longleftrightarrow>
     same_index m m0 \<and> shape_ok m0 \<and> counter m0 = counter m \<and> tick m0 = tick m"

lemma add_inner_hit:
  assumes inv: "miner_inv m" and toks: "preprocess replace_all (options m) line = (toks, suffix)"
    and win: "winner m toks = Some i" and b: "body_of m i = Some b"
  obtains m0 where "same_but_shards m m0"
    "add_inner replace_all now line member event_ms m = Some (apply_match now i b toks member event_ms m0)"
proof -
  obtain s m0 where sm: "shard_for (length toks) m = (s, m0)"
    by (cases "shard_for (length toks) m")
  note sf = shard_for_ok [OF miner_invD(2) [OF inv] sm]
  let ?keys = "descent_keys (options m) toks"
  have home: "home m toks = leaf_ids (descend (root s) ?keys)"
    using sf(2) bucket_lookup [OF sf(3), of ?keys] by (simp add: home_def same_index_def)
  with winner_Some(1) [OF win] obtain leaf where leaf: "descend (root s) ?keys = Some leaf"
    by (cases "descend (root s) ?keys") auto
  with home have "ids leaf = home m toks" by simp
  from above_threshold_best_match [OF inv this sf(2)] win b leaf
  have "add_inner replace_all now line member event_ms m =
      Some (apply_match now i b toks member event_ms m0)"
    by (simp add: add_inner_def toks sm Let_def)
  with sf that show ?thesis by (simp add: same_but_shards_def)
qed

lemma add_inner_miss:
  assumes inv: "miner_inv m" and toks: "preprocess replace_all (options m) line = (toks, suffix)"
    and win: "winner m toks = None"
  obtains m1 node leaf old where "same_but_shards m m1"
    "add_inner replace_all now line member event_ms m =
      Some (create_cluster now (length toks) node (descent_keys (options m) toks) leaf toks suffix
        member event_ms m1)"
    "leaf_ok (options m) leaf" "ids leaf = home m toks"
    "\<And>b. has_depth (min (prefix_len (options m)) (length toks))
        (write_leaf node (descent_keys (options m) toks) b)"
    "\<And>b. descend (write_leaf node (descent_keys (options m) toks) b) =
        old(descent_keys (options m) toks := Some b)"
    "\<And>ks. bucket m (length toks) ks = leaf_ids (old ks)"
    "\<And>ks l. old ks = Some l \<Longrightarrow> leaf_ok (options m) l"
proof -
  obtain s m0 where sm: "shard_for (length toks) m = (s, m0)"
    by (cases "shard_for (length toks) m")
  note sf = shard_for_ok [OF miner_invD(2) [OF inv] sm]
  let ?keys = "descent_keys (options m) toks"
  have opt: "options m0 = options m" using sf(2) by (simp add: same_index_def)
  have bk: "bucket m (length toks) ks = leaf_ids (descend (root s) ks)" for ks
    using sf(2) bucket_lookup [OF sf(3), of ks] by (simp add: same_index_def)
  have none: "above_threshold m' (best_match m' leaf toks) = None"
    if "ids leaf = home m toks" "same_index m m'" for m' leaf
    using above_threshold_best_match [OF inv that] win by simp
  obtain node leaf where node:
    "descend_or_create (root s) ?keys (max_clusters_per_leaf (options m)) = Some node"
    "descend node ?keys = Some leaf" "leaf_ok (options m) leaf"
    "ids leaf = bucket m0 (length toks) ?keys"
    "shape_ok (m0\<lparr>shards := fmupd (length toks) \<lparr>root = node\<rparr> (shards m0)\<rparr>)"
    "same_index m0 (m0\<lparr>shards := fmupd (length toks) \<lparr>root = node\<rparr> (shards m0)\<rparr>)"
    "\<And>b. has_depth (min (prefix_len (options m)) (length toks)) (write_leaf node ?keys b)"
    "\<And>b. descend (write_leaf node ?keys b) = (descend (root s))(?keys := Some b)"
    using grow_leaf [OF sf(1) sf(3), of ?keys] opt by auto
  have home: "ids leaf = home m toks"
    using node(4) sf(2) by (simp add: home_def same_index_def)
  let ?m1 = "m0\<lparr>shards := fmupd (length toks) \<lparr>root = node\<rparr> (shards m0)\<rparr>"
  have si: "same_index m ?m1" using sf(2) node(6) by (simp add: same_index_def)
  have "descend (root s) ?keys = Some l \<Longrightarrow> above_threshold m0 (best_match m0 l toks) = None" for l
    using none [OF _ sf(2)] by (simp add: home_def bk)
  then have "add_inner replace_all now line member event_ms m =
      Some (create_cluster now (length toks) node ?keys leaf toks suffix member event_ms ?m1)"
    using none [OF home si] node(1,2)
    by (simp add: add_inner_def toks sm Let_def split: option.splits)
  moreover have "same_but_shards m ?m1"
    using si node(5) sf(4,5) by (simp add: same_but_shards_def)
  ultimately show ?thesis
    using that node(3,7,8) home bk shape_okD(2) [OF sf(1) sf(3)] opt by metis
qed

section \<open>What an ingest does to the index and the bodies\<close>

text \<open>The body after a hit, and the body of a new cluster.\<close>

definition opt_member :: "rstr option \<Rightarrow> cluster_inner \<Rightarrow> cluster_inner" where
  "opt_member member b = (case member of Some x \<Rightarrow> add_member x b | None \<Rightarrow> b)"

definition opt_event :: "u64 option \<Rightarrow> cluster_inner \<Rightarrow> cluster_inner" where
  "opt_event event_ms b = (case event_ms of Some ms \<Rightarrow> observe_event ms b | None \<Rightarrow> b)"

definition hit_body ::
    "u64 \<Rightarrow> systime \<Rightarrow> rstr \<Rightarrow> token list \<Rightarrow> rstr option \<Rightarrow> u64 option \<Rightarrow> cluster_inner \<Rightarrow>
     cluster_inner" where
  "hit_body t now w toks member event_ms b =
     opt_member member (fst (generalize toks w (opt_event event_ms (touch t now b))))"

definition fresh_body ::
    "u64 \<Rightarrow> u64 \<Rightarrow> systime \<Rightarrow> token list \<Rightarrow> rstr option \<Rightarrow> rstr option \<Rightarrow> u64 option \<Rightarrow>
     cluster_inner" where
  "fresh_body i t now toks suffix member event_ms =
     opt_member member ((cluster_new i toks now suffix event_ms)\<lparr>last_used := t\<rparr>)"

lemma opt_member_sel [simp]:
  "body_id (opt_member x b) = body_id b" "tokens (opt_member x b) = tokens b"
  "hits (opt_member x b) = hits b" "created_at (opt_member x b) = created_at b"
  "updated_at_ms (opt_member x b) = updated_at_ms b" "last_used (opt_member x b) = last_used b"
  "event_first_ms (opt_member x b) = event_first_ms b"
  "event_last_ms (opt_member x b) = event_last_ms b"
  "body_suffix (opt_member x b) = body_suffix b"
  by (simp_all add: opt_member_def split: option.splits)

lemma opt_member_members:
  "set (members (opt_member x b)) = set_option x \<union> set (members b)"
  "distinct (members b) \<Longrightarrow> distinct (members (opt_member x b))"
  by (auto simp: opt_member_def add_member_members split: option.splits)

lemma opt_event_sel [simp]:
  "body_id (opt_event e b) = body_id b" "tokens (opt_event e b) = tokens b"
  "hits (opt_event e b) = hits b" "created_at (opt_event e b) = created_at b"
  "updated_at_ms (opt_event e b) = updated_at_ms b" "last_used (opt_event e b) = last_used b"
  "body_suffix (opt_event e b) = body_suffix b" "members (opt_event e b) = members b"
  by (simp_all add: opt_event_def split: option.splits)

lemma hit_body_sel [simp]:
  "body_id (hit_body t now w toks x e b) = body_id b"
  "hits (hit_body t now w toks x e b) = hits b + 1"
  "created_at (hit_body t now w toks x e b) = created_at b"
  "updated_at_ms (hit_body t now w toks x e b) = unix_ms now"
  "last_used (hit_body t now w toks x e b) = t"
  "body_suffix (hit_body t now w toks x e b) = body_suffix b"
  by (simp_all add: hit_body_def)

lemma hit_body_tokens:
  "length (tokens b) = length toks \<Longrightarrow>
     tokens (hit_body t now w toks x e b) = map2 (generalize_token w) (tokens b) toks"
  by (simp add: hit_body_def generalize_tokens)

lemma hit_body_members:
  "set (members (hit_body t now w toks x e b)) = set_option x \<union> set (members b)"
  "distinct (members b) \<Longrightarrow> distinct (members (hit_body t now w toks x e b))"
  by (simp_all add: hit_body_def opt_member_members)

lemma fresh_body_sel [simp]:
  "body_id (fresh_body i t now toks s x e) = i" "tokens (fresh_body i t now toks s x e) = toks"
  "hits (fresh_body i t now toks s x e) = 1" "created_at (fresh_body i t now toks s x e) = now"
  "updated_at_ms (fresh_body i t now toks s x e) = unix_ms now"
  "last_used (fresh_body i t now toks s x e) = t" "body_suffix (fresh_body i t now toks s x e) = s"
  "set (members (fresh_body i t now toks s x e)) = set_option x"
  "distinct (members (fresh_body i t now toks s x e))"
  by (simp_all add: fresh_body_def opt_member_members)

lemma apply_match_eq:
  assumes "length (tokens b) = length toks"
  shows "apply_match now i b toks member event_ms m =
    (\<lparr>cluster_id = i,
      update = if matches_all (tokens b) toks (wildcard (options m)) then Unchanged else TemplateChanged\<rparr>,
     m\<lparr>tick := tick m + 1,
       clusters_by_id := fmupd i (hit_body (tick m) now (wildcard (options m)) toks member event_ms b)
         (clusters_by_id m)\<rparr>)"
proof -
  define b2 where "b2 = opt_event event_ms (touch (tick m) now b)"
  have toks2: "tokens b2 = tokens b" by (simp add: b2_def)
  let ?w = "wildcard (options m)"
  have noop: "generalize toks ?w b2 = (b2, False)" if "matches_all (tokens b) toks ?w"
    using that assms generalize_noop [OF that] toks2
    by (simp add: generalize_def generalize_loop_eq)
  have "would_generalize b2 toks ?w \<longleftrightarrow> \<not> matches_all (tokens b) toks ?w"
    using assms toks2 by (simp add: would_generalize_iff)
  moreover have "snd (generalize toks ?w b2) \<longleftrightarrow> \<not> matches_all (tokens b) toks ?w"
    using assms toks2 by (simp add: generalize_changed)
  ultimately show ?thesis
    using noop
    by (cases "matches_all (tokens b) toks ?w"; cases member; cases "generalize toks ?w b2")
      (simp_all add: apply_match_def hit_body_def next_tick_def opt_member_def
        b2_def [unfolded opt_event_def, symmetric] b2_def [symmetric] Let_def)
qed

text \<open>The least recently used id of a full home bucket, and the ids kept there.\<close>

definition recency_of :: "'re miner \<Rightarrow> u64 \<Rightarrow> u64" where
  "recency_of m i = (case body_of m i of Some b \<Rightarrow> recency b | None \<Rightarrow> 0)"

definition lru :: "'re miner \<Rightarrow> token list \<Rightarrow> u64 option" where
  "lru m toks =
     (if max_clusters_per_leaf (options m) \<le> length (home m toks)
      then min_by_key (recency_of m) (home m toks) else None)"

definition kept :: "'re miner \<Rightarrow> token list \<Rightarrow> u64 list" where
  "kept m toks =
     (case lru m toks of
        None \<Rightarrow> home m toks
      | Some v \<Rightarrow> ids (leaf_remove \<lparr>cap = max_clusters_per_leaf (options m), ids = home m toks\<rparr> v))"

definition drop_opt :: "'k option \<Rightarrow> ('k, 'v) fmap \<Rightarrow> ('k, 'v) fmap" where
  "drop_opt x m = (case x of None \<Rightarrow> m | Some v \<Rightarrow> fmdrop v m)"

lemma drop_opt_lookup [simp]:
  "fmlookup (drop_opt x m) k = (if x = Some k then None else fmlookup m k)"
  by (auto simp: drop_opt_def split: option.splits)

lemma lru_in_home: "lru m toks = Some v \<Longrightarrow> v \<in> set (home m toks)"
  by (auto simp: lru_def dest!: min_by_key_Some split: if_splits)

lemma distinct_home: "shape_ok m \<Longrightarrow> distinct (home m toks)"
  by (simp add: home_def bucket_leaf_ok)

lemma kept_ids:
  assumes "shape_ok m"
  shows "distinct (kept m toks)" "set (kept m toks) = set (home m toks) - set_option (lru m toks)"
  using leaf_remove_ids [of "\<lparr>cap = max_clusters_per_leaf (options m), ids = home m toks\<rparr>"]
    distinct_home [OF assms, of toks]
  by (auto simp: kept_def split: option.splits)

lemma kept_length:
  assumes "shape_ok m" "0 < max_clusters_per_leaf (options m)"
  shows "length (kept m toks) < max_clusters_per_leaf (options m)"
proof (cases "lru m toks")
  case None
  then have "\<not> max_clusters_per_leaf (options m) \<le> length (home m toks)"
    using assms(2) by (auto simp: lru_def split: if_splits)
  with None show ?thesis by (simp add: kept_def)
next
  case (Some v)
  have "length (home m toks) \<le> max_clusters_per_leaf (options m)"
    using bucket_leaf_ok(2) [OF assms(1)] by (simp add: home_def)
  moreover have "0 < length (home m toks)"
    using lru_in_home [OF Some] by (auto simp: length_pos_if_in_set)
  moreover have "length (kept m toks) = length (home m toks) - 1"
    using Some leaf_remove_length [of v "\<lparr>cap = _, ids = home m toks\<rparr>"] lru_in_home [OF Some]
    by (simp add: kept_def)
  ultimately show ?thesis by linarith
qed

lemma evict_if_full_eq:
  assumes "leaf = \<lparr>cap = max_clusters_per_leaf (options m), ids = home m toks\<rparr>"
    "\<And>i. i \<in> set (home m toks) \<Longrightarrow> body_of m3 i = body_of m i"
  shows "evict_if_full leaf m3 =
    (leaf\<lparr>ids := kept m toks\<rparr>, m3\<lparr>clusters_by_id := drop_opt (lru m toks) (clusters_by_id m3)\<rparr>)"
proof -
  have "min_by_key (\<lambda>i. case body_of m3 i of Some a \<Rightarrow> recency a | None \<Rightarrow> 0) (home m toks) =
      min_by_key (recency_of m) (home m toks)"
    using assms(2) by (intro min_by_key_cong) (simp add: recency_of_def)
  then show ?thesis
    by (cases "lru m toks")
      (auto simp: evict_if_full_def is_full_def assms(1) kept_def drop_opt_def lru_def
        leaf_remove_def split: if_splits option.splits)
qed

end
