(* ===== verification/Miner_Step.thy ===== *)
theory Miner_Step
  imports Miner_Inv
begin

text \<open>
  The effect of one ingest, hit or creation, as a relation between the indexes and the id maps
  before and after it, and the preservation of the miner's invariant.  Under the invariant an
  ingest never panics and has exactly these two outcomes (\<open>add_inner_cases\<close>); every
  property of the miner is drawn from them.
\<close>

definition hit_state :: "u64 \<Rightarrow> cluster_inner \<Rightarrow> 're miner \<Rightarrow> 're miner \<Rightarrow> bool" where
  "hit_state i b' m m' \<longleftrightarrow>
     clusters_by_id m' = fmupd i b' (clusters_by_id m) \<and> bucket m' = bucket m \<and> shape_ok m' \<and>
     options m' = options m \<and> counter m' = counter m \<and> tick m' = tick m + 1"

definition create_state :: "cluster_inner \<Rightarrow> token list \<Rightarrow> 're miner \<Rightarrow> 're miner \<Rightarrow> bool" where
  "create_state b' toks m m' \<longleftrightarrow>
     clusters_by_id m' = drop_opt (lru m toks) (fmupd (counter m + 1) b' (clusters_by_id m)) \<and>
     bucket m' = (\<lambda>n ks. if n = length toks \<and> ks = descent_keys (options m) toks
       then kept m toks @ [counter m + 1] else bucket m n ks) \<and>
     shape_ok m' \<and> options m' = options m \<and> counter m' = counter m + 1 \<and> tick m' = tick m + 1"

lemma fresh_id:
  assumes "miner_inv m" "counter m \<noteq> - 1"
  shows "body_of m (counter m + 1) = None" "counter m + 1 \<notin> set (bucket m n ks)"
proof -
  show *: "body_of m (counter m + 1) = None"
  proof (rule ccontr)
    assume "body_of m (counter m + 1) \<noteq> None"
    then have "counter m + 1 \<le> counter m"
      using bodies_okD [OF assms(1)] by auto
    with u64_succ_fresh(1) [OF assms(2) order_refl] show False by simp
  qed
  then show "counter m + 1 \<notin> set (bucket m n ks)"
    by (simp add: index_okD [OF assms(1)])
qed

text \<open>
  The write that both a creation and the replay of a restored cluster make: the leaf, less its
  victim and with the new id behind the others, goes back to its path.
\<close>

lemma write_home:
  fixes m1 :: "'re miner"
  assumes inv: "miner_inv m" and m1: "shape_ok m1" "options m1 = options m" "bucket m1 = bucket m"
    and leaf: "leaf_ok (options m) leaf" "ids leaf = home m toks"
    and node: "\<And>b. has_depth (min (prefix_len (options m)) (length toks))
        (write_leaf node (descent_keys (options m) toks) b)"
      "\<And>b. descend (write_leaf node (descent_keys (options m) toks) b) =
        old(descent_keys (options m) toks := Some b)"
    and old: "\<And>ks. bucket m (length toks) ks = leaf_ids (old ks)"
      "\<And>ks l. old ks = Some l \<Longrightarrow> leaf_ok (options m) l"
    and i: "i \<notin> set (home m toks)"
  defines "m2 \<equiv> m1\<lparr>shards := fmupd (length toks) \<lparr>root = write_leaf node (descent_keys (options m) toks)
      (leaf_insert (leaf\<lparr>ids := kept m toks\<rparr>) i)\<rparr> (shards m1)\<rparr>"
  shows "shape_ok m2"
    "bucket m2 = (\<lambda>n ks. if n = length toks \<and> ks = descent_keys (options m) toks
       then kept m toks @ [i] else bucket m n ks)"
proof -
  note shape = miner_invD(2) [OF inv]
  have "0 < max_clusters_per_leaf (options m)"
    using miner_invD(1) [OF inv] by (simp add: valid_options_def)
  moreover have "i \<notin> set (kept m toks)" using i by (simp add: kept_ids [OF shape])
  ultimately have "leaf_ok (options m) (leaf_insert (leaf\<lparr>ids := kept m toks\<rparr>) i)"
    using leaf kept_length [OF shape, of toks] kept_ids(1) [OF shape, of toks]
    by (simp add: leaf_ok_def)
  then show "shape_ok m2"
    unfolding m2_def using node old(2) m1(1,2)
    by (intro shape_ok_upd) (auto split: if_splits)
  show "bucket m2 = (\<lambda>n ks. if n = length toks \<and> ks = descent_keys (options m) toks
      then kept m toks @ [i] else bucket m n ks)"
    unfolding m2_def using old(1) by (auto simp: fun_eq_iff bucket_upd node(2) m1(3))
qed

lemma create_cluster_state:
  assumes inv: "miner_inv m" and cnt: "counter m \<noteq> - 1" and sb: "same_but_shards m m1"
    and leaf: "leaf_ok (options m) leaf" "ids leaf = home m toks"
    and node: "\<And>b. has_depth (min (prefix_len (options m)) (length toks))
        (write_leaf node (descent_keys (options m) toks) b)"
      "\<And>b. descend (write_leaf node (descent_keys (options m) toks) b) =
        old(descent_keys (options m) toks := Some b)"
    and old: "\<And>ks. bucket m (length toks) ks = leaf_ids (old ks)"
      "\<And>ks l. old ks = Some l \<Longrightarrow> leaf_ok (options m) l"
  obtains m' where "create_cluster now (length toks) node (descent_keys (options m) toks) leaf toks
      suffix member event_ms m1 = (\<lparr>cluster_id = counter m + 1, update = Created\<rparr>, m')"
    "create_state (fresh_body (counter m + 1) (tick m) now toks suffix member event_ms) toks m m'"
proof -
  let ?i = "counter m + 1" and ?keys = "descent_keys (options m) toks" and ?n = "length toks"
  define nb where "nb = fresh_body ?i (tick m) now toks suffix member event_ms"
  from sb have m1: "clusters_by_id m1 = clusters_by_id m" "options m1 = options m"
    "bucket m1 = bucket m" "shape_ok m1" "counter m1 = counter m" "tick m1 = tick m"
    by (simp_all add: same_but_shards_def same_index_def)
  define m3 where "m3 = m1\<lparr>counter := ?i, tick := tick m + 1,
    clusters_by_id := fmupd ?i nb (clusters_by_id m)\<rparr>"
  have absent: "?i \<notin> set (home m toks)"
    using fresh_id(2) [OF inv cnt] by (simp add: home_def)
  have "leaf = \<lparr>cap = max_clusters_per_leaf (options m), ids = home m toks\<rparr>"
    using leaf by (simp add: leaf_ok_def)
  then have ev: "evict_if_full leaf m3 =
      (leaf\<lparr>ids := kept m toks\<rparr>, m3\<lparr>clusters_by_id := drop_opt (lru m toks) (clusters_by_id m3)\<rparr>)"
    using absent by (intro evict_if_full_eq) (auto simp: m3_def)
  define m4 where "m4 = m3\<lparr>clusters_by_id := drop_opt (lru m toks) (clusters_by_id m3)\<rparr>"
  define m' where "m' = m4\<lparr>shards := fmupd ?n
    \<lparr>root = write_leaf node ?keys (leaf_insert (leaf\<lparr>ids := kept m toks\<rparr>) ?i)\<rparr> (shards m4)\<rparr>"
  have "(case member of None \<Rightarrow> x | Some y \<Rightarrow> add_member y x) = opt_member member x" for x
    by (simp add: opt_member_def)
  then have create: "create_cluster now ?n node ?keys leaf toks suffix member event_ms m1 =
      (\<lparr>cluster_id = ?i, update = Created\<rparr>, m')"
    using ev by (simp add: create_cluster_def next_tick_def m1 Let_def nb_def fresh_body_def
        m3_def m4_def m'_def)
  have m4: "shape_ok m4" "options m4 = options m" "bucket m4 = bucket m"
    using m1(2-4) by (simp_all add: m4_def m3_def)
  have "create_state nb toks m m'"
    using write_home [OF inv m4 leaf node old absent] m4(2)
    by (simp add: create_state_def m'_def) (simp add: m4_def m3_def)
  with create show ?thesis using that by (simp add: nb_def)
qed

lemma add_inner_cases:
  assumes inv: "miner_inv m" and cnt: "counter m \<noteq> - 1"
    and toks: "preprocess replace_all (options m) line = (toks, suffix)"
  obtains
    (hit) i b m' where "winner m toks = Some i" "body_of m i = Some b"
      "placed (options m) (length toks) (descent_keys (options m) toks) b"
      "add_inner replace_all now line member event_ms m =
        Some (\<lparr>cluster_id = i,
          update = if matches_all (tokens b) toks (wildcard (options m)) then Unchanged
            else TemplateChanged\<rparr>, m')"
      "hit_state i (hit_body (tick m) now (wildcard (options m)) toks member event_ms b) m m'"
  | (create) m' where "winner m toks = None"
      "add_inner replace_all now line member event_ms m =
        Some (\<lparr>cluster_id = counter m + 1, update = Created\<rparr>, m')"
      "create_state (fresh_body (counter m + 1) (tick m) now toks suffix member event_ms) toks m m'"
proof (cases "winner m toks")
  case None
  obtain m1 node leaf old where c: "same_but_shards m m1"
    "add_inner replace_all now line member event_ms m =
      Some (create_cluster now (length toks) node (descent_keys (options m) toks) leaf toks suffix
        member event_ms m1)"
    "leaf_ok (options m) leaf" "ids leaf = home m toks"
    "\<And>b. has_depth (min (prefix_len (options m)) (length toks))
        (write_leaf node (descent_keys (options m) toks) b)"
    "\<And>b. descend (write_leaf node (descent_keys (options m) toks) b) =
        old(descent_keys (options m) toks := Some b)"
    "\<And>ks. bucket m (length toks) ks = leaf_ids (old ks)"
    "\<And>ks l. old ks = Some l \<Longrightarrow> leaf_ok (options m) l"
    using add_inner_miss [OF inv toks None] by metis
  show ?thesis
    by (rule create_cluster_state [OF inv cnt c(1,3-7)], erule c(8), rule create [OF None])
      (simp_all add: c(2))
next
  case (Some i)
  obtain b where b: "body_of m i = Some b"
      "placed (options m) (length toks) (descent_keys (options m) toks) b"
    using winner_Some(1) [OF Some] index_okD [OF inv] by (auto simp: home_def)
  obtain m0 where m0: "same_but_shards m m0"
    "add_inner replace_all now line member event_ms m = Some (apply_match now i b toks member event_ms m0)"
    using add_inner_hit [OF inv toks Some b(1)] by metis
  have "length (tokens b) = length toks" using b(2) by (simp add: placed_def)
  from apply_match_eq [OF this, of now i member event_ms m0] m0 have
    "add_inner replace_all now line member event_ms m =
      Some (\<lparr>cluster_id = i,
        update = if matches_all (tokens b) toks (wildcard (options m)) then Unchanged
          else TemplateChanged\<rparr>,
        m0\<lparr>tick := tick m + 1, clusters_by_id := fmupd i
          (hit_body (tick m) now (wildcard (options m)) toks member event_ms b) (clusters_by_id m)\<rparr>)"
    by (simp add: same_but_shards_def same_index_def)
  from hit [OF Some b this] m0(1) show ?thesis
    by (simp add: hit_state_def same_but_shards_def same_index_def)
qed

section \<open>The invariant\<close>

lemma placed_hit_body:
  assumes "placed opt (length toks) (descent_keys opt toks) b"
  shows "placed opt n ks (hit_body t now (wildcard opt) toks member event_ms b) \<longleftrightarrow> placed opt n ks b"
  using assms by (auto simp: placed_def hit_body_tokens descent_keys_generalize)

lemma hit_state_inv [inv_intros]:
  assumes inv: "miner_inv m" and b: "body_of m i = Some b"
    and pl: "placed (options m) (length toks) (descent_keys (options m) toks) b"
    and st: "hit_state i (hit_body t now (wildcard (options m)) toks member event_ms b) m m'"
  shows "miner_inv m'"
proof -
  have "index_ok m'"
    using st b index_okD [OF inv] placed_hit_body [OF pl]
    by (auto simp: index_ok_def hit_state_def split: if_splits)
  moreover have "bodies_ok m'"
    using st b bodies_okD [OF inv] by (auto simp: bodies_ok_def hit_state_def hit_body_members)
  ultimately show ?thesis
    using st miner_invD(1) [OF inv] by (simp add: miner_inv_def hit_state_def)
qed

text \<open>
  A new cluster enters its home bucket behind the ids kept there, and the least recently used one
  leaves when the bucket is full.  Both a creation and the replay of a restored cluster do this.
\<close>

definition admit_state :: "cluster_inner \<Rightarrow> 're miner \<Rightarrow> 're miner \<Rightarrow> bool" where
  "admit_state b m m' \<longleftrightarrow>
     clusters_by_id m' = drop_opt (lru m (tokens b)) (fmupd (body_id b) b (clusters_by_id m)) \<and>
     bucket m' = (\<lambda>n ks. if n = length (tokens b) \<and> ks = descent_keys (options m) (tokens b)
       then kept m (tokens b) @ [body_id b] else bucket m n ks) \<and>
     shape_ok m' \<and> options m' = options m"

lemma admit_state_index:
  assumes inv: "miner_inv m" and new: "body_of m (body_id b) = None" and st: "admit_state b m m'"
  shows "index_ok m'"
  unfolding index_ok_def
proof (intro allI)
  fix n ks j
  let ?toks = "tokens b"
  have absent: "body_id b \<notin> set (bucket m n ks)" for n ks
    using new by (simp add: index_okD [OF inv])
  have cs: "body_of m' j = (if lru m ?toks = Some j then None
      else if j = body_id b then Some b else body_of m j)" for j
    using st by (simp add: admit_state_def)
  have ne: "lru m ?toks \<noteq> Some (body_id b)"
    using lru_in_home [of m ?toks "body_id b"] absent by (auto simp: home_def)
  show "j \<in> set (bucket m' n ks) \<longleftrightarrow> (\<exists>b. body_of m' j = Some b \<and> placed (options m') n ks b)"
  proof (cases "n = length ?toks \<and> ks = descent_keys (options m) ?toks")
    case True
    then have "set (bucket m' n ks) = insert (body_id b) (set (home m ?toks) - set_option (lru m ?toks))"
      using st kept_ids(2) [OF miner_invD(2) [OF inv], of ?toks] by (simp add: admit_state_def)
    with True st cs ne index_okD [OF inv, of _ n ks] show ?thesis
      by (auto simp: home_def admit_state_def placed_def)
  next
    case False
    then have "bucket m' n ks = bucket m n ks"
      using st by (auto simp: admit_state_def)
    moreover have "v \<notin> set (bucket m n ks)" if "lru m ?toks = Some v" for v
      using False lru_in_home [OF that] index_okD [OF inv] by (auto simp: home_def placed_def)
    ultimately show ?thesis
      using False st cs new absent index_okD [OF inv, of j n ks]
      by (auto simp: admit_state_def placed_def)
  qed
qed

lemma admit_state_inv:
  assumes inv: "miner_inv m" and new: "body_of m (body_id b) = None" and st: "admit_state b m m'"
    and cnt: "counter m \<le> counter m'"
    and b: "0 < body_id b" "body_id b \<le> counter m'" "distinct (members b)"
  shows "miner_inv m'"
proof -
  have "body_of m' j = (if lru m (tokens b) = Some j then None
      else if j = body_id b then Some b else body_of m j)" for j
    using st by (simp add: admit_state_def)
  then have "bodies_ok m'"
    using b cnt bodies_okD [OF inv] by (fastforce simp: bodies_ok_def split: if_splits)
  with admit_state_index [OF inv new st] st miner_invD(1) [OF inv] show ?thesis
    by (simp add: miner_inv_def admit_state_def)
qed

lemma create_state_inv [inv_intros]:
  assumes inv: "miner_inv m" and cnt: "counter m \<noteq> - 1"
    and st: "create_state (fresh_body (counter m + 1) t now toks suffix member event_ms) toks m m'"
  shows "miner_inv m'"
proof (rule admit_state_inv [OF inv])
  let ?b = "fresh_body (counter m + 1) t now toks suffix member event_ms"
  show "body_of m (body_id ?b) = None" using fresh_id(1) [OF inv cnt] by simp
  show "admit_state ?b m m'" using st unfolding create_state_def admit_state_def fresh_body_sel by blast
  show "counter m \<le> counter m'"
    using st u64_succ_greater [OF cnt] by (simp add: create_state_def word_le_nat_alt)
  show "0 < body_id ?b" using u64_succ_greater [OF cnt] by (simp add: word_less_nat_alt)
  show "body_id ?b \<le> counter m'" using st by (simp add: create_state_def)
qed simp

lemma add_inner_inv:
  assumes "miner_inv m" "counter m \<noteq> - 1"
  obtains r m' where "add_inner replace_all now line member event_ms m = Some (r, m')" "miner_inv m'"
    "options m' = options m" "tick m' = tick m + 1"
proof -
  obtain toks suffix where toks: "preprocess replace_all (options m) line = (toks, suffix)"
    by (cases "preprocess replace_all (options m) line")
  show ?thesis
  proof (cases rule: add_inner_cases [OF assms toks, of now member event_ms])
    case (1 i b m')
    then show ?thesis
      using that hit_state_inv [OF assms(1)] by (simp add: hit_state_def)
  next
    case (2 m')
    then show ?thesis
      using that create_state_inv [OF assms] by (simp add: create_state_def)
  qed
qed

lemma miner_inv_from_options:
  assumes "valid_options opt"
  shows "miner_inv (from_options opt)"
  using assms
  by (simp add: miner_inv_def shape_ok_def index_ok_def bodies_ok_def from_options_def bucket_def)

end
