(* ===== verification/Miner_Query.thy ===== *)
theory Miner_Query
  imports Miner_Step
begin

text \<open>
  The queries of the miner and how they agree with the ingest: what \<^verbatim>\<open>match_only\<close>
  returns, that it predicts \<^verbatim>\<open>add\<close>, that an ingested line is found again, that
  \<^verbatim>\<open>extract\<close> gives back the line, and which cluster an ingest evicts.
\<close>

definition line_tokens :: "('re \<Rightarrow> rstr \<Rightarrow> rstr \<Rightarrow> cow) \<Rightarrow> 're options \<Rightarrow> rstr \<Rightarrow> token list" where
  "line_tokens replace_all opt line = fst (preprocess replace_all opt line)"

lemma tokens_for_query_eq:
  "tokens_for_query opt (cow_str (apply_masks replace_all line (masks opt))) =
     line_tokens replace_all opt line"
  by (simp add: tokens_for_query_def line_tokens_def preprocess_def Let_def split: prod.splits)

lemma match_only_winner:
  assumes inv: "miner_inv m"
  shows "match_only replace_all line m = winner m (line_tokens replace_all (options m) line)"
proof -
  let ?toks = "line_tokens replace_all (options m) line"
  let ?keys = "descent_keys (options m) ?toks"
  show ?thesis
  proof (cases "fmlookup (shards m) (length ?toks)")
    case None
    then show ?thesis
      by (simp add: match_only_def tokens_for_query_eq winner_def home_def bucket_def Let_def)
  next
    case (Some s)
    show ?thesis
    proof (cases "descend (root s) ?keys")
      case None
      with Some show ?thesis
        by (simp add: match_only_def tokens_for_query_eq winner_def home_def bucket_def Let_def)
    next
      case (Some leaf)
      with \<open>fmlookup (shards m) (length ?toks) = Some s\<close> have "ids leaf = home m ?toks"
        by (simp add: home_def bucket_def)
      from above_threshold_best_match [OF inv this same_index_refl] Some
        \<open>fmlookup (shards m) (length ?toks) = Some s\<close>
      show ?thesis
        by (simp add: match_only_def tokens_for_query_eq Let_def option.map_comp comp_def option.map_ident)
    qed
  qed
qed

section \<open>After an ingest the line has a winner\<close>

lemma score_of_body:
  "body_of m i = Some b \<Longrightarrow> score_of m toks i = score (tokens b) toks (wildcard (options m))"
  by (simp add: score_of_def)

lemma hit_state_winner:
  assumes inv: "miner_inv m" and win: "winner m toks = Some i" and b: "body_of m i = Some b"
    and pl: "placed (options m) (length toks) (descent_keys (options m) toks) b"
    and st: "hit_state i (hit_body t now (wildcard (options m)) toks member event_ms b) m m'"
  shows "winner m' toks = Some i"
proof -
  let ?b' = "hit_body t now (wildcard (options m)) toks member event_ms b"
  have len: "length (tokens b) = length toks" using pl by (simp add: placed_def)
  have b': "body_of m' i = Some ?b'" "options m' = options m" "home m' toks = home m toks"
    using st by (simp_all add: hit_state_def home_def)
  have one: "score_of m' toks i = 1"
    using b' len generalize_matches [OF len]
    by (simp add: score_of_body hit_body_tokens score_full)
  have "first_max (score_of m' toks) (home m toks) = Some i"
  proof (rule first_max_raise [OF winner_Some(2) [OF win]])
    show "distinct (home m toks)" by (rule distinct_home [OF miner_invD(2) [OF inv]])
    show "score_of m toks i \<le> score_of m' toks i"
      using one score_range by (simp add: score_of_body [OF b])
    show "score_of m' toks j = score_of m toks j" if "j \<noteq> i" for j
      using that st by (simp add: score_of_def hit_state_def split: option.splits)
  qed
  with one b' passes_1 [OF miner_invD(1) [OF inv]] show ?thesis
    by (simp add: winner_def)
qed

lemma create_state_winner:
  assumes inv: "miner_inv m" and cnt: "counter m \<noteq> - 1" and win: "winner m toks = None"
    and st: "create_state (fresh_body (counter m + 1) t now toks suffix member event_ms) toks m m'"
  shows "winner m' toks = Some (counter m + 1)"
    "body_of m' (counter m + 1) = Some (fresh_body (counter m + 1) t now toks suffix member event_ms)"
proof -
  let ?i = "counter m + 1"
  have "lru m toks \<noteq> Some ?i"
    using lru_in_home [of m toks ?i] fresh_id(2) [OF inv cnt] by (auto simp: home_def)
  with st show b: "body_of m' ?i = Some (fresh_body ?i t now toks suffix member event_ms)"
    by (simp add: create_state_def)
  have opt: "options m' = options m" using st by (simp add: create_state_def)
  have home: "home m' toks = kept m toks @ [?i]"
    using st by (simp add: create_state_def home_def)
  have one: "score_of m' toks ?i = 1"
    using b by (simp add: score_of_body score_full matches_all_refl)
  have "score_of m' toks j < 1" if j: "j \<in> set (kept m toks)" for j
  proof -
    have jh: "j \<in> set (home m toks)" "lru m toks \<noteq> Some j"
      using j kept_ids(2) [OF miner_invD(2) [OF inv], of toks] by auto
    then have "j \<noteq> ?i" using fresh_id(2) [OF inv cnt] by (auto simp: home_def)
    with jh st have "score_of m' toks j = score_of m toks j"
      by (simp add: score_of_def create_state_def split: option.splits)
    moreover have "\<not> 1 \<le> score_of m toks j"
      using winner_None [OF win jh(1)] passes_mono passes_1 [OF miner_invD(1) [OF inv]] by blast
    ultimately show ?thesis by simp
  qed
  then have "first_max (score_of m' toks) (home m' toks) = Some ?i"
    by (simp only: home) (rule first_max_snoc, simp add: one)
  with one opt passes_1 [OF miner_invD(1) [OF inv]] show "winner m' toks = Some ?i"
    by (simp add: winner_def)
qed

text \<open>The cluster a line was added to is its winner afterwards, and matches it everywhere.\<close>

lemma add_inner_winner:
  assumes inv: "miner_inv m" and cnt: "counter m \<noteq> - 1"
    and add: "add_inner replace_all now line member event_ms m = Some (r, m')"
  shows "miner_inv m' \<and> options m' = options m \<and>
    winner m' (line_tokens replace_all (options m) line) = Some (cluster_id r) \<and>
    (\<exists>b. body_of m' (cluster_id r) = Some b \<and>
      matches_all (tokens b) (line_tokens replace_all (options m) line) (wildcard (options m)))"
proof -
  obtain toks suffix where toks: "preprocess replace_all (options m) line = (toks, suffix)"
    by (cases "preprocess replace_all (options m) line")
  then have lt: "line_tokens replace_all (options m) line = toks" by (simp add: line_tokens_def)
  show ?thesis
  proof (cases rule: add_inner_cases [OF inv cnt toks, of now member event_ms])
    case (1 i b m'')
    then have len: "length (tokens b) = length toks" by (simp add: placed_def)
    from 1 add have "cluster_id r = i" "m' = m''" by auto
    with 1 hit_state_winner [OF inv 1(1-3,5)] hit_state_inv [OF inv 1(2,3,5)] lt
      generalize_matches [OF len]
    show ?thesis by (simp add: hit_state_def hit_body_tokens [OF len])
  next
    case (2 m'')
    from 2 add have "cluster_id r = counter m + 1" "m' = m''" by auto
    with 2 create_state_winner [OF inv cnt 2(1,3)] create_state_inv [OF inv cnt 2(3)] lt
    show ?thesis by (simp add: create_state_def matches_all_refl)
  qed
qed

lemma match_add_agree:
  assumes "miner_inv m" "counter m \<noteq> - 1"
  shows "\<exists>r m'. add_inner replace_all now line member event_ms m = Some (r, m') \<and>
    (case match_only replace_all line m of
       Some i \<Rightarrow> cluster_id r = i \<and> update r \<noteq> Created \<and> counter m' = counter m
     | None \<Rightarrow> r = \<lparr>cluster_id = counter m + 1, update = Created\<rparr> \<and> counter m' = counter m + 1)"
proof -
  obtain toks suffix where toks: "preprocess replace_all (options m) line = (toks, suffix)"
    by (cases "preprocess replace_all (options m) line")
  show ?thesis
    by (cases rule: add_inner_cases [OF assms toks, of now member event_ms])
      (auto simp: match_only_winner [OF assms(1)] line_tokens_def toks hit_state_def create_state_def)
qed

section \<open>Extraction\<close>

text \<open>Filling the wildcards of a template with parameters, in order.\<close>

fun fill :: "rstr \<Rightarrow> token list \<Rightarrow> rstr list \<Rightarrow> rstr list" where
  "fill w [] ps = []"
| "fill w (t # ts) ps =
     (if tok_text t = w then
        (case ps of [] \<Rightarrow> tok_text t # fill w ts [] | p # ps' \<Rightarrow> p # fill w ts ps')
      else tok_text t # fill w ts ps)"

lemma fill_extract_loop:
  assumes "matches_all ts toks w"
  shows "fill w ts (extract_loop w ts toks) = map tok_text toks"
proof -
  have "list_all2 (\<lambda>t tok. tok_text t = w \<or> tok_text t = tok_text tok) ts toks"
    using assms by (simp add: matches_all_def)
  then show ?thesis by (induction ts toks rule: list_all2_induct) auto
qed

section \<open>Properties\<close>

text \<open>A regular expression library that never matches, for the concrete instances below.\<close>

definition no_match :: "'re \<Rightarrow> rstr \<Rightarrow> rstr \<Rightarrow> cow" where
  "no_match re s p = Borrowed s"

definition fresh_miner :: "unit miner" where
  "fresh_miner = from_options default_options"

lemma fresh_miner_ok: "miner_inv fresh_miner" "counter fresh_miner \<noteq> - 1"
  unfolding fresh_miner_def
  by (rule miner_inv_from_options [OF valid_default_options]) (simp add: from_options_def)

text \<open>
  C1.  An ingested line is found again.  In a state that satisfies the invariant, ingesting a line
  (with or without a member or an event time) does not panic, keeps the invariant, and a
  \<^verbatim>\<open>match_only\<close> of the same line afterwards returns the id the ingest returned,
  whatever the similarity of the line to the other clusters of the leaf and whatever was evicted.
\<close>

theorem add_then_match:
  assumes "miner_inv m" "counter m \<noteq> - 1"
  shows "\<exists>r m'. add_inner replace_all now line member event_ms m = Some (r, m') \<and>
    miner_inv m' \<and> match_only replace_all line m' = Some (cluster_id r)"
proof -
  obtain r m' where add: "add_inner replace_all now line member event_ms m = Some (r, m')"
    using add_inner_inv [OF assms] by metis
  from add_inner_winner [OF assms add] match_only_winner [of m'] add show ?thesis by auto
qed

theorem add_then_match_witness:
  "\<exists>r m'. add no_match 0 (str ''user 42 logged in'') fresh_miner = Some (r, m') \<and>
     match_only no_match (str ''user 42 logged in'') m' = Some (cluster_id r)"
  using add_then_match [OF fresh_miner_ok, of no_match 0 "str ''user 42 logged in'' " None None]
  unfolding add_def by blast

text \<open>
  C22.  \<^verbatim>\<open>match_only\<close> predicts \<^verbatim>\<open>add\<close>: it returns an id exactly when
  an ingest of the line would hit that cluster, and nothing exactly when an ingest would create a
  cluster, whose id is then the successor of the counter.
\<close>

theorem match_only_predicts_add:
  assumes "miner_inv m" "counter m \<noteq> - 1"
  shows "\<exists>r m'. add_inner replace_all now line member event_ms m = Some (r, m') \<and>
    (case match_only replace_all line m of
       Some i \<Rightarrow> cluster_id r = i \<and> update r \<noteq> Created \<and> counter m' = counter m
     | None \<Rightarrow> r = \<lparr>cluster_id = counter m + 1, update = Created\<rparr> \<and> counter m' = counter m + 1)"
  using assms by (rule match_add_agree)

theorem match_only_predicts_add_witness:
  "match_only no_match (str ''a b'') fresh_miner = None \<and>
   (\<exists>m'. add_inner no_match 0 (str ''a b'') None None fresh_miner =
     Some (\<lparr>cluster_id = 1, update = Created\<rparr>, m'))"
proof -
  have "match_only no_match (str ''a b'') fresh_miner = None"
    by (simp add: match_only_def fresh_miner_def from_options_def Let_def)
  with match_only_predicts_add [OF fresh_miner_ok, of no_match 0 "str ''a b'' " None None]
  show ?thesis by (auto simp: fresh_miner_def from_options_def)
qed

text \<open>
  C9.  \<^verbatim>\<open>match_only\<close> is exact: the id it returns is a live cluster of the line's
  token count and descent keys, at or above the threshold, with the greatest similarity among
  all such clusters; and it returns nothing only when every one of them is below the threshold.
\<close>

theorem match_only_best:
  assumes "miner_inv m"
  shows "let opt = options m;
       toks = line_tokens replace_all opt line;
       candidate = (\<lambda>i b. body_of m i = Some b \<and> placed opt (length toks) (descent_keys opt toks) b);
       sim = (\<lambda>b. similarity (tokens b) toks (wildcard opt))
     in case match_only replace_all line m of
       Some i \<Rightarrow> (\<exists>b. candidate i b \<and> f64_le (sim_threshold opt) (sim b) \<and>
         (\<forall>j c. candidate j c \<longrightarrow> f64_le (sim c) (sim b)))
     | None \<Rightarrow> (\<forall>j c. candidate j c \<longrightarrow> \<not> f64_le (sim_threshold opt) (sim c))"
proof -
  let ?toks = "line_tokens replace_all (options m) line"
  have cand: "j \<in> set (home m ?toks)"
    if "body_of m j = Some c" "placed (options m) (length ?toks) (descent_keys (options m) ?toks) c"
    for j c
    using that index_okD [OF assms] by (auto simp: home_def)
  show ?thesis
  proof (cases "winner m ?toks")
    case None
    have "\<not> f64_le (sim_threshold (options m)) (Fin (score (tokens c) ?toks (wildcard (options m))))"
      if "body_of m j = Some c"
        "placed (options m) (length ?toks) (descent_keys (options m) ?toks) c" for j c
      using winner_None [OF None cand [OF that]] that(1) by (simp add: passes_def score_of_body)
    then show ?thesis
      by (auto simp: match_only_winner [OF assms] None Let_def similarity_score)
  next
    case (Some i)
    obtain b where b: "body_of m i = Some b"
        "placed (options m) (length ?toks) (descent_keys (options m) ?toks) b"
      using winner_Some(1) [OF Some] index_okD [OF assms] by (auto simp: home_def)
    have best: "score_of m ?toks j \<le> score_of m ?toks i" if "j \<in> set (home m ?toks)" for j
      using first_max_Some [OF winner_Some(2) [OF Some]] that by blast
    have "score (tokens c) ?toks (wildcard (options m)) \<le> score (tokens b) ?toks (wildcard (options m))"
      if "body_of m j = Some c"
        "placed (options m) (length ?toks) (descent_keys (options m) ?toks) c" for j c
      using best [OF cand [OF that]] that(1) b(1) by (simp add: score_of_body)
    with b winner_Some(3) [OF Some] show ?thesis
      by (auto simp: match_only_winner [OF assms] Some Let_def similarity_score passes_def score_of_body)
  qed
qed

theorem match_only_best_witness:
  "\<exists>r m' b. add_inner no_match 0 (str ''a b'') None None fresh_miner = Some (r, m') \<and>
     match_only no_match (str ''a b'') m' = Some (cluster_id r) \<and> body_of m' (cluster_id r) = Some b \<and>
     f64_le (sim_threshold (options m'))
       (similarity (tokens b) (line_tokens no_match (options m') (str ''a b'')) (wildcard (options m')))"
proof -
  obtain r m' where add: "add_inner no_match 0 (str ''a b'') None None fresh_miner = Some (r, m')"
    using add_inner_inv [OF fresh_miner_ok] by metis
  from add_inner_winner [OF fresh_miner_ok add] have m': "miner_inv m'"
    "match_only no_match (str ''a b'') m' = Some (cluster_id r)"
    by (simp_all add: match_only_winner)
  from match_only_best [OF m'(1), of no_match "str ''a b'' "] m'(2) add show ?thesis
    by (auto simp: Let_def)
qed

text \<open>
  C10.  Extraction is the inverse of the template.  After a line has been ingested, \<^verbatim>\<open>extract\<close> of it
  returns the id the ingest returned and parameters that, filled into the wildcards of that
  cluster's template, give back the token texts of the line exactly.
\<close>

theorem extract_rebuilds_line:
  assumes "miner_inv m" "counter m \<noteq> - 1"
  shows "\<exists>r m' b params. add_inner replace_all now line member event_ms m = Some (r, m') \<and>
    body_of m' (cluster_id r) = Some b \<and>
    miner_extract replace_all line m' = Some (cluster_id r, params) \<and>
    fill (wildcard (options m)) (tokens b) params =
      map tok_text (line_tokens replace_all (options m) line)"
proof -
  obtain r m' where add: "add_inner replace_all now line member event_ms m = Some (r, m')"
    using add_inner_inv [OF assms] by metis
  from add_inner_winner [OF assms add] obtain b where w: "miner_inv m'" "options m' = options m"
    "winner m' (line_tokens replace_all (options m) line) = Some (cluster_id r)"
    "body_of m' (cluster_id r) = Some b"
    "matches_all (tokens b) (line_tokens replace_all (options m) line) (wildcard (options m))" by auto
  then show ?thesis
    using add match_only_winner [OF w(1), of replace_all line] fill_extract_loop [OF w(5)]
    by (auto simp: miner_extract_def Let_def tokens_for_query_eq)
qed

theorem extract_rebuilds_line_witness:
  "\<exists>r m' b params. add_inner no_match 0 (str ''user 42'') None None fresh_miner = Some (r, m') \<and>
     body_of m' (cluster_id r) = Some b \<and>
     miner_extract no_match (str ''user 42'') m' = Some (cluster_id r, params) \<and>
     fill (str ''<*>'') (tokens b) params = [str ''user'', str ''42'']"
proof -
  have "map tok_text (line_tokens no_match (options fresh_miner) (str ''user 42'')) =
      [str ''user'', str ''42'']"
    by (simp add: line_tokens_def preprocess_def fresh_miner_def from_options_def default_options_def
        apply_masks_def active_path_delimiters_def tokenize_with_no_delims split_whitespace_def
        is_whitespace_def)
  moreover have "wildcard (options fresh_miner) = str ''<*>''"
    by (simp add: fresh_miner_def from_options_def default_options_def)
  ultimately show ?thesis
    using extract_rebuilds_line [OF fresh_miner_ok, of no_match 0 "str ''user 42'' " None None]
    by metis
qed

end
