(* ===== verification/Runs.thy ===== *)
theory Runs
  imports Main
begin

text \<open>
  Runs of a fallible operation on a state: a command list is executed in order, the results are
  collected, and the first failure stops the run.  The locale \<open>stepper\<close> is the contract a
  caller of such an operation relies on: with a budget of commands left, the operation succeeds
  and uses up one of them.  The miner's ingest provides it (theory \<open>Ingest\<close>).
\<close>

fun run :: "('c \<Rightarrow> 's \<Rightarrow> ('r \<times> 's) option) \<Rightarrow> 'c list \<Rightarrow> 's \<Rightarrow> ('r list \<times> 's) option" where
  "run step [] s = Some ([], s)"
| "run step (c # cs) s =
     (case step c s of
        None \<Rightarrow> None
      | Some (r, s') \<Rightarrow>
          (case run step cs s' of None \<Rightarrow> None | Some (rs, s'') \<Rightarrow> Some (r # rs, s'')))"

lemma run_append:
  "run step (cs @ ds) s =
     (case run step cs s of
        None \<Rightarrow> None
      | Some (rs, s') \<Rightarrow>
          (case run step ds s' of None \<Rightarrow> None | Some (rs', s'') \<Rightarrow> Some (rs @ rs', s'')))"
  by (induction cs arbitrary: s) (auto split: option.splits)

lemma run_length: "run step cs s = Some (rs, s') \<Longrightarrow> length rs = length cs"
  by (induction cs arbitrary: s rs) (auto split: option.splits)

locale stepper =
  fixes inv :: "nat \<Rightarrow> 's \<Rightarrow> bool"
    and step :: "'c \<Rightarrow> 's \<Rightarrow> ('r \<times> 's) option"
  assumes step_ok: "inv (Suc n) s \<Longrightarrow> \<exists>r s'. step c s = Some (r, s') \<and> inv n s'"
begin

lemma step_inv: "inv (Suc n) s \<Longrightarrow> step c s = Some (r, s') \<Longrightarrow> inv n s'"
  using step_ok [of n s c] by auto

lemma run_total:
  "inv (length cs + n) s \<Longrightarrow> \<exists>rs s'. run step cs s = Some (rs, s') \<and> inv n s'"
proof (induction cs arbitrary: s)
  case (Cons c cs)
  from Cons.prems obtain r s' where "step c s = Some (r, s')" "inv (length cs + n) s'"
    using step_ok [of "length cs + n" s c] by auto
  with Cons.IH [of s'] show ?case by auto
qed simp

text \<open>A property of the history so far, kept by every step, holds at the end of the run.\<close>

lemma run_history:
  assumes "inv (length cs + n) s" "P cs0 rs0 s" "run step cs s = Some (rs, s')"
    and keep: "\<And>cs rs s c r s' k. inv (Suc k) s \<Longrightarrow> P cs rs s \<Longrightarrow> step c s = Some (r, s') \<Longrightarrow>
      P (cs @ [c]) (rs @ [r]) s'"
  shows "P (cs0 @ cs) (rs0 @ rs) s'"
  using assms(1-3)
proof (induction cs arbitrary: s cs0 rs0 rs)
  case (Cons c cs)
  from Cons.prems(3) obtain r s1 rs1 where s1: "step c s = Some (r, s1)"
    "run step cs s1 = Some (rs1, s')" "rs = r # rs1"
    by (auto split: option.splits)
  have "P (cs0 @ [c]) (rs0 @ [r]) s1"
    using Cons.prems(1,2) s1(1) by (intro keep [of "length cs + n"]) auto
  moreover have "inv (length cs + n) s1"
    using Cons.prems(1) s1(1) by (auto intro: step_inv)
  ultimately show ?case
    using Cons.IH [OF _ _ s1(2), of "cs0 @ [c]" "rs0 @ [r]"] s1(3) by simp
qed simp

end

end
