(* ===== verification/Ingest.thy ===== *)
theory Ingest
  imports Miner_Query Runs
begin

text \<open>
  Runs of the miner from its construction: a list of ingest commands is executed in order.  The
  history invariant relates every live cluster to the lines that were assigned to it
  (\<open>summarizes\<close>): whatever the interleaving with other clusters and evictions, a body is a
  function of its own lines alone.
\<close>

record ingest_cmd =
  cmd_at :: systime
  cmd_line :: rstr
  cmd_member :: "rstr option"
  cmd_event :: "u64 option"

definition ingest_step ::
    "('re \<Rightarrow> rstr \<Rightarrow> rstr \<Rightarrow> cow) \<Rightarrow> ingest_cmd \<Rightarrow> 're miner \<Rightarrow> (add_result \<times> 're miner) option" where
  "ingest_step replace_all c m =
     add_inner replace_all (cmd_at c) (cmd_line c) (cmd_member c) (cmd_event c) m"

text \<open>The invariant with room left in the id counter for a number of ingests.\<close>

definition budget :: "nat \<Rightarrow> 're miner \<Rightarrow> bool" where
  "budget n m \<longleftrightarrow> miner_inv m \<and> unat (counter m) + n < 2 ^ 64"

lemma budget_counter: "budget (Suc n) m \<Longrightarrow> miner_inv m \<and> counter m \<noteq> - 1"
  by (auto simp: budget_def unsigned_minus_1_eq_mask mask_eq_exp_minus_1)

lemma budget_step:
  assumes "budget (Suc n) m"
  shows "\<exists>r m'. ingest_step replace_all c m = Some (r, m') \<and> budget n m'"
proof -
  from budget_counter [OF assms] have inv: "miner_inv m" "counter m \<noteq> - 1" by auto
  from match_add_agree [OF inv, of replace_all "cmd_at c" "cmd_line c" "cmd_member c" "cmd_event c"]
  obtain r m' where rm: "ingest_step replace_all c m = Some (r, m')"
    "counter m' = counter m \<or> counter m' = counter m + 1"
    by (auto simp: ingest_step_def split: option.splits)
  obtain r2 m2 where "ingest_step replace_all c m = Some (r2, m2)" "miner_inv m2"
    using add_inner_inv [OF inv] unfolding ingest_step_def by metis
  with rm u64_succ_greater [OF inv(2)] assms show ?thesis
    by (auto simp: budget_def)
qed

interpretation miner_runs: stepper budget "ingest_step replace_all" for replace_all
  by unfold_locales (rule budget_step)

lemma budget_start:
  "valid_options opt \<Longrightarrow> n < 2 ^ 64 \<Longrightarrow> budget n (from_options opt)"
  by (simp add: budget_def miner_inv_from_options) (simp add: from_options_def)

section \<open>The lines of a cluster\<close>

definition assigned :: "u64 \<Rightarrow> ingest_cmd list \<Rightarrow> add_result list \<Rightarrow> ingest_cmd list" where
  "assigned i cs rs = map fst (filter (\<lambda>(c, r). cluster_id r = i) (zip cs rs))"

lemma assigned_snoc:
  "length cs = length rs \<Longrightarrow>
     assigned i (cs @ [c]) (rs @ [r]) = assigned i cs rs @ (if cluster_id r = i then [c] else [])"
  by (simp add: assigned_def)

lemma assigned_Nil_iff:
  "length cs = length rs \<Longrightarrow> assigned i cs rs = [] \<longleftrightarrow> (\<forall>r \<in> set rs. cluster_id r \<noteq> i)"
  by (induction cs rs rule: list_induct2) (auto simp: assigned_def)

text \<open>The position of the last line of a cluster.\<close>

definition last_pos :: "u64 \<Rightarrow> add_result list \<Rightarrow> nat" where
  "last_pos i rs = last (filter (\<lambda>k. cluster_id (rs ! k) = i) [0..<length rs])"

lemma last_pos_snoc:
  "last_pos i (rs @ [r]) = (if cluster_id r = i then length rs else last_pos i rs)"
proof -
  have "filter (\<lambda>k. cluster_id ((rs @ [r]) ! k) = i) [0..<length rs] =
      filter (\<lambda>k. cluster_id (rs ! k) = i) [0..<length rs]"
    by (rule filter_cong) (simp_all add: nth_append)
  then show ?thesis by (simp add: last_pos_def)
qed

lemma last_pos_hit:
  assumes "\<exists>r \<in> set rs. cluster_id r = i"
  shows "last_pos i rs < length rs \<and> cluster_id (rs ! last_pos i rs) = i"
proof -
  let ?l = "filter (\<lambda>k. cluster_id (rs ! k) = i) [0..<length rs]"
  from assms obtain k where "k < length rs" "cluster_id (rs ! k) = i"
    by (auto simp: in_set_conv_nth)
  then have "k \<in> set ?l" by simp
  then have "?l \<noteq> []" by (metis empty_iff list.set(1))
  then have "last ?l \<in> set ?l" by (rule last_in_set)
  then show ?thesis by (simp add: last_pos_def)
qed

definition cmd_events :: "ingest_cmd list \<Rightarrow> u64 list" where
  "cmd_events cs = concat (map (opt_list \<circ> cmd_event) cs)"

text \<open>
  What a body says of the lines that were assigned to its cluster, the first of which created
  it.
\<close>

definition summarizes ::
    "('re \<Rightarrow> rstr \<Rightarrow> rstr \<Rightarrow> cow) \<Rightarrow> 're options \<Rightarrow> ingest_cmd list \<Rightarrow> cluster_inner \<Rightarrow> bool" where
  "summarizes replace_all opt cs b \<longleftrightarrow>
     (let w = wildcard opt; toks = (\<lambda>c. line_tokens replace_all opt (cmd_line c)) in
      cs \<noteq> [] \<and>
      template_of w (tokens b) =
        join_all (map (template_of w \<circ> toks) (tl cs)) (template_of w (toks (hd cs))) \<and>
      map leading_delim (tokens b) = map leading_delim (toks (hd cs)) \<and>
      map trailing_delim (tokens b) = map trailing_delim (toks (hd cs)) \<and>
      list_all (\<lambda>c. matches_all (tokens b) (toks c) w) cs \<and>
      hits b = of_nat (length cs) \<and>
      set (members b) = (\<Union>c \<in> set cs. set_option (cmd_member c)) \<and>
      created_at b = cmd_at (hd cs) \<and> updated_at_ms b = unix_ms (cmd_at (last cs)) \<and>
      event_first_ms b = Min (insert EVENT_UNSET (set (cmd_events cs))) \<and>
      event_last_ms b = Max (insert 0 (set (cmd_events cs))) \<and>
      body_suffix b = snd (preprocess replace_all opt (cmd_line (hd cs))))"

lemma set_opt_list [simp]: "set (opt_list e) = set_option e"
  by (cases e) simp_all

lemma event_window_opt:
  "event_first_ms (opt_event e b) = Min (insert (event_first_ms b) (set_option e))"
  "event_last_ms (opt_event e b) = Max (insert (event_last_ms b) (set_option e))"
  by (cases e; simp add: opt_event_def max.commute min.commute)+

lemma summarizes_fresh:
  assumes "preprocess replace_all opt (cmd_line c) = (toks, suffix)"
  shows "summarizes replace_all opt [c]
    (fresh_body i t (cmd_at c) toks suffix (cmd_member c) (cmd_event c))"
proof -
  have "event_first_ms (fresh_body i t now toks suffix x e) = Min (insert EVENT_UNSET (set_option e))"
    "event_last_ms (fresh_body i t now toks suffix x e) = Max (insert 0 (set_option e))"
    for now x e
    by (cases e; simp add: fresh_body_def cluster_new_def EVENT_UNSET_def)+
  then show ?thesis
    using assms by (simp add: summarizes_def Let_def line_tokens_def matches_all_refl cmd_events_def)
qed

lemma cmd_events_snoc: "cmd_events (cs @ [c]) = cmd_events cs @ opt_list (cmd_event c)"
  by (simp add: cmd_events_def)

lemma Min_insert_union:
  "finite A \<Longrightarrow> finite B \<Longrightarrow> Min (insert (Min (insert x A)) B) = Min (insert (x :: 'a::linorder) (A \<union> B))"
  by (cases "A = {}"; cases "B = {}") (simp_all add: Min_Un min.assoc)

lemma Max_insert_union:
  "finite A \<Longrightarrow> finite B \<Longrightarrow> Max (insert (Max (insert x A)) B) = Max (insert (x :: 'a::linorder) (A \<union> B))"
  by (cases "A = {}"; cases "B = {}") (simp_all add: Max_Un max.assoc)

lemma finite_set_option [simp]: "finite (set_option x)"
  by (cases x) simp_all

lemma hit_body_events:
  "event_first_ms (hit_body t now w toks x e b) = Min (insert (event_first_ms b) (set_option e))"
  "event_last_ms (hit_body t now w toks x e b) = Max (insert (event_last_ms b) (set_option e))"
  by (simp_all add: hit_body_def event_window_opt)

lemma summarizes_hit:
  assumes sm: "summarizes replace_all opt cs b"
    and toks: "preprocess replace_all opt (cmd_line c) = (toks, suffix)"
    and len: "length (tokens b) = length toks"
  shows "summarizes replace_all opt (cs @ [c])
    (hit_body t (cmd_at c) (wildcard opt) toks (cmd_member c) (cmd_event c) b)"
proof -
  let ?w = "wildcard opt"
  let ?b' = "hit_body t (cmd_at c) ?w toks (cmd_member c) (cmd_event c) b"
  have lt: "line_tokens replace_all opt (cmd_line c) = toks"
    using toks by (simp add: line_tokens_def)
  have tmpl: "template_of ?w (tokens ?b') = join (template_of ?w (tokens b)) (template_of ?w toks)"
    by (simp add: hit_body_tokens [OF len] generalize_template)
  have "template_le (template_of ?w (tokens b)) (template_of ?w (tokens ?b'))"
    using join_upper [of "template_of ?w (tokens b)" "template_of ?w toks"] len by (simp add: tmpl)
  then have keep: "matches_all (tokens b) ts ?w \<Longrightarrow> matches_all (tokens ?b') ts ?w" for ts
    unfolding matches_all_template using template_le_trans by blast
  have here: "matches_all (tokens ?b') toks ?w"
    by (simp add: hit_body_tokens [OF len] generalize_matches [OF len])
  have flags: "map leading_delim (tokens ?b') = map leading_delim (tokens b)"
    "map trailing_delim (tokens ?b') = map trailing_delim (tokens b)"
    by (simp_all only: hit_body_tokens [OF len] generalize_flags [OF len])
  have ne: "cs \<noteq> []" using sm by (simp add: summarizes_def Let_def)
  have "list_all (\<lambda>c. matches_all (tokens ?b') (line_tokens replace_all opt (cmd_line c)) ?w) (cs @ [c])"
    using sm keep here by (auto simp: summarizes_def Let_def lt list_all_iff)
  moreover have "template_of ?w (tokens ?b') =
      join_all (map (template_of ?w \<circ> (\<lambda>c. line_tokens replace_all opt (cmd_line c))) (tl (cs @ [c])))
        (template_of ?w (line_tokens replace_all opt (cmd_line (hd (cs @ [c])))))"
    using sm ne by (simp add: summarizes_def Let_def tmpl lt join_all_snoc)
  ultimately show ?thesis
    using sm ne
    by (simp add: summarizes_def Let_def hit_body_members hit_body_events cmd_events_snoc
        Min_insert_union Max_insert_union Un_commute flags)
qed

section \<open>The history invariant\<close>

definition created_count :: "add_result list \<Rightarrow> nat" where
  "created_count rs = length (filter (\<lambda>r. update r = Created) rs)"

definition history ::
    "('re \<Rightarrow> rstr \<Rightarrow> rstr \<Rightarrow> cow) \<Rightarrow> 're options \<Rightarrow> ingest_cmd list \<Rightarrow> add_result list \<Rightarrow>
     're miner \<Rightarrow> bool" where
  "history replace_all opt cs rs m \<longleftrightarrow>
     length cs = length rs \<and> options m = opt \<and>
     counter m = of_nat (created_count rs) \<and> tick m = of_nat (length rs) \<and>
     (\<forall>r \<in> set rs. cluster_id r \<le> counter m) \<and>
     (\<forall>i b. body_of m i = Some b \<longrightarrow>
        summarizes replace_all opt (assigned i cs rs) b \<and> last_used b = of_nat (last_pos i rs))"

lemma history_start: "history replace_all opt [] [] (from_options opt)"
  by (simp add: history_def from_options_def created_count_def)

lemma history_step:
  assumes inv: "miner_inv m" and cnt: "counter m \<noteq> - 1"
    and h: "history replace_all opt cs rs m"
    and step: "ingest_step replace_all c m = Some (r, m')"
  shows "history replace_all opt (cs @ [c]) (rs @ [r]) m'"
proof -
  from h have hd: "length cs = length rs" "options m = opt" "counter m = of_nat (created_count rs)"
    "tick m = of_nat (length rs)" "\<forall>r \<in> set rs. cluster_id r \<le> counter m"
    and hb: "\<And>i b. body_of m i = Some b \<Longrightarrow>
      summarizes replace_all opt (assigned i cs rs) b \<and> last_used b = of_nat (last_pos i rs)"
    unfolding history_def by blast+
  obtain toks suffix where toks: "preprocess replace_all opt (cmd_line c) = (toks, suffix)"
    by (cases "preprocess replace_all opt (cmd_line c)")
  from add_inner_cases [OF inv cnt toks [folded hd(2)], of "cmd_at c" "cmd_member c" "cmd_event c"]
  show ?thesis
  proof cases
    case (1 i b m'')
    with step 1 have r: "cluster_id r = i" "update r \<noteq> Created" "m' = m''"
      by (auto simp: ingest_step_def split: if_splits)
    have "length (tokens b) = length toks" using 1(3) by (simp add: placed_def)
    from summarizes_hit [OF _ toks this] hb [OF 1(2)] hd(2)
    have "summarizes replace_all opt (assigned i cs rs @ [c])
        (hit_body (tick m) (cmd_at c) (wildcard (options m)) toks (cmd_member c) (cmd_event c) b)"
      by simp
    moreover have "i \<le> counter m" using bodies_okD [OF inv 1(2)] by simp
    ultimately show ?thesis
      using r 1(5) hd hb
      by (auto simp: history_def hit_state_def assigned_snoc last_pos_snoc created_count_def)
  next
    case (2 m'')
    let ?i = "counter m + 1"
    from 2 step have r: "cluster_id r = ?i" "update r = Created" "m' = m''"
      by (auto simp: ingest_step_def)
    have "\<forall>r \<in> set rs. cluster_id r \<noteq> ?i"
      using hd(5) u64_succ_fresh(1) [OF cnt] by (metis less_irrefl)
    then have none: "assigned ?i cs rs = []"
      using assigned_Nil_iff [OF hd(1)] by blast
    have "body_of m' j = Some b \<Longrightarrow> summarizes replace_all opt (assigned j (cs @ [c]) (rs @ [r])) b \<and>
        last_used b = of_nat (last_pos j (rs @ [r]))" for j b
      using 2(3) r hb [of j b] none summarizes_fresh [OF toks, of ?i "tick m"] hd
      by (auto simp: create_state_def assigned_snoc last_pos_snoc split: if_splits)
    then show ?thesis
      using r 2(3) hd u64_succ_fresh(2) [OF cnt]
      by (auto simp: history_def create_state_def created_count_def)
  qed
qed

lemma history_run:
  assumes "valid_options opt" "length cs < 2 ^ 64"
    "run (ingest_step replace_all) cs (from_options opt) = Some (rs, m)"
  shows "miner_inv m \<and> history replace_all opt cs rs m"
proof -
  have b: "budget (length cs + 0) (from_options opt)"
    using budget_start [OF assms(1,2)] by simp
  have "history replace_all opt ([] @ cs) ([] @ rs) m"
    by (rule miner_runs.run_history [where P = "history replace_all opt", OF b history_start assms(3)])
      (blast dest: budget_counter intro: history_step)
  moreover have "budget 0 m"
    using miner_runs.run_total [OF b, of replace_all] assms(3) by auto
  ultimately show ?thesis by (simp add: budget_def)
qed

section \<open>Consequences\<close>

lemma created_count_le: "created_count rs \<le> length rs"
  by (simp add: created_count_def)

lemma summarizes_ne: "summarizes replace_all opt cs b \<Longrightarrow> cs \<noteq> []"
  by (simp add: summarizes_def Let_def)

lemma assigned_length: "length cs = length rs \<Longrightarrow>
    length (assigned i cs rs) = length (filter (\<lambda>r. cluster_id r = i) rs)"
  by (induction cs rs rule: list_induct2) (simp_all add: assigned_def)

lemma assigned_append:
  "length cs = length rs \<Longrightarrow> assigned i (cs @ ds) (rs @ rs') = assigned i cs rs @ assigned i ds rs'"
  by (simp add: assigned_def)

lemma history_body:
  assumes "history replace_all opt cs rs m" "body_of m i = Some b" "length cs < 2 ^ 64"
  shows "summarizes replace_all opt (assigned i cs rs) b"
    "unat (hits b) = length (assigned i cs rs)"
    "unat (last_used b) = last_pos i rs" "last_pos i rs < length rs"
    "cluster_id (rs ! last_pos i rs) = i"
proof -
  have len: "length cs = length rs" using assms(1) unfolding history_def by blast
  show sm: "summarizes replace_all opt (assigned i cs rs) b"
    using assms(1,2) unfolding history_def by blast
  have lu: "last_used b = of_nat (last_pos i rs)"
    using assms(1,2) unfolding history_def by blast
  have "length (assigned i cs rs) < 2 ^ 64"
    using assms(3) len by (simp add: assigned_length) (meson le_less_trans length_filter_le)
  then show "unat (hits b) = length (assigned i cs rs)"
    using sm by (simp add: summarizes_def Let_def unat_of_nat)
  have "\<exists>r \<in> set rs. cluster_id r = i"
    using summarizes_ne [OF sm] assigned_Nil_iff [OF len, of i] by blast
  from last_pos_hit [OF this] show lp: "last_pos i rs < length rs" "cluster_id (rs ! last_pos i rs) = i"
    by auto
  with assms(3) len lu show "unat (last_used b) = last_pos i rs"
    by (simp add: unat_of_nat)
qed

text \<open>Recency orders the live clusters as their last lines.\<close>

lemma recency_history:
  assumes h: "history replace_all opt cs rs m" "length cs < 2 ^ 64"
    and b: "body_of m i = Some b" "body_of m j = Some c"
  shows "recency_of m i \<le> recency_of m j \<longleftrightarrow> last_pos i rs \<le> last_pos j rs"
  using history_body(3) [OF h(1) b(1) h(2)] history_body(3) [OF h(1) b(2) h(2)] b
  by (simp add: recency_of_def recency_def word_le_nat_alt)

definition evicted :: "'re miner \<Rightarrow> 're miner \<Rightarrow> u64 \<Rightarrow> bool" where
  "evicted m m' i \<longleftrightarrow> body_of m i \<noteq> None \<and> body_of m' i = None"

lemma evicted_lru:
  assumes inv: "miner_inv m" and cnt: "counter m \<noteq> - 1"
    and add: "add_inner replace_all now line member event_ms m = Some (r, m')"
  shows "evicted m m' v \<longleftrightarrow> update r = Created \<and> lru m (line_tokens replace_all (options m) line) = Some v"
proof -
  obtain toks suffix where toks: "preprocess replace_all (options m) line = (toks, suffix)"
    by (cases "preprocess replace_all (options m) line")
  show ?thesis
  proof (cases rule: add_inner_cases [OF inv cnt toks, of now member event_ms])
    case (1 i b m'')
    with add show ?thesis
      by (auto simp: evicted_def hit_state_def split: if_splits)
  next
    case (2 m'')
    have "lru m toks = Some v \<Longrightarrow> body_of m v \<noteq> None"
      using lru_in_home [of m toks v] index_okD [OF inv] by (auto simp: home_def)
    with 2 add toks show ?thesis
      by (auto simp: evicted_def create_state_def line_tokens_def)
  qed
qed

end
