(* ===== verification/Ingest_Props.thy ===== *)
theory Ingest_Props
  imports Ingest
begin

text \<open>
  The properties of whole runs of the miner, from its construction with valid options: no panic,
  the refinement of a body to the lines of its cluster, the numbering of the ids, the eviction
  policy, the capacity of a leaf, the accounting of the lines and the monotonicity of templates.
\<close>

section \<open>A concrete run\<close>

definition plain_cmd :: "systime \<Rightarrow> rstr \<Rightarrow> ingest_cmd" where
  "plain_cmd t s = \<lparr>cmd_at = t, cmd_line = s, cmd_member = None, cmd_event = None\<rparr>"

definition small_options :: "unit options" where
  "small_options = default_options\<lparr>depth := 2, max_clusters_per_leaf := 1, sim_threshold := Fin 1\<rparr>"

definition small_run :: "(add_result list \<times> unit miner) option" where
  "small_run = run (ingest_step no_match) [plain_cmd 0 (str ''a''), plain_cmd 1 (str ''a'')]
     (from_options small_options)"

lemma valid_small_options: "valid_options small_options"
  using valid_default_options by (auto simp: valid_options_def small_options_def)

lemma small_run_evicts:
  "case small_run of
     Some (rs, m) \<Rightarrow>
       rs = [\<lparr>cluster_id = 1, update = Created\<rparr>, \<lparr>cluster_id = 1, update = Unchanged\<rparr>] \<and>
       body_of m 1 \<noteq> None \<and>
       (case ingest_step no_match (plain_cmd 2 (str ''b'')) m of
          Some (r, m') \<Rightarrow> evicted m m' 1
        | None \<Rightarrow> False)
   | None \<Rightarrow> False"
  by code_simp

lemma small_run_Some:
  obtains m r m' where "run (ingest_step no_match)
      [plain_cmd 0 (str ''a''), plain_cmd 1 (str ''a'')] (from_options small_options) =
      Some ([\<lparr>cluster_id = 1, update = Created\<rparr>, \<lparr>cluster_id = 1, update = Unchanged\<rparr>], m)"
    "body_of m 1 \<noteq> None"
    "ingest_step no_match (plain_cmd 2 (str ''b'')) m = Some (r, m')" "evicted m m' 1"
  using small_run_evicts by (auto simp: small_run_def split: option.splits prod.splits)

lemma small_run_two:
  obtains m where "run (ingest_step no_match)
      [plain_cmd 0 (str ''a''), plain_cmd 1 (str ''a'')] (from_options small_options) =
      Some ([\<lparr>cluster_id = 1, update = Created\<rparr>, \<lparr>cluster_id = 1, update = Unchanged\<rparr>], m)"
    "body_of m 1 \<noteq> None"
  by (rule small_run_Some)

section \<open>Properties\<close>

text \<open>
  C3.  No run panics.  From a miner built with valid options, any sequence of fewer than
  \<open>2\<close> to the 64 ingests succeeds, with one result each, in a state that satisfies the invariant
  and whose id counter is the number of clusters created; the new ids are one, two, three and so
  on, so no id is ever used twice.
\<close>

theorem run_safe:
  assumes "valid_options opt" "length cs < 2 ^ 64"
  shows "\<exists>rs m. run (ingest_step replace_all) cs (from_options opt) = Some (rs, m) \<and>
    length rs = length cs \<and> miner_inv m \<and> unat (counter m) = created_count rs \<and>
    map cluster_id (filter (\<lambda>r. update r = Created) rs) =
      map (\<lambda>k. of_nat (Suc k)) [0..<created_count rs]"
proof -
  define numbered where "numbered rs \<longleftrightarrow> map cluster_id (filter (\<lambda>r. update r = Created) rs) =
      map (\<lambda>k. of_nat (Suc k)) [0..<created_count rs]" for rs
  have b: "budget (length cs + 0) (from_options opt)"
    using budget_start [OF assms] by simp
  obtain rs m where run: "run (ingest_step replace_all) cs (from_options opt) = Some (rs, m)"
    using miner_runs.run_total [OF b] by blast
  have len: "length rs = length cs" by (rule run_length [OF run])
  have h: "miner_inv m" "history replace_all opt cs rs m"
    using history_run [OF assms run] by auto
  then have "counter m = of_nat (created_count rs)" unfolding history_def by blast
  then have cnt: "unat (counter m) = created_count rs"
    using created_count_le [of rs] len assms(2) by (simp add: unat_of_nat)
  have "history replace_all opt ([] @ cs) ([] @ rs) m \<and> numbered ([] @ rs)"
  proof (rule miner_runs.run_history [OF b _ run])
    show "history replace_all opt [] [] (from_options opt) \<and> numbered []"
      by (simp add: history_start numbered_def created_count_def)
    fix cs rs and s :: "'a miner" and c r s' k
    assume s: "budget (Suc k) s" "history replace_all opt cs rs s \<and> numbered rs"
      "ingest_step replace_all c s = Some (r, s')"
    from budget_counter [OF s(1)] have inv: "miner_inv s" "counter s \<noteq> - 1" by auto
    have "counter s = of_nat (created_count rs)" using s(2) unfolding history_def by blast
    moreover have "update r = Created \<Longrightarrow> cluster_id r = counter s + 1"
      using match_add_agree [OF inv, of replace_all "cmd_at c" "cmd_line c" "cmd_member c" "cmd_event c"]
        s(3) by (auto simp: ingest_step_def split: option.splits)
    ultimately have "numbered (rs @ [r])"
      using s(2) by (auto simp: numbered_def created_count_def add.commute)
    with s inv show "history replace_all opt (cs @ [c]) (rs @ [r]) s' \<and> numbered (rs @ [r])"
      by (blast intro: history_step)
  qed
  with run len h cnt show ?thesis by (auto simp: numbered_def)
qed

theorem run_safe_witness:
  "\<exists>rs m. run (ingest_step no_match) [plain_cmd 0 (str ''a''), plain_cmd 1 (str ''a'')]
     (from_options small_options) = Some (rs, m) \<and> length rs = 2 \<and> miner_inv m"
  using run_safe [OF valid_small_options,
      of "[plain_cmd 0 (str ''a''), plain_cmd 1 (str ''a'')]" no_match]
  by auto

text \<open>
  C2.  A cluster is a function of its own lines.  After any run, the body of a live cluster is determined
  by the lines that were assigned to it, in order, whatever happened to the others: its template is the join of
  their token vectors and matches each of them at every position, its size is their number, its
  members are the labels supplied with them, each once, its event window is the least and the
  greatest event time supplied, it was created at the clock of the first and updated at that of
  the last, and its suffix is that of the first.
\<close>

theorem cluster_summarizes_lines:
  assumes "valid_options opt" "length cs < 2 ^ 64"
    "run (ingest_step replace_all) cs (from_options opt) = Some (rs, m)" "body_of m i = Some b"
  shows "summarizes replace_all opt (assigned i cs rs) b \<and>
    unat (hits b) = length (assigned i cs rs) \<and> distinct (members b) \<and> body_id b = i"
proof -
  have h: "miner_inv m" "history replace_all opt cs rs m"
    using history_run [OF assms(1-3)] by auto
  from history_body(1,2) [OF h(2) assms(4,2)] bodies_okD [OF h(1) assms(4)] show ?thesis by simp
qed

theorem cluster_summarizes_lines_witness:
  "\<exists>rs m b. run (ingest_step no_match) [plain_cmd 0 (str ''a''), plain_cmd 1 (str ''a'')]
       (from_options small_options) = Some (rs, m) \<and> body_of m 1 = Some b \<and> unat (hits b) = 2"
proof -
  obtain m where run: "run (ingest_step no_match)
      [plain_cmd 0 (str ''a''), plain_cmd 1 (str ''a'')] (from_options small_options) =
      Some ([\<lparr>cluster_id = 1, update = Created\<rparr>, \<lparr>cluster_id = 1, update = Unchanged\<rparr>], m)"
    "body_of m 1 \<noteq> None" by (rule small_run_two)
  then obtain b where b: "body_of m 1 = Some b" by auto
  from cluster_summarizes_lines [OF valid_small_options _ run(1) b] have "unat (hits b) = 2"
    by (simp add: assigned_def)
  with run b show ?thesis by blast
qed

text \<open>The least recently used cluster of a leaf is the one whose last line is oldest.\<close>

lemma lru_oldest:
  assumes h: "miner_inv m" "history replace_all opt cs rs m" and lcs: "length cs < 2 ^ 64"
    and v: "min_by_key (recency_of m) (home m toks) = Some v" and j: "j \<in> set (home m toks)" "j \<noteq> v"
  shows "last_pos v rs < last_pos j rs"
proof -
  have min: "v \<in> set (home m toks)" "recency_of m v \<le> recency_of m j"
    using min_by_key_Some [OF v] j(1) by auto
  obtain b1 b2 where b: "body_of m v = Some b1" "body_of m j = Some b2"
    using min(1) j(1) index_okD [OF h(1)] by (auto simp: home_def)
  have "last_pos v rs \<le> last_pos j rs"
    using min(2) recency_history [OF h(2) lcs b] by blast
  moreover have "last_pos v rs \<noteq> last_pos j rs"
    using history_body(5) [OF h(2) b(1) lcs] history_body(5) [OF h(2) b(2) lcs] j(2) by metis
  ultimately show ?thesis by simp
qed

lemma history_counter_room:
  assumes "history replace_all opt cs rs m" "Suc (length cs) < 2 ^ 64"
  shows "counter m \<noteq> - 1"
proof -
  have "length cs = length rs" "counter m = of_nat (created_count rs)"
    using assms(1) unfolding history_def by blast+
  then have "unat (counter m) < 2 ^ 64 - 1"
    using created_count_le [of rs] assms(2) by (simp add: unat_of_nat)
  then show ?thesis by (auto simp: unsigned_minus_1_eq_mask mask_eq_exp_minus_1)
qed

text \<open>
  C4.  Eviction is least recently used.  An ingest evicts at most one cluster, and only when it
  creates one and the leaf of the line is full; the victim is a cluster of that leaf, and the
  last line of the victim is older than the last line of every other cluster of the leaf.
\<close>

theorem eviction_is_lru:
  assumes "valid_options opt" "Suc (length cs) < 2 ^ 64"
    "run (ingest_step replace_all) cs (from_options opt) = Some (rs, m)"
    "ingest_step replace_all c m = Some (r, m')" "evicted m m' v"
  shows "let leaf = home m (line_tokens replace_all opt (cmd_line c)) in
    update r = Created \<and> length leaf = max_clusters_per_leaf opt \<and> v \<in> set leaf \<and>
    (\<forall>j \<in> set leaf. j \<noteq> v \<longrightarrow> last_pos v rs < last_pos j rs) \<and>
    (\<forall>j. evicted m m' j \<longrightarrow> j = v)"
proof -
  have lcs: "length cs < 2 ^ 64" using assms(2) by simp
  have h: "miner_inv m" "history replace_all opt cs rs m"
    using history_run [OF assms(1) lcs assms(3)] by auto
  then have opt: "options m = opt" unfolding history_def by blast
  let ?toks = "line_tokens replace_all opt (cmd_line c)"
  have ev: "evicted m m' j \<longleftrightarrow> update r = Created \<and> lru m ?toks = Some j" for j
    using evicted_lru [OF h(1) history_counter_room [OF h(2) assms(2)]] assms(4)
    by (simp add: ingest_step_def opt)
  with assms(5) have v: "update r = Created" "lru m ?toks = Some v" by simp_all
  then have full: "max_clusters_per_leaf opt \<le> length (home m ?toks)"
    "min_by_key (recency_of m) (home m ?toks) = Some v"
    by (auto simp: lru_def opt split: if_splits)
  moreover have "length (home m ?toks) \<le> max_clusters_per_leaf opt"
    using bucket_leaf_ok(2) [OF miner_invD(2) [OF h(1)]] by (simp add: home_def opt)
  ultimately show ?thesis
    using v ev lru_in_home [OF v(2)] lru_oldest [OF h lcs full(2)] by (simp add: Let_def)
qed

theorem eviction_is_lru_witness:
  "\<exists>m r m'. run (ingest_step no_match) [plain_cmd 0 (str ''a''), plain_cmd 1 (str ''a'')]
       (from_options small_options) =
       Some ([\<lparr>cluster_id = 1, update = Created\<rparr>, \<lparr>cluster_id = 1, update = Unchanged\<rparr>], m) \<and>
     ingest_step no_match (plain_cmd 2 (str ''b'')) m = Some (r, m') \<and> evicted m m' 1 \<and>
     update r = Created"
proof -
  obtain m r m' where w: "run (ingest_step no_match)
      [plain_cmd 0 (str ''a''), plain_cmd 1 (str ''a'')] (from_options small_options) =
      Some ([\<lparr>cluster_id = 1, update = Created\<rparr>, \<lparr>cluster_id = 1, update = Unchanged\<rparr>], m)"
    "ingest_step no_match (plain_cmd 2 (str ''b'')) m = Some (r, m')" "evicted m m' 1"
    by (rule small_run_Some)
  from eviction_is_lru [OF valid_small_options _ w] have "update r = Created"
    by (simp add: Let_def)
  with w show ?thesis by blast
qed



lemma listing_sizes:
  assumes "valid_options opt" "length cs < 2 ^ 64"
    "run (ingest_step replace_all) cs (from_options opt) = Some (rs, m)"
    "distinct order" "set order = fmdom' (clusters_by_id m)"
  shows "map pub_id (clusters order m) = order \<and>
    sum_list (map (unat \<circ> pub_size) (clusters order m)) =
      length (filter (\<lambda>r. body_of m (cluster_id r) \<noteq> None) rs)"
proof -
  have h: "miner_inv m" "history replace_all opt cs rs m"
    using history_run [OF assms(1-3)] by auto
  have len: "length cs = length rs" using h(2) unfolding history_def by blast
  have live: "\<exists>b. body_of m i = Some b" if "i \<in> set order" for i
    using that assms(5) by (simp add: fmlookup_dom'_iff)
  have pub: "pub_id (to_public b) = body_id b" "pub_size (to_public b) = hits b" for b
    by (simp_all add: to_public_def Let_def)
  have listing: "map pub_id (clusters os m) = os \<and>
      sum_list (map (unat \<circ> pub_size) (clusters os m)) =
        length (filter (\<lambda>r. cluster_id r \<in> set os) rs)"
    if "set os \<subseteq> set order" "distinct os" for os
    using that
  proof (induction os)
    case Nil
    then show ?case by (simp add: clusters_def List.map_filter_simps)
  next
    case (Cons i os)
    obtain b where b: "body_of m i = Some b" using live [of i] Cons.prems by auto
    have cl: "clusters (i # os) m = to_public b # clusters os m"
      using b by (simp add: clusters_def List.map_filter_simps)
    have "length (filter (\<lambda>r. cluster_id r \<in> set (i # os)) rs) =
        length (filter (\<lambda>r. cluster_id r = i) rs) + length (filter (\<lambda>r. cluster_id r \<in> set os) rs)"
      using Cons.prems(2) by (induction rs) auto
    with Cons b cl pub history_body(2) [OF h(2) b assms(2)] bodies_okD [OF h(1) b]
      assigned_length [OF len, of i]
    show ?case by simp
  qed
  have "filter (\<lambda>r. cluster_id r \<in> set order) rs = filter (\<lambda>r. body_of m (cluster_id r) \<noteq> None) rs"
    using assms(5) by (simp add: fmlookup_dom'_iff)
  with listing [OF order_refl assms(4)] show ?thesis by simp
qed

text \<open>
  C20.  Every line is accounted for.  The public listing of the clusters, in any order of the id
  map, has one entry for each live cluster, and the sizes in it add up to the number of lines whose
  cluster is still live; so no line is counted twice, and only eviction loses lines.
\<close>

theorem sizes_account_for_lines:
  assumes "valid_options opt" "length cs < 2 ^ 64"
    "run (ingest_step replace_all) cs (from_options opt) = Some (rs, m)"
    "distinct order" "set order = fmdom' (clusters_by_id m)"
  shows "map pub_id (clusters order m) = order \<and>
    sum_list (map (unat \<circ> pub_size) (clusters order m)) =
      length (filter (\<lambda>r. body_of m (cluster_id r) \<noteq> None) rs)"
  using listing_sizes [OF assms] .

theorem sizes_account_for_lines_witness:
  "\<exists>m. run (ingest_step no_match) [plain_cmd 0 (str ''a''), plain_cmd 1 (str ''a'')]
       (from_options small_options) =
       Some ([\<lparr>cluster_id = 1, update = Created\<rparr>, \<lparr>cluster_id = 1, update = Unchanged\<rparr>], m) \<and>
     (\<exists>order. distinct order \<and> set order = fmdom' (clusters_by_id m) \<and>
        map pub_id (clusters order m) = order)"
proof -
  obtain m where run: "run (ingest_step no_match)
      [plain_cmd 0 (str ''a''), plain_cmd 1 (str ''a'')] (from_options small_options) =
      Some ([\<lparr>cluster_id = 1, update = Created\<rparr>, \<lparr>cluster_id = 1, update = Unchanged\<rparr>], m)"
    "body_of m 1 \<noteq> None" by (rule small_run_two)
  obtain order where o: "set order = fmdom' (clusters_by_id m)" "distinct order"
    using finite_distinct_list [OF finite_fmdom' [of "clusters_by_id m"]] by metis
  from sizes_account_for_lines [OF valid_small_options _ run(1) o(2,1)]
  have "map pub_id (clusters order m) = order" by simp
  with run o show ?thesis by blast
qed

text \<open>
  C19.  A cluster that stays live only generalizes.  Between any two moments of a run its template
  goes up in the order of templates (a literal stays or becomes the wildcard, a wildcard stays),
  its number of tokens, delimiter flags, creation time and suffix stay, and its size grows by the
  lines assigned to it in between.
\<close>

theorem templates_only_generalize:
  assumes "valid_options opt" "length (cs @ ds) < 2 ^ 64"
    "run (ingest_step replace_all) cs (from_options opt) = Some (rs, m)"
    "run (ingest_step replace_all) ds m = Some (rs', m')"
    "body_of m i = Some b" "body_of m' i = Some b'"
  shows "template_le (template_of (wildcard opt) (tokens b)) (template_of (wildcard opt) (tokens b')) \<and>
    map leading_delim (tokens b') = map leading_delim (tokens b) \<and>
    map trailing_delim (tokens b') = map trailing_delim (tokens b) \<and>
    created_at b' = created_at b \<and> body_suffix b' = body_suffix b \<and>
    unat (hits b') = unat (hits b) + length (assigned i ds rs')"
proof -
  have lcs: "length cs < 2 ^ 64" using assms(2) by simp
  have "run (ingest_step replace_all) (cs @ ds) (from_options opt) = Some (rs @ rs', m')"
    using assms(3,4) by (simp add: run_append)
  then have h': "miner_inv m'" "history replace_all opt (cs @ ds) (rs @ rs') m'"
    using history_run [OF assms(1,2)] by auto
  have h: "miner_inv m" "history replace_all opt cs rs m"
    using history_run [OF assms(1) lcs assms(3)] by auto
  have len: "length cs = length rs" by (rule sym, rule run_length [OF assms(3)])
  note s = history_body(1,2) [OF h(2) assms(5) lcs]
  note s' = history_body(1,2) [OF h'(2) assms(6,2)]
  have split: "assigned i (cs @ ds) (rs @ rs') = assigned i cs rs @ assigned i ds rs'"
    by (rule assigned_append [OF len])
  have ne: "assigned i cs rs \<noteq> []" by (rule summarizes_ne [OF s(1)])
  let ?w = "wildcard opt" and ?toks = "\<lambda>c. line_tokens replace_all opt (cmd_line c)"
  have flags: "map leading_delim (tokens b') = map leading_delim (tokens b)"
    "map trailing_delim (tokens b') = map trailing_delim (tokens b)"
    "created_at b' = created_at b" "body_suffix b' = body_suffix b"
    using s(1) s'(1) ne by (simp_all add: summarizes_def Let_def split)
  have "template_of ?w (tokens b') =
      join_all (map (template_of ?w \<circ> ?toks) (assigned i ds rs')) (template_of ?w (tokens b))"
    using s(1) s'(1) ne by (simp add: summarizes_def Let_def split join_all_def)
  moreover have "length (tokens b') = length (tokens b)"
    using arg_cong [OF flags(1), of length] by simp
  ultimately have "template_le (template_of ?w (tokens b)) (template_of ?w (tokens b'))"
    using join_all_upper by (metis length_template_of)
  with flags s(2) s'(2) split show ?thesis by simp
qed

theorem templates_only_generalize_witness:
  "\<exists>m m1 b b1. run (ingest_step no_match) [plain_cmd 0 (str ''a'')] (from_options small_options) =
       Some ([\<lparr>cluster_id = 1, update = Created\<rparr>], m) \<and>
     run (ingest_step no_match) [plain_cmd 1 (str ''a'')] m =
       Some ([\<lparr>cluster_id = 1, update = Unchanged\<rparr>], m1) \<and>
     body_of m 1 = Some b \<and> body_of m1 1 = Some b1 \<and> unat (hits b1) = unat (hits b) + 1"
proof -
  obtain m1 where run: "run (ingest_step no_match)
      [plain_cmd 0 (str ''a''), plain_cmd 1 (str ''a'')] (from_options small_options) =
      Some ([\<lparr>cluster_id = 1, update = Created\<rparr>, \<lparr>cluster_id = 1, update = Unchanged\<rparr>], m1)"
    "body_of m1 1 \<noteq> None" by (rule small_run_two)
  then obtain m where r1: "run (ingest_step no_match) [plain_cmd 0 (str ''a'')] (from_options small_options) =
       Some ([\<lparr>cluster_id = 1, update = Created\<rparr>], m)"
    and r2: "run (ingest_step no_match) [plain_cmd 1 (str ''a'')] m =
       Some ([\<lparr>cluster_id = 1, update = Unchanged\<rparr>], m1)"
    by (auto split: option.splits prod.splits)
  have "miner_inv (from_options small_options :: unit miner)" "counter (from_options small_options) \<noteq> - 1"
    by (rule miner_inv_from_options [OF valid_small_options]) (simp add: from_options_def)
  from add_inner_winner [OF this, of no_match 0 "str ''a'' " None None] r1
  obtain b where b: "body_of m 1 = Some b"
    by (auto simp: ingest_step_def plain_cmd_def split: option.splits)
  from run(2) obtain b1 where b1: "body_of m1 1 = Some b1" by auto
  from templates_only_generalize [OF valid_small_options _ r1 r2 b b1]
  have "unat (hits b1) = unat (hits b) + 1" by (simp add: assigned_def)
  with r1 r2 b b1 show ?thesis by blast
qed

end
