(* ===== verification/Snapshot.thy ===== *)
theory Snapshot
  imports Options Cluster
begin

text \<open>
  Model of \<^verbatim>\<open>crates/logdrain/src/snapshot.rs\<close>: the wire structures, the header of a
  snapshot and its validation.  The payload is produced and read by the third-party crate
  \<^verbatim>\<open>bincode\<close>: its serializer and its two deserializers (one for each readable layout)
  are the parameters \<open>ser\<close>, \<open>de3\<close> and \<open>de2\<close>; a failure of a deserializer
  is the text of its error.
\<close>

unbundle bit_operations_syntax

definition MAGIC :: "u8 list" where
  "MAGIC = [76, 79, 71, 68, 82, 65, 73, 78]"

definition VERSION :: u32 where
  "VERSION = 3"

section \<open>Wire structures\<close>

record token_snapshot =
  ts_text :: rstr
  ts_leading :: "rchar option"
  ts_trailing :: "rchar option"

record cluster_snapshot =
  cs_id :: u64
  cs_tokens :: "token_snapshot list"
  cs_size :: u64
  cs_created_at_ms :: u64
  cs_updated_at_ms :: u64
  cs_event_first_ms :: u64
  cs_event_last_ms :: u64
  cs_suffix :: "rstr option"
  cs_members :: "rstr list"

record 're snapshot_v1 =
  sn_options :: "'re options"
  sn_counter :: u64
  sn_clusters :: "cluster_snapshot list"

record cluster_snapshot_v2 =
  c2_id :: u64
  c2_tokens :: "token_snapshot list"
  c2_size :: u64
  c2_created_at_ms :: u64
  c2_updated_at_ms :: u64
  c2_suffix :: "rstr option"
  c2_members :: "rstr list"

record 're snapshot_body_v2 =
  s2_options :: "'re options"
  s2_counter :: u64
  s2_clusters :: "cluster_snapshot_v2 list"

definition upgrade :: "'re snapshot_body_v2 \<Rightarrow> 're snapshot_v1" where
  "upgrade body =
     \<lparr>sn_options = s2_options body, sn_counter = s2_counter body,
      sn_clusters = map (\<lambda>c.
        \<lparr>cs_id = c2_id c, cs_tokens = c2_tokens c, cs_size = c2_size c,
         cs_created_at_ms = c2_created_at_ms c, cs_updated_at_ms = c2_updated_at_ms c,
         cs_event_first_ms = EVENT_UNSET, cs_event_last_ms = 0,
         cs_suffix = c2_suffix c, cs_members = c2_members c\<rparr>) (s2_clusters body)\<rparr>"

section \<open>Little-endian words\<close>

definition u32_to_le_bytes :: "u32 \<Rightarrow> u8 list" where
  "u32_to_le_bytes w = [ucast w, ucast (drop_bit 8 w), ucast (drop_bit 16 w), ucast (drop_bit 24 w)]"

fun u32_from_le_bytes :: "u8 list \<Rightarrow> u32" where
  "u32_from_le_bytes [b0, b1, b2, b3] =
     ucast b0 OR push_bit 8 (ucast b1) OR push_bit 16 (ucast b2) OR push_bit 24 (ucast b3)"
| "u32_from_le_bytes _ = 0"

lemma length_u32_to_le_bytes [simp]: "length (u32_to_le_bytes w) = 4"
  by (simp add: u32_to_le_bytes_def)

lemma u32_from_to_le [simp]: "u32_from_le_bytes (u32_to_le_bytes w) = w"
proof (rule bit_word_eqI)
  fix n
  assume n: "n < LENGTH(32)"
  consider "n < 8" | "8 \<le> n" "n < 16" | "16 \<le> n" "n < 24" | "24 \<le> n" by linarith
  then show "bit (u32_from_le_bytes (u32_to_le_bytes w)) n = bit w n"
    using n by cases (auto simp: u32_to_le_bytes_def bit_simps)
qed

lemma u32_to_from_le:
  assumes "length bs = 4"
  shows "u32_to_le_bytes (u32_from_le_bytes bs) = bs"
proof -
  obtain b0 b1 b2 b3 where bs: "bs = [b0, b1, b2, b3]"
    using assms by (auto simp: length_Suc_conv numeral_eq_Suc)
  have "ucast (u32_from_le_bytes bs) = b0" "ucast (drop_bit 8 (u32_from_le_bytes bs)) = b1"
    "ucast (drop_bit 16 (u32_from_le_bytes bs)) = b2"
    "ucast (drop_bit 24 (u32_from_le_bytes bs)) = b3"
    by (rule bit_word_eqI; auto simp: bs bit_simps dest: bit_imp_le_length)+
  then show ?thesis by (simp add: u32_to_le_bytes_def bs)
qed

section \<open>Encoding and decoding\<close>

definition encode :: "('re snapshot_v1 \<Rightarrow> u8 list) \<Rightarrow> 're snapshot_v1 \<Rightarrow> u8 list" where
  "encode ser body = MAGIC @ u32_to_le_bytes VERSION @ ser body"

definition decode ::
    "(u8 list \<Rightarrow> rstr + 're snapshot_v1) \<Rightarrow> (u8 list \<Rightarrow> rstr + 're snapshot_body_v2) \<Rightarrow> u8 list \<Rightarrow>
     logdrain_error + 're snapshot_v1" where
  "decode de3 de2 bytes =
     (if length bytes < length MAGIC + 4 then Inl BadMagic
      else if take (length MAGIC) bytes \<noteq> MAGIC then Inl BadMagic
      else
        let found = u32_from_le_bytes (take 4 (drop (length MAGIC) bytes));
            payload = drop (length MAGIC + 4) bytes
        in if found = VERSION then
             (case de3 payload of Inl e \<Rightarrow> Inl (Decode e) | Inr body \<Rightarrow> Inr body)
           else if found = 2 then
             (case de2 payload of Inl e \<Rightarrow> Inl (Decode e) | Inr body \<Rightarrow> Inr (upgrade body))
           else Inl (UnsupportedSnapshotVersion found VERSION))"

lemma length_MAGIC [simp]: "length MAGIC = 8"
  by (simp add: MAGIC_def)

lemma decode_header:
  "decode de3 de2 (MAGIC @ u32_to_le_bytes v @ payload) =
     (if v = VERSION then (case de3 payload of Inl e \<Rightarrow> Inl (Decode e) | Inr body \<Rightarrow> Inr body)
      else if v = 2 then
        (case de2 payload of Inl e \<Rightarrow> Inl (Decode e) | Inr body \<Rightarrow> Inr (upgrade body))
      else Inl (UnsupportedSnapshotVersion v VERSION))"
  by (simp add: decode_def Let_def)

lemma header_cases:
  assumes "12 \<le> length bytes" "take 8 bytes = MAGIC"
  obtains v payload where "bytes = MAGIC @ u32_to_le_bytes v @ payload"
proof -
  have "u32_to_le_bytes (u32_from_le_bytes (take 4 (drop 8 bytes))) = take 4 (drop 8 bytes)"
    using assms(1) by (intro u32_to_from_le) simp
  moreover have "bytes = take 8 bytes @ take 4 (drop 8 bytes) @ drop 4 (drop 8 bytes)"
    by (simp only: append_take_drop_id)
  ultimately show ?thesis using that assms(2) by metis
qed

section \<open>Properties\<close>

text \<open>
  C31.  Decoding accepts exactly the header of the two readable versions: bytes decode to a body
  only if they are the magic, the version (three, or two with the body upgraded) and a payload
  that version's layout reads; without the magic the error is \<open>BadMagic\<close>, with another
  version it names the version found and the newest one known; every other failure is the
  deserializer's.
\<close>

theorem decode_exact:
  "case decode de3 de2 bytes of
     Inr body \<Rightarrow>
       (\<exists>payload. bytes = MAGIC @ u32_to_le_bytes VERSION @ payload \<and> de3 payload = Inr body) \<or>
       (\<exists>payload old. bytes = MAGIC @ u32_to_le_bytes 2 @ payload \<and> de2 payload = Inr old \<and>
          body = upgrade old)
   | Inl BadMagic \<Rightarrow> (\<nexists>v payload. bytes = MAGIC @ u32_to_le_bytes v @ payload)
   | Inl (UnsupportedSnapshotVersion v newest) \<Rightarrow>
       newest = VERSION \<and> v \<noteq> VERSION \<and> v \<noteq> 2 \<and>
       (\<exists>payload. bytes = MAGIC @ u32_to_le_bytes v @ payload)
   | Inl (Decode e) \<Rightarrow>
       (\<exists>payload. bytes = MAGIC @ u32_to_le_bytes VERSION @ payload \<and> de3 payload = Inl e \<or>
          bytes = MAGIC @ u32_to_le_bytes 2 @ payload \<and> de2 payload = Inl e)
   | Inl _ \<Rightarrow> False"
proof (cases "12 \<le> length bytes \<and> take 8 bytes = MAGIC")
  case True
  then obtain v payload where "bytes = MAGIC @ u32_to_le_bytes v @ payload"
    using header_cases by metis
  then show ?thesis
    by (cases "de3 payload"; cases "de2 payload")
      (auto simp: decode_header split: if_splits)
next
  case False
  then have "decode de3 de2 bytes = Inl BadMagic"
    by (auto simp: decode_def)
  moreover have "bytes \<noteq> MAGIC @ u32_to_le_bytes v @ payload" for v payload
    using False by auto
  ultimately show ?thesis by simp
qed

end
