(* ===== verification/Restore.thy ===== *)
theory Restore
  imports Miner_Query Snapshot
begin

text \<open>
  Model of the persistence half of \<^verbatim>\<open>crates/logdrain/src/miner.rs\<close>:
  \<^verbatim>\<open>snapshot\<close>, which copies the bodies to the wire structures in the iteration order
  of the id map, and \<^verbatim>\<open>restore\<close>, which clears the miner and replays the bodies into
  the tree.  The serializer is the parameter of theory \<open>Snapshot\<close>.
\<close>

definition system_time_to_ms :: "systime \<Rightarrow> u64" where
  "system_time_to_ms t = (if t < 0 then 0 else word_of_int (t div 1000000))"

definition ms_to_system_time :: "u64 \<Rightarrow> systime" where
  "ms_to_system_time ms = uint ms * 1000000"

definition token_to_wire :: "token \<Rightarrow> token_snapshot" where
  "token_to_wire t = \<lparr>ts_text = tok_text t, ts_leading = leading_delim t, ts_trailing = trailing_delim t\<rparr>"

definition token_of_wire :: "token_snapshot \<Rightarrow> token" where
  "token_of_wire t = \<lparr>tok_text = ts_text t, leading_delim = ts_leading t, trailing_delim = ts_trailing t\<rparr>"

definition cluster_to_wire :: "cluster_inner \<Rightarrow> cluster_snapshot" where
  "cluster_to_wire b =
     \<lparr>cs_id = body_id b, cs_tokens = map token_to_wire (tokens b), cs_size = hits b,
      cs_created_at_ms = system_time_to_ms (created_at b), cs_updated_at_ms = updated_at_ms b,
      cs_event_first_ms = event_first_ms b, cs_event_last_ms = event_last_ms b,
      cs_suffix = body_suffix b, cs_members = members b\<rparr>"

definition cluster_of_wire :: "cluster_snapshot \<Rightarrow> cluster_inner" where
  "cluster_of_wire cs =
     \<lparr>body_id = cs_id cs, tokens = map token_of_wire (cs_tokens cs), hits = cs_size cs,
      created_at = ms_to_system_time (cs_created_at_ms cs), updated_at_ms = cs_updated_at_ms cs,
      last_used = 0, event_first_ms = cs_event_first_ms cs, event_last_ms = cs_event_last_ms cs,
      body_suffix = cs_suffix cs, members = cs_members cs\<rparr>"

definition snapshot_body :: "u64 list \<Rightarrow> 're miner \<Rightarrow> 're snapshot_v1" where
  "snapshot_body order m =
     \<lparr>sn_options = options m, sn_counter = counter m,
      sn_clusters =
        List.map_filter (\<lambda>i. map_option cluster_to_wire (fmlookup (clusters_by_id m) i)) order\<rparr>"

definition snapshot :: "('re snapshot_v1 \<Rightarrow> u8 list) \<Rightarrow> u64 list \<Rightarrow> 're miner \<Rightarrow> u8 list" where
  "snapshot ser order m = encode ser (snapshot_body order m)"

text \<open>The loop of \<^verbatim>\<open>restore\<close>; \<open>None\<close> is a panic of the tree.\<close>

fun restore_loop :: "cluster_snapshot list \<Rightarrow> 're miner \<Rightarrow> 're miner option" where
  "restore_loop [] m = Some m"
| "restore_loop (cs # css) m =
     (case insert_existing (cluster_of_wire cs) m of
        None \<Rightarrow> None
      | Some m' \<Rightarrow> restore_loop css m')"

definition restore ::
    "(u8 list \<Rightarrow> rstr + 're snapshot_v1) \<Rightarrow> (u8 list \<Rightarrow> rstr + 're snapshot_body_v2) \<Rightarrow> u8 list \<Rightarrow>
     're miner \<Rightarrow> ((logdrain_error + unit) \<times> 're miner) option" where
  "restore de3 de2 bytes m =
     (case decode de3 de2 bytes of
        Inl e \<Rightarrow> Some (Inl e, m)
      | Inr body \<Rightarrow>
          map_option (\<lambda>m'. (Inr (), m'))
            (restore_loop (sn_clusters body)
              (m\<lparr>shards := fmempty, clusters_by_id := fmempty, counter := sn_counter body\<rparr>)))"

section \<open>The wire structures lose the recency and the sub-millisecond time\<close>

definition reloaded :: "cluster_inner \<Rightarrow> cluster_inner" where
  "reloaded b = b\<lparr>created_at := time_from_ms (unix_ms (created_at b)), last_used := 0\<rparr>"

lemma token_wire [simp]: "token_of_wire (token_to_wire t) = t"
  by (simp add: token_of_wire_def token_to_wire_def)

lemma cluster_wire: "cluster_of_wire (cluster_to_wire b) = reloaded b"
  by (simp add: cluster_of_wire_def cluster_to_wire_def reloaded_def ms_to_system_time_def
      system_time_to_ms_def time_from_ms_def unix_ms_def comp_def)

lemma reloaded_sel [simp]:
  "body_id (reloaded b) = body_id b" "tokens (reloaded b) = tokens b" "hits (reloaded b) = hits b"
  "members (reloaded b) = members b"
  by (simp_all add: reloaded_def)

section \<open>A restore never panics\<close>

text \<open>The depth of the trees alone, which any list of clusters keeps, even a malformed one.\<close>

definition trees_ok :: "'re miner \<Rightarrow> bool" where
  "trees_ok m \<longleftrightarrow> (\<forall>n s. fmlookup (shards m) n = Some s \<longrightarrow>
     has_depth (min (prefix_len (options m)) n) (root s))"

lemma insert_existing_total:
  assumes "trees_ok m"
  shows "\<exists>m'. insert_existing b m = Some m' \<and> trees_ok m' \<and> options m' = options m \<and> tick m' = tick m"
proof -
  let ?n = "length (tokens b)" and ?keys = "descent_keys (options m) (tokens b)"
  obtain s m0 where sm: "shard_for ?n m = (s, m0)" by (cases "shard_for ?n m")
  then have m0: "trees_ok m0" "options m0 = options m" "tick m0 = tick m"
    and depth: "has_depth (min (prefix_len (options m)) ?n) (root s)"
    using assms by (auto simp: shard_for_def trees_ok_def Let_def split: option.splits if_splits)
  obtain node leaf where node: "descend_or_create (root s) ?keys (max_clusters_per_leaf (options m)) = Some node"
    "descend node ?keys = Some leaf"
    "\<And>l. has_depth (min (prefix_len (options m)) ?n) (write_leaf node ?keys l)"
    by (rule tree_index.grow_write [OF depth, of ?keys "max_clusters_per_leaf (options m)"]) auto
  obtain leaf1 m1 where ev: "evict_if_full leaf m0 = (leaf1, m1)" by (cases "evict_if_full leaf m0")
  then have "trees_ok m1" "options m1 = options m" "tick m1 = tick m"
    using m0 by (auto simp: evict_if_full_def trees_ok_def split: if_splits option.splits)
  then show ?thesis
    using node by (auto simp: insert_existing_def sm ev Let_def trees_ok_def)
qed

lemma restore_loop_total:
  "trees_ok m \<Longrightarrow> \<exists>m'. restore_loop css m = Some m' \<and> options m' = options m \<and> tick m' = tick m"
proof (induction css arbitrary: m)
  case (Cons cs css)
  obtain m1 where "insert_existing (cluster_of_wire cs) m = Some m1" "trees_ok m1"
    "options m1 = options m" "tick m1 = tick m"
    using insert_existing_total [OF Cons.prems] by blast
  with Cons.IH [of m1] show ?case by auto
qed simp

section \<open>Replaying one body\<close>

lemma insert_existing_admits:
  assumes inv: "miner_inv m" and new: "body_of m (body_id b) = None"
  obtains m' where "insert_existing b m = Some m'" "admit_state b m m'"
    "counter m' = counter m" "tick m' = tick m"
proof -
  let ?n = "length (tokens b)" and ?i = "body_id b"
  let ?keys = "descent_keys (options m) (tokens b)"
  obtain s m0 where sm: "shard_for ?n m = (s, m0)" by (cases "shard_for ?n m")
  note sf = shard_for_ok [OF miner_invD(2) [OF inv] sm]
  have m0: "options m0 = options m" "bucket m0 = bucket m" "clusters_by_id m0 = clusters_by_id m"
    using sf(2) by (simp_all add: same_index_def)
  obtain node leaf where node:
    "descend_or_create (root s) ?keys (max_clusters_per_leaf (options m)) = Some node"
    "descend node ?keys = Some leaf" "leaf_ok (options m) leaf" "ids leaf = bucket m ?n ?keys"
    "\<And>b. has_depth (min (prefix_len (options m)) ?n) (write_leaf node ?keys b)"
    "\<And>b. descend (write_leaf node ?keys b) = (descend (root s))(?keys := Some b)"
    by (rule grow_leaf [OF sf(1) sf(3), of ?keys]) (simp_all add: m0)
  have leaf: "ids leaf = home m (tokens b)" using node(4) by (simp add: home_def)
  then have "leaf = \<lparr>cap = max_clusters_per_leaf (options m), ids = home m (tokens b)\<rparr>"
    using node(3) by (simp add: leaf_ok_def)
  from evict_if_full_eq [OF this, of m0] have ev: "evict_if_full leaf m0 =
      (leaf\<lparr>ids := kept m (tokens b)\<rparr>, m0\<lparr>clusters_by_id := drop_opt (lru m (tokens b)) (clusters_by_id m0)\<rparr>)"
    using m0(3) by simp
  define m1 where "m1 = m0\<lparr>clusters_by_id := drop_opt (lru m (tokens b)) (clusters_by_id m0)\<rparr>"
  define m2 where "m2 = m1\<lparr>shards := fmupd ?n
    \<lparr>root = write_leaf node ?keys (leaf_insert (leaf\<lparr>ids := kept m (tokens b)\<rparr>) ?i)\<rparr> (shards m1)\<rparr>"
  define m' where "m' = m2\<lparr>clusters_by_id := fmupd ?i b (clusters_by_id m2)\<rparr>"
  have eq: "insert_existing b m = Some m'"
    by (simp add: insert_existing_def sm node(1,2) ev Let_def m1_def m2_def m'_def)
  have absent: "?i \<notin> set (home m (tokens b))"
    using new by (simp add: index_okD [OF inv] home_def)
  have m1: "shape_ok m1" "options m1 = options m" "bucket m1 = bucket m"
    using sf(1) m0 by (simp_all add: m1_def)
  have old: "bucket m ?n ks = leaf_ids (descend (root s) ks)" for ks
    using bucket_lookup [OF sf(3)] m0(2) by simp
  have "descend (root s) ks = Some l \<Longrightarrow> leaf_ok (options m) l" for ks l
    using shape_okD(2) [OF sf(1) sf(3)] m0(1) by simp
  note w = write_home [OF inv m1 node(3) leaf node(5,6) old this absent, folded m2_def]
  have "fmupd ?i b (drop_opt (lru m (tokens b)) (clusters_by_id m)) =
      drop_opt (lru m (tokens b)) (fmupd ?i b (clusters_by_id m))"
    using absent lru_in_home [of m "tokens b" ?i] by (intro fmap_ext) auto
  with w have "admit_state b m m'"
    using m0 by (simp add: admit_state_def m'_def) (simp add: m2_def m1_def m0)
  then show ?thesis
    using that eq sf(4,5) by (simp add: m'_def m2_def m1_def)
qed

lemma insert_existing_ok:
  assumes inv: "miner_inv m" and new: "body_of m (body_id b) = None"
    and b: "0 < body_id b" "body_id b \<le> counter m" "distinct (members b)"
    and room: "length (bucket m (length (tokens b)) (descent_keys (options m) (tokens b)))
      < max_clusters_per_leaf (options m)"
  obtains m' where "insert_existing b m = Some m'" "miner_inv m'"
    "clusters_by_id m' = fmupd (body_id b) b (clusters_by_id m)"
    "options m' = options m" "counter m' = counter m" "tick m' = tick m"
    "bucket m' = (\<lambda>n ks. bucket m n ks @
      (if placed (options m) n ks b then [body_id b] else []))"
proof -
  obtain m' where m': "insert_existing b m = Some m'" "admit_state b m m'"
    "counter m' = counter m" "tick m' = tick m"
    by (rule insert_existing_admits [OF inv new])
  have "lru m (tokens b) = None" using room by (simp add: lru_def home_def)
  then have "clusters_by_id m' = fmupd (body_id b) b (clusters_by_id m)" "options m' = options m"
    "bucket m' = (\<lambda>n ks. bucket m n ks @ (if placed (options m) n ks b then [body_id b] else []))"
    using m'(2) by (auto simp: admit_state_def drop_opt_def kept_def home_def placed_def fun_eq_iff)
  moreover have "miner_inv m'"
    by (rule admit_state_inv [OF inv new m'(2)]) (simp_all add: m'(3) b)
  ultimately show ?thesis using that m'(1,3,4) by blast
qed

section \<open>Replaying a list of bodies\<close>

definition room_for :: "'re miner \<Rightarrow> cluster_inner list \<Rightarrow> bool" where
  "room_for m bs \<longleftrightarrow>
     (\<forall>n ks. length (bucket m n ks) + length (filter (placed (options m) n ks) bs)
        \<le> max_clusters_per_leaf (options m))"

lemma restore_loop_ok:
  assumes "miner_inv m" "distinct (map body_id bs)"
    "\<forall>b \<in> set bs. body_of m (body_id b) = None \<and> 0 < body_id b \<and> body_id b \<le> counter m \<and>
      distinct (members b)"
    "room_for m bs" "map cluster_of_wire css = bs"
  shows "\<exists>m'. restore_loop css m = Some m' \<and> miner_inv m' \<and>
    clusters_by_id m' = fold (\<lambda>b. fmupd (body_id b) b) bs (clusters_by_id m) \<and>
    options m' = options m \<and> counter m' = counter m \<and> tick m' = tick m \<and>
    bucket m' = (\<lambda>n ks. bucket m n ks @ map body_id (filter (placed (options m) n ks) bs))"
  using assms
proof (induction css arbitrary: m bs)
  case Nil
  then show ?case by simp
next
  case (Cons cs css)
  then obtain b bs' where bs: "bs = b # bs'" "cluster_of_wire cs = b" "map cluster_of_wire css = bs'"
    by auto
  have placed_b: "placed (options m) (length (tokens b)) (descent_keys (options m) (tokens b)) b"
    by (simp add: placed_def)
  have "length (bucket m (length (tokens b)) (descent_keys (options m) (tokens b)))
      < max_clusters_per_leaf (options m)"
    using Cons.prems(4) placed_b bs(1) unfolding room_for_def
    by (metis (no_types, lifting) add_Suc_right filter.simps(2) length_Cons less_add_Suc1 order_less_le_trans)
  then obtain m1 where m1: "insert_existing b m = Some m1" "miner_inv m1"
    "clusters_by_id m1 = fmupd (body_id b) b (clusters_by_id m)"
    "options m1 = options m" "counter m1 = counter m" "tick m1 = tick m"
    "bucket m1 = (\<lambda>n ks. bucket m n ks @ (if placed (options m) n ks b then [body_id b] else []))"
    using insert_existing_ok [OF Cons.prems(1), of b] Cons.prems(3) bs(1) by auto
  have "room_for m1 bs'"
    unfolding room_for_def
  proof (intro allI)
    fix n ks
    have "length (bucket m n ks) + length (filter (placed (options m) n ks) bs)
        \<le> max_clusters_per_leaf (options m)"
      using Cons.prems(4) unfolding room_for_def by blast
    then show "length (bucket m1 n ks) + length (filter (placed (options m1) n ks) bs')
        \<le> max_clusters_per_leaf (options m1)"
      by (simp add: m1 bs(1) split: if_splits)
  qed
  moreover have "\<forall>c \<in> set bs'. body_of m1 (body_id c) = None \<and> 0 < body_id c \<and>
      body_id c \<le> counter m1 \<and> distinct (members c)"
    using Cons.prems(2,3) bs(1) m1(3,5) by force
  ultimately obtain m' where "restore_loop css m1 = Some m'" "miner_inv m'"
    "clusters_by_id m' = fold (\<lambda>b. fmupd (body_id b) b) bs' (clusters_by_id m1)"
    "options m' = options m1" "counter m' = counter m1" "tick m' = tick m1"
    "bucket m' = (\<lambda>n ks. bucket m1 n ks @ map body_id (filter (placed (options m1) n ks) bs'))"
    using Cons.IH [OF m1(2), of bs'] Cons.prems(2) bs by auto
  then show ?case
    using bs(1,2) m1 by (auto simp: fun_eq_iff)
qed

lemma fold_fmupd_other:
  "k \<notin> f ` set bs \<Longrightarrow> fmlookup (fold (\<lambda>b. fmupd (f b) b) bs m) k = fmlookup m k"
  by (induction bs arbitrary: m) auto

lemma fold_fmupd_in:
  "distinct (map f bs) \<Longrightarrow> b \<in> set bs \<Longrightarrow>
     fmlookup (fold (\<lambda>b. fmupd (f b) b) bs m) (f b) = Some b"
proof (induction bs arbitrary: m)
  case (Cons c bs)
  then show ?case
    by (cases "b = c") (auto simp: fold_fmupd_other)
qed simp

text \<open>The bodies of a miner, in an order of its ids.\<close>

definition bodies_in :: "u64 list \<Rightarrow> 're miner \<Rightarrow> cluster_inner list" where
  "bodies_in order m = map (\<lambda>i. reloaded (the (body_of m i))) order"

lemma snapshot_clusters:
  assumes "set order \<subseteq> fmdom' (clusters_by_id m)"
  shows "map cluster_of_wire (sn_clusters (snapshot_body order m)) = bodies_in order m"
  using assms unfolding snapshot_body_def bodies_in_def
  by (induction order) (auto simp: List.map_filter_simps cluster_wire fmlookup_dom'_iff)

lemma placed_reloaded [simp]: "placed opt n ks (reloaded b) = placed opt n ks b"
  by (simp add: placed_def)

lemma bodies_in_facts:
  assumes inv: "miner_inv m" and order: "distinct order" "set order = fmdom' (clusters_by_id m)"
  shows "map body_id (bodies_in order m) = order"
    "\<forall>b \<in> set (bodies_in order m). 0 < body_id b \<and> body_id b \<le> counter m \<and> distinct (members b)"
    "length (filter (placed (options m) n ks) (bodies_in order m)) \<le> max_clusters_per_leaf (options m)"
proof -
  have live: "\<exists>b. body_of m i = Some b" if "i \<in> set order" for i
    using that order(2) by (simp add: fmlookup_dom'_iff)
  have id: "body_id (reloaded (the (body_of m i))) = i" if "i \<in> set order" for i
    using live [OF that] bodies_okD [OF inv] by auto
  then show "map body_id (bodies_in order m) = order"
    by (simp add: bodies_in_def map_idI)
  show "\<forall>b \<in> set (bodies_in order m). 0 < body_id b \<and> body_id b \<le> counter m \<and> distinct (members b)"
    using live bodies_okD [OF inv] by (fastforce simp: bodies_in_def)
  let ?P = "\<lambda>i. placed (options m) n ks (the (body_of m i))"
  have "length (filter (placed (options m) n ks) (bodies_in order m)) = length (filter ?P order)"
    by (simp add: bodies_in_def filter_map comp_def)
  also have "\<dots> = card (set (filter ?P order))"
    using distinct_card [OF distinct_filter [OF order(1)]] by metis
  also have "set (filter ?P order) = set (bucket m n ks)"
    using order(2) live by (force simp: index_okD [OF inv] fmlookup_dom'_iff)
  also have "card (set (bucket m n ks)) \<le> max_clusters_per_leaf (options m)"
    using bucket_leaf_ok [OF miner_invD(2) [OF inv], of n ks] by (simp add: distinct_card)
  finally show "length (filter (placed (options m) n ks) (bodies_in order m))
      \<le> max_clusters_per_leaf (options m)" .
qed

lemma restore_snapshot_ok:
  assumes inv: "miner_inv m" and order: "distinct order" "set order = fmdom' (clusters_by_id m)"
    and opt: "options m2 = options m"
    and codec: "de3 (ser (snapshot_body order m)) = Inr ((snapshot_body order m)\<lparr>sn_options := o'\<rparr>)"
  shows "\<exists>m'. restore de3 de2 (snapshot ser order m) m2 = Some (Inr (), m') \<and> miner_inv m' \<and>
    options m' = options m \<and> counter m' = counter m \<and> tick m' = tick m2 \<and>
    (\<forall>i. body_of m' i = map_option reloaded (body_of m i))"
proof -
  let ?bs = "bodies_in order m"
  define m0 where "m0 = m2\<lparr>shards := fmempty, clusters_by_id := fmempty, counter := counter m\<rparr>"
  note facts = bodies_in_facts [OF inv order]
  have "miner_inv m0"
    using miner_invD(1) [OF inv] opt
    by (simp add: miner_inv_def shape_ok_def index_ok_def bodies_ok_def bucket_def m0_def)
  moreover have "\<forall>b \<in> set ?bs. body_of m0 (body_id b) = None \<and> 0 < body_id b \<and>
      body_id b \<le> counter m0 \<and> distinct (members b)"
    using facts(2) by (simp add: m0_def)
  moreover have "room_for m0 ?bs"
    using facts(3) opt by (simp add: room_for_def m0_def bucket_def)
  ultimately obtain m' where m': "restore_loop (sn_clusters (snapshot_body order m)) m0 = Some m'"
    "miner_inv m'" "clusters_by_id m' = fold (\<lambda>b. fmupd (body_id b) b) ?bs (clusters_by_id m0)"
    "options m' = options m0" "counter m' = counter m0" "tick m' = tick m0"
    using restore_loop_ok [of m0 ?bs "sn_clusters (snapshot_body order m)"] facts(1) order(1)
      snapshot_clusters [of order m] order(2)
    by auto
  have "body_of m' i = map_option reloaded (body_of m i)" for i
  proof (cases "i \<in> set order")
    case True
    then obtain b where b: "body_of m i = Some b" using order(2) by (auto simp: fmlookup_dom'_iff)
    then have "reloaded b \<in> set ?bs" using True by (force simp: bodies_in_def)
    then have "body_of m' (body_id (reloaded b)) = Some (reloaded b)"
      unfolding m'(3) using facts(1) order(1) by (intro fold_fmupd_in) simp_all
    then show ?thesis using b bodies_okD [OF inv b] by simp
  next
    case False
    then have "i \<notin> body_id ` set ?bs"
      using facts(1) by (metis image_set)
    then have "body_of m' i = None"
      unfolding m'(3) by (simp add: fold_fmupd_other m0_def)
    moreover have "body_of m i = None"
      using False order(2) by (simp add: fmdom'_notD)
    ultimately show ?thesis by simp
  qed
  moreover have "restore de3 de2 (snapshot ser order m) m2 = Some (Inr (), m')"
    using m'(1) codec by (simp add: restore_def snapshot_def encode_def decode_header snapshot_body_def m0_def)
  ultimately show ?thesis
    using m' opt by (auto simp: m0_def)
qed

section \<open>Properties\<close>

lemma options_from_options [simp]: "options (from_options opt) = opt"
  by (simp add: from_options_def)

text \<open>
  C11.  A snapshot restores.  When the serializer's bytes are read back (up to the options, whose
  masks are not serialized), a miner with the same options that restores the snapshot of another
  one holds exactly its clusters, under the same ids, in a state that satisfies the invariant, with nothing
  evicted and the id counter continued; a body comes back unchanged but for its creation time,
  which is cut to the millisecond, and its recency, which is zero.
\<close>

theorem restore_snapshot:
  assumes "miner_inv m" "distinct order" "set order = fmdom' (clusters_by_id m)"
    "options m2 = options m"
    "de3 (ser (snapshot_body order m)) = Inr ((snapshot_body order m)\<lparr>sn_options := o'\<rparr>)"
  shows "\<exists>m'. restore de3 de2 (snapshot ser order m) m2 = Some (Inr (), m') \<and> miner_inv m' \<and>
    options m' = options m \<and> counter m' = counter m \<and> tick m' = tick m2 \<and>
    (\<forall>i. body_of m' i = map_option reloaded (body_of m i))"
  using assms by (rule restore_snapshot_ok)

text \<open>A miner with two clusters that tie on a third line.\<close>

definition tie_options :: "unit options" where
  "tie_options = default_options\<lparr>depth := 2, sim_threshold := Fin (1 / 2)\<rparr>"

definition tie_miner :: "unit miner" where
  "tie_miner =
     (case add no_match 0 (str ''a b'') (from_options tie_options) of
        None \<Rightarrow> from_options tie_options
      | Some (_, m) \<Rightarrow>
          (case add no_match 0 (str ''c x'') m of None \<Rightarrow> m | Some (_, m') \<Rightarrow> m'))"

lemma valid_tie_options: "valid_options tie_options"
proof -
  have "\<exists>t :: rat. Fin (1 / 2) = Fin t \<and> 0 \<le> t \<and> t \<le> 1"
    by (rule exI [of _ "1 / 2"]) simp
  with valid_default_options [where 'a = unit] show ?thesis
    by (simp add: valid_options_def tie_options_def)
qed

lemma tie_miner_ok: "miner_inv tie_miner" "options tie_miner = tie_options"
proof -
  let ?m0 = "from_options tie_options"
  have m0: "miner_inv ?m0" "counter ?m0 \<noteq> - 1" "options ?m0 = tie_options"
    using miner_inv_from_options [OF valid_tie_options] by (auto simp: from_options_def)
  obtain r m where m: "add no_match 0 (str ''a b'') ?m0 = Some (r, m)" "miner_inv m"
    "options m = tie_options"
    using add_inner_inv [OF m0(1,2), of no_match 0 "str ''a b'' " None None] m0(3)
    unfolding add_def by metis
  then have "counter m = counter ?m0 \<or> counter m = counter ?m0 + 1"
    using match_add_agree [OF m0(1,2), of no_match 0 "str ''a b'' " None None]
    by (auto simp: add_def split: option.splits)
  then have "counter m \<noteq> - 1" by (auto simp: from_options_def)
  then obtain r' m' where "add no_match 0 (str ''c x'') m = Some (r', m')" "miner_inv m'"
    "options m' = tie_options"
    using add_inner_inv [OF m(2), of no_match 0 "str ''c x'' " None None] m(3)
    unfolding add_def by metis
  with m(1) show "miner_inv tie_miner" "options tie_miner = tie_options"
    by (simp_all add: tie_miner_def)
qed

lemma tie_miner_clusters: "fmdom' (clusters_by_id tie_miner) = {1, 2}"
  by code_simp

theorem restore_snapshot_witness:
  "\<exists>m'. restore (\<lambda>_. Inr (snapshot_body [2, 1] tie_miner)) (\<lambda>_. Inl [])
      (snapshot (\<lambda>_. []) [2, 1] tie_miner) (from_options tie_options) = Some (Inr (), m') \<and>
    body_of m' 1 = map_option reloaded (body_of tie_miner 1)"
proof -
  have "(snapshot_body [2, 1] tie_miner)\<lparr>sn_options := sn_options (snapshot_body [2, 1] tie_miner)\<rparr> =
      snapshot_body [2, 1] tie_miner" by simp
  with restore_snapshot [OF tie_miner_ok(1), of "[2, 1]" "from_options tie_options"
      "\<lambda>_. Inr (snapshot_body [2, 1] tie_miner)" "\<lambda>_. []"
      "sn_options (snapshot_body [2, 1] tie_miner)" "\<lambda>_. Inl []"]
  show ?thesis
    by (auto simp: tie_miner_clusters tie_miner_ok(2))
qed

text \<open>
  C24.  A restored miner matches the same lines with the same similarity: it finds a cluster for a
  line exactly when the original does, and the two clusters are equally similar to the line.
\<close>

theorem restore_keeps_matching:
  assumes "miner_inv m" "distinct order" "set order = fmdom' (clusters_by_id m)"
    "options m2 = options m"
    "de3 (ser (snapshot_body order m)) = Inr ((snapshot_body order m)\<lparr>sn_options := o'\<rparr>)"
  shows "\<exists>m'. restore de3 de2 (snapshot ser order m) m2 = Some (Inr (), m') \<and>
    (case (match_only replace_all line m, match_only replace_all line m') of
       (None, None) \<Rightarrow> True
     | (Some i, Some j) \<Rightarrow>
         score_of m (line_tokens replace_all (options m) line) i =
         score_of m (line_tokens replace_all (options m) line) j
     | _ \<Rightarrow> False)"
proof -
  obtain m' where m': "restore de3 de2 (snapshot ser order m) m2 = Some (Inr (), m')"
    "miner_inv m'" "options m' = options m" "\<forall>i. body_of m' i = map_option reloaded (body_of m i)"
    using restore_snapshot_ok [OF assms(1-4), of de3 ser o' de2] assms(5) by metis
  let ?toks = "line_tokens replace_all (options m) line"
  have score: "score_of m' ?toks i = score_of m ?toks i" for i
    using m'(3,4) by (auto simp: score_of_def split: option.splits)
  have home: "set (home m' ?toks) = set (home m ?toks)"
    using index_okD [OF assms(1)] index_okD [OF m'(2)] m'(3,4) by (auto simp: home_def)
  show ?thesis
  proof (cases "winner m ?toks"; cases "winner m' ?toks")
    fix i j
    assume "winner m ?toks = Some i" "winner m' ?toks = Some j"
    from winner_Some [OF this(1)] winner_Some [OF this(2)] have
      "score_of m ?toks i \<le> score_of m ?toks j" "score_of m ?toks j \<le> score_of m ?toks i"
      using first_max_Some home score by metis+
    with m' \<open>winner m ?toks = Some i\<close> \<open>winner m' ?toks = Some j\<close> show ?thesis
      by (simp add: match_only_winner assms(1))
  next
    fix i
    assume i: "winner m ?toks = Some i" "winner m' ?toks = None"
    have "\<not> passes (options m) (score_of m ?toks i)"
      using winner_None [OF i(2), of i] winner_Some(1) [OF i(1)] home score m'(3) by simp
    with winner_Some(3) [OF i(1)] show ?thesis by simp
  next
    fix j
    assume j: "winner m ?toks = None" "winner m' ?toks = Some j"
    have "\<not> passes (options m) (score_of m ?toks j)"
      using winner_None [OF j(1), of j] winner_Some(1) [OF j(2)] home by simp
    with winner_Some(3) [OF j(2)] score m'(3) show ?thesis by simp
  qed (use m' in \<open>simp add: match_only_winner assms(1)\<close>)
qed

theorem restore_keeps_matching_witness:
  "\<exists>m'. restore (\<lambda>_. Inr (snapshot_body [2, 1] tie_miner)) (\<lambda>_. Inl [])
      (snapshot (\<lambda>_. []) [2, 1] tie_miner) (from_options tie_options) = Some (Inr (), m')"
proof -
  have "(snapshot_body [2, 1] tie_miner)\<lparr>sn_options := sn_options (snapshot_body [2, 1] tie_miner)\<rparr> =
      snapshot_body [2, 1] tie_miner" by simp
  with restore_keeps_matching [OF tie_miner_ok(1), of "[2, 1]" "from_options tie_options"
      "\<lambda>_. Inr (snapshot_body [2, 1] tie_miner)" "\<lambda>_. []"
      "sn_options (snapshot_body [2, 1] tie_miner)" "\<lambda>_. Inl []" no_match "str ''a x'' "]
  show ?thesis
    by (auto simp: tie_miner_clusters tie_miner_ok(2))
qed

text \<open>
  The last guarantee cannot be strengthened to the same id: two clusters that tie on a line
  are tried in the order of their leaf, which a restore rebuilds in the iteration order of the
  snapshot, so the miner that took the snapshot and the one that restored it can assign one line
  to different clusters.
\<close>

theorem restore_can_change_a_tie:
  "match_only no_match (str ''a x'') tie_miner = Some 1 \<and>
   map_option (\<lambda>(_, m'). match_only no_match (str ''a x'') m')
     (restore (\<lambda>_. Inr (snapshot_body [2, 1] tie_miner)) (\<lambda>_. Inl [])
       (snapshot (\<lambda>_. []) [2, 1] tie_miner) (from_options tie_options)) = Some (Some 2)"
  by code_simp

end
