(* ===== verification/Persistence.thy ===== *)
theory Persistence
  imports Restore
begin

text \<open>
  Model of \<^verbatim>\<open>crates/logdrain/src/persistence.rs\<close> (the trait, the memory and the file
  backend) and of the miner's \<^verbatim>\<open>save_state\<close> and \<^verbatim>\<open>load_state\<close>.

  A file system is a map from paths to contents.  Every system call of the file backend can fail:
  \<open>io\<close> gives the error of a call, if it fails, and \<open>written\<close> how many bytes
  a failed write had put into the file.  \<open>file_save_states\<close> lists the file systems a crash
  can leave behind.
\<close>

section \<open>The memory backend\<close>

record memory_persistence =
  blob :: "u8 list option"

definition memory_new :: memory_persistence where
  "memory_new = \<lparr>blob = None\<rparr>"

definition memory_save ::
    "u8 list \<Rightarrow> memory_persistence \<Rightarrow> (persistence_error + unit) \<times> memory_persistence" where
  "memory_save bytes p = (Inr (), p\<lparr>blob := Some bytes\<rparr>)"

definition memory_load :: "memory_persistence \<Rightarrow> persistence_error + u8 list option" where
  "memory_load p = Inr (blob p)"

section \<open>The file backend\<close>

type_synonym file_system = "rstr \<Rightarrow> u8 list option"

datatype io_call = Create_tmp | Write_tmp | Sync_tmp | Rename_tmp | Read_path

record file_persistence =
  file_path :: rstr

definition file_new :: "rstr \<Rightarrow> file_persistence" where
  "file_new p = \<lparr>file_path = p\<rparr>"

definition tmp_path :: "file_persistence \<Rightarrow> rstr" where
  "tmp_path f = file_path f @ str ''.tmp''"

definition file_save ::
    "(io_call \<Rightarrow> rstr option) \<Rightarrow> nat \<Rightarrow> file_persistence \<Rightarrow> u8 list \<Rightarrow> file_system \<Rightarrow>
     (persistence_error + unit) \<times> file_system" where
  "file_save io written f bytes fs =
     (let tmp = tmp_path f in
      case io Create_tmp of
        Some e \<Rightarrow> (Inl (Io e), fs)
      | None \<Rightarrow>
          (case io Write_tmp of
             Some e \<Rightarrow> (Inl (Io e), fs(tmp \<mapsto> take written bytes))
           | None \<Rightarrow>
               (case io Sync_tmp of
                  Some e \<Rightarrow> (Inl (Io e), fs(tmp \<mapsto> bytes))
                | None \<Rightarrow>
                    (case io Rename_tmp of
                       Some e \<Rightarrow> (Inl (Io e), fs(tmp \<mapsto> bytes))
                     | None \<Rightarrow> (Inr (), fs(tmp := None, file_path f \<mapsto> bytes))))))"

text \<open>A missing file is not an error; \<open>io Read_path\<close> is any other failure of the read.\<close>

definition file_load ::
    "(io_call \<Rightarrow> rstr option) \<Rightarrow> file_persistence \<Rightarrow> file_system \<Rightarrow>
     persistence_error + u8 list option" where
  "file_load io f fs =
     (case fs (file_path f) of
        None \<Rightarrow> Inr None
      | Some bytes \<Rightarrow> (case io Read_path of Some e \<Rightarrow> Inl (Io e) | None \<Rightarrow> Inr (Some bytes)))"

text \<open>
  The file systems a save goes through, when no call fails: before it, after the creation of the
  temporary file, after each byte written to it, and after the rename.
\<close>

definition file_save_states :: "file_persistence \<Rightarrow> u8 list \<Rightarrow> file_system \<Rightarrow> file_system list" where
  "file_save_states f bytes fs =
     fs # map (\<lambda>k. fs(tmp_path f \<mapsto> take k bytes)) [0..<Suc (length bytes)] @
     [fs(tmp_path f := None, file_path f \<mapsto> bytes)]"

lemma tmp_path_ne [simp]: "tmp_path f \<noteq> file_path f" "file_path f \<noteq> tmp_path f"
  by (simp_all add: tmp_path_def)

section \<open>The contract of a backend\<close>

text \<open>A sequence of saves; the bytes of the last one that succeeded are returned.\<close>

fun save_all ::
    "(u8 list \<Rightarrow> 's \<Rightarrow> (persistence_error + unit) \<times> 's) \<Rightarrow> u8 list list \<Rightarrow> u8 list option \<Rightarrow> 's \<Rightarrow>
     u8 list option \<times> 's" where
  "save_all save [] stored s = (stored, s)"
| "save_all save (b # bs) stored s =
     (case save b s of
        (Inl e, s') \<Rightarrow> save_all save bs stored s'
      | (Inr u, s') \<Rightarrow> save_all save bs (Some b) s')"

text \<open>
  What the miner relies on: a successful save is what the next load returns, and a failed one
  leaves the previous snapshot in place.
\<close>

locale persistence =
  fixes save :: "u8 list \<Rightarrow> 's \<Rightarrow> (persistence_error + unit) \<times> 's"
    and load :: "'s \<Rightarrow> persistence_error + u8 list option"
  assumes save_load: "save bytes s = (Inr (), s') \<Longrightarrow> load s' = Inr (Some bytes)"
    and save_failed: "save bytes s = (Inl e, s') \<Longrightarrow> load s' = load s"
begin

text \<open>After any number of saves, a load returns the bytes of the last one that succeeded.\<close>

lemma save_all_load:
  "load s = Inr stored \<Longrightarrow> save_all save bss stored s = (stored', s') \<Longrightarrow> load s' = Inr stored'"
proof (induction bss arbitrary: stored s)
  case (Cons b bss)
  obtain r s1 where r: "save b s = (r, s1)" by (cases "save b s")
  show ?case
  proof (cases r)
    case (Inl e)
    with Cons r save_failed [of b s e s1] show ?thesis by simp
  next
    case (Inr u)
    with Cons r save_load [of b s s1] show ?thesis by simp
  qed
qed simp

end

interpretation memory_backend: persistence memory_save memory_load
  by unfold_locales (auto simp: memory_save_def memory_load_def)

interpretation file_backend: persistence "file_save io written f" "file_load (io(Read_path := None)) f"
  for io written f
  by unfold_locales
    (auto simp: file_save_def file_load_def Let_def split: option.splits)

section \<open>Saving and loading the miner\<close>

definition save_state ::
    "('re snapshot_v1 \<Rightarrow> u8 list) \<Rightarrow> u64 list \<Rightarrow> (u8 list \<Rightarrow> 's \<Rightarrow> (persistence_error + unit) \<times> 's) \<Rightarrow>
     're miner \<Rightarrow> 's \<Rightarrow> (logdrain_error + unit) \<times> 's" where
  "save_state ser order save m s =
     (case save (snapshot ser order m) s of
        (Inl e, s') \<Rightarrow> (Inl (Persistence_failed e), s')
      | (Inr u, s') \<Rightarrow> (Inr (), s'))"

definition load_state ::
    "(u8 list \<Rightarrow> rstr + 're snapshot_v1) \<Rightarrow> (u8 list \<Rightarrow> rstr + 're snapshot_body_v2) \<Rightarrow>
     ('s \<Rightarrow> persistence_error + u8 list option) \<Rightarrow> 's \<Rightarrow> 're miner \<Rightarrow>
     ((logdrain_error + bool) \<times> 're miner) option" where
  "load_state de3 de2 load s m =
     (case load s of
        Inl e \<Rightarrow> Some (Inl (Persistence_failed e), m)
      | Inr None \<Rightarrow> Some (Inr False, m)
      | Inr (Some bytes) \<Rightarrow>
          map_option (\<lambda>(r, m'). (case r of Inl e \<Rightarrow> Inl e | Inr u \<Rightarrow> Inr True, m'))
            (restore de3 de2 bytes m))"

context persistence
begin

text \<open>A saved miner loads from any backend that keeps the contract.\<close>

lemma save_then_load:
  assumes "save_state ser order save m s = (Inr (), s')"
    and "restore de3 de2 (snapshot ser order m) m2 = Some (Inr (), m')"
  shows "load_state de3 de2 load s' m2 = Some (Inr True, m')"
  using assms save_load
  by (auto simp: save_state_def load_state_def split: prod.splits sum.splits)

lemma failed_save_keeps:
  assumes "save_state ser order save m s = (Inl e, s')"
  shows "load_state de3 de2 load s' m2 = load_state de3 de2 load s m2"
proof -
  from assms obtain e' where "save (snapshot ser order m) s = (Inl e', s')"
    by (auto simp: save_state_def split: prod.splits sum.splits)
  from save_failed [OF this] show ?thesis by (simp add: load_state_def)
qed

end

section \<open>Properties\<close>


text \<open>
  C27.  Saving a miner and loading the state into another one with the same options, through the
  file backend, with reads and writes that succeed, returns \<open>true\<close> and installs exactly the
  saved clusters under their ids, up to the creation time's milliseconds and the recency.
\<close>

theorem file_save_load_state:
  assumes "miner_inv m" "distinct order" "set order = fmdom' (clusters_by_id m)"
    "options m2 = options m"
    "de3 (ser (snapshot_body order m)) = Inr ((snapshot_body order m)\<lparr>sn_options := o'\<rparr>)"
    "\<And>c. io c = None"
  shows "case save_state ser order (file_save io written f) m fs of (r, fs') \<Rightarrow>
    r = Inr () \<and>
    (\<exists>m'. load_state de3 de2 (file_load io f) fs' m2 = Some (Inr True, m') \<and> miner_inv m' \<and>
      (\<forall>i. body_of m' i = map_option reloaded (body_of m i)))"
proof -
  obtain m' where m': "restore de3 de2 (snapshot ser order m) m2 = Some (Inr (), m')" "miner_inv m'"
    "\<forall>i. body_of m' i = map_option reloaded (body_of m i)"
    using restore_snapshot_ok [OF assms(1-4), of de3 ser o' de2] assms(5) by metis
  obtain fs' where fs': "save_state ser order (file_save io written f) m fs = (Inr (), fs')"
    using assms(6) by (simp add: save_state_def file_save_def Let_def)
  have "io(Read_path := None) = io" using assms(6) by auto
  with file_backend.save_then_load [OF fs' m'(1)] have
    "load_state de3 de2 (file_load io f) fs' m2 = Some (Inr True, m')" by metis
  with fs' m' show ?thesis by simp
qed

theorem file_save_load_state_witness:
  "\<exists>m'. load_state (\<lambda>_. Inr (snapshot_body [2, 1] tie_miner)) (\<lambda>_. Inl [])
      (file_load (\<lambda>_. None) (file_new (str ''s'')))
      (snd (save_state (\<lambda>_. []) [2, 1] (file_save (\<lambda>_. None) 0 (file_new (str ''s''))) tie_miner
        (\<lambda>_. None)))
      (from_options tie_options) = Some (Inr True, m') \<and>
    body_of m' 2 = map_option reloaded (body_of tie_miner 2)"
proof -
  have "(snapshot_body [2, 1] tie_miner)\<lparr>sn_options := sn_options (snapshot_body [2, 1] tie_miner)\<rparr> =
      snapshot_body [2, 1] tie_miner" by simp
  with file_save_load_state [OF tie_miner_ok(1), of "[2, 1]" "from_options tie_options"
      "\<lambda>_. Inr (snapshot_body [2, 1] tie_miner)" "\<lambda>_. []"
      "sn_options (snapshot_body [2, 1] tie_miner)" "\<lambda>_. None" "\<lambda>_. Inl []"
      "file_new (str ''s'')" 0 "\<lambda>_. None"]
  show ?thesis
    by (auto simp: tie_miner_clusters tie_miner_ok(2) insert_commute [of 2] split: prod.splits)
qed

text \<open>
  C28.  Loading is total and never leaves a half-restored miner on an error.  Whatever the backend
  returns, valid or not, no tree operation panics; when the backend fails, when the bytes are not
  a snapshot this version reads, or when nothing is stored, the miner is exactly as it was, and
  \<open>false\<close> is returned in the last case only.
\<close>

theorem load_state_total:
  "\<exists>r m'. load_state de3 de2 load s m = Some (r, m') \<and>
    (case r of
       Inl e \<Rightarrow> m' = m \<and>
         ((\<exists>pe. load s = Inl pe \<and> e = Persistence_failed pe) \<or>
          (\<exists>bytes. load s = Inr (Some bytes) \<and> decode de3 de2 bytes = Inl e))
     | Inr False \<Rightarrow> m' = m \<and> load s = Inr None
     | Inr True \<Rightarrow> options m' = options m \<and> tick m' = tick m \<and>
         (\<exists>bytes body. load s = Inr (Some bytes) \<and> decode de3 de2 bytes = Inr body))"
proof (cases "load s")
  case (Inr l)
  show ?thesis
  proof (cases l)
    case (Some bytes)
    show ?thesis
    proof (cases "decode de3 de2 bytes")
      case d: (Inr body)
      let ?m0 = "m\<lparr>shards := fmempty, clusters_by_id := fmempty, counter := sn_counter body\<rparr>"
      have "trees_ok ?m0" by (simp add: trees_ok_def)
      from restore_loop_total [OF this, of "sn_clusters body"] obtain m' where
        "restore_loop (sn_clusters body) ?m0 = Some m'" "options m' = options m" "tick m' = tick m"
        by auto
      with Inr Some d show ?thesis by (simp add: load_state_def restore_def)
    qed (use Inr Some in \<open>simp add: load_state_def restore_def\<close>)
  qed (use Inr in \<open>simp add: load_state_def\<close>)
qed (simp add: load_state_def)

end
