(* ===== verification/Remote_Persistence.thy ===== *)
theory Remote_Persistence
  imports Persistence
begin

text \<open>
  Model of the two feature-gated backends of \<^verbatim>\<open>crates/logdrain/src/persistence.rs\<close>.
  The client crates \<^verbatim>\<open>redis\<close> and \<^verbatim>\<open>rdkafka\<close> are parameters: records
  of the calls the sources make, on a world \<open>'w\<close> that holds the server and the network.  A
  client's error is its message.
\<close>

section \<open>Redis\<close>

record ('c, 'n, 'w) redis_lib =
  client_open :: "rstr \<Rightarrow> rstr + 'c"
  get_connection :: "'c \<Rightarrow> 'w \<Rightarrow> (rstr + 'n) \<times> 'w"
  conn_set :: "'n \<Rightarrow> rstr \<Rightarrow> u8 list \<Rightarrow> 'w \<Rightarrow> (rstr + unit) \<times> 'w"
  conn_get :: "'n \<Rightarrow> rstr \<Rightarrow> 'w \<Rightarrow> (rstr + u8 list option) \<times> 'w"

record 'c redis_persistence =
  redis_client :: 'c
  redis_key :: rstr

definition redis_new ::
    "('c, 'n, 'w) redis_lib \<Rightarrow> rstr \<Rightarrow> rstr \<Rightarrow> persistence_error + 'c redis_persistence" where
  "redis_new lib url key =
     (case client_open lib url of
        Inl e \<Rightarrow> Inl (Backend e)
      | Inr c \<Rightarrow> Inr \<lparr>redis_client = c, redis_key = key\<rparr>)"

definition redis_save ::
    "('c, 'n, 'w) redis_lib \<Rightarrow> 'c redis_persistence \<Rightarrow> u8 list \<Rightarrow> 'w \<Rightarrow>
     (persistence_error + unit) \<times> 'w" where
  "redis_save lib p bytes w =
     (case get_connection lib (redis_client p) w of
        (Inl e, w1) \<Rightarrow> (Inl (Backend e), w1)
      | (Inr conn, w1) \<Rightarrow>
          (case conn_set lib conn (redis_key p) bytes w1 of
             (Inl e, w2) \<Rightarrow> (Inl (Backend e), w2)
           | (Inr u, w2) \<Rightarrow> (Inr (), w2)))"

definition redis_load ::
    "('c, 'n, 'w) redis_lib \<Rightarrow> 'c redis_persistence \<Rightarrow> 'w \<Rightarrow>
     (persistence_error + u8 list option) \<times> 'w" where
  "redis_load lib p w =
     (case get_connection lib (redis_client p) w of
        (Inl e, w1) \<Rightarrow> (Inl (Backend e), w1)
      | (Inr conn, w1) \<Rightarrow>
          (case conn_get lib conn (redis_key p) w1 of
             (Inl e, w2) \<Rightarrow> (Inl (Backend e), w2)
           | (Inr v, w2) \<Rightarrow> (Inr v, w2)))"

text \<open>
  What the backend relies on, with \<open>stored w\<close> the server's keys: opening a connection and
  reading change no key, a successful SET stores the value under its key, a successful GET
  returns the value of its key, and a SET whose answer is an error may have been executed or not.
\<close>

definition redis_ok :: "('c, 'n, 'w) redis_lib \<Rightarrow> ('w \<Rightarrow> rstr \<Rightarrow> u8 list option) \<Rightarrow> bool" where
  "redis_ok lib stored \<longleftrightarrow>
     (\<forall>c w r w'. get_connection lib c w = (r, w') \<longrightarrow> stored w' = stored w) \<and>
     (\<forall>n k w r w'. conn_get lib n k w = (r, w') \<longrightarrow>
        stored w' = stored w \<and> (\<forall>v. r = Inr v \<longrightarrow> v = stored w k)) \<and>
     (\<forall>n k b w r w'. conn_set lib n k b w = (r, w') \<longrightarrow>
        stored w' = (stored w)(k \<mapsto> b) \<or> (\<exists>e. r = Inl e) \<and> stored w' = stored w)"

lemma redis_okD:
  assumes "redis_ok lib stored"
  shows "get_connection lib c w = (r, w') \<Longrightarrow> stored w' = stored w"
    "conn_get lib n k w = (g, w') \<Longrightarrow> stored w' = stored w"
    "conn_get lib n k w = (Inr v, w') \<Longrightarrow> v = stored w k"
    "conn_set lib n k b w = (Inr u, w') \<Longrightarrow> stored w' = (stored w)(k \<mapsto> b)"
    "conn_set lib n k b w = (Inl e, w') \<Longrightarrow> stored w' = (stored w)(k \<mapsto> b) \<or> stored w' = stored w"
  using assms unfolding redis_ok_def by blast+

lemma redis_save_stored:
  assumes "redis_ok lib stored" "redis_save lib p bytes w = (r, w')"
  shows "stored w' = (stored w)(redis_key p \<mapsto> bytes) \<or> (\<exists>e. r = Inl e) \<and> stored w' = stored w"
proof -
  obtain c w1 where c: "get_connection lib (redis_client p) w = (c, w1)"
    by (cases "get_connection lib (redis_client p) w")
  note s1 = redis_okD(1) [OF assms(1) c]
  show ?thesis
  proof (cases c)
    case (Inl e)
    with assms(2) c s1 show ?thesis by (auto simp: redis_save_def)
  next
    case (Inr n)
    obtain q w2 where q: "conn_set lib n (redis_key p) bytes w1 = (q, w2)"
      by (cases "conn_set lib n (redis_key p) bytes w1")
    show ?thesis
    proof (cases q)
      case (Inl e)
      with assms(2) c Inr q redis_okD(5) [OF assms(1) q [unfolded Inl]] s1 show ?thesis
        by (auto simp: redis_save_def)
    next
      case r: (Inr u)
      with assms(2) c Inr q redis_okD(4) [OF assms(1) q [unfolded r]] s1 show ?thesis
        by (auto simp: redis_save_def)
    qed
  qed
qed

lemma redis_load_stored:
  assumes "redis_ok lib stored" "redis_load lib p w = (r, w')"
  shows "stored w' = stored w" "r = Inr v \<Longrightarrow> v = stored w (redis_key p)"
proof -
  have "stored w' = stored w \<and> (\<forall>v. r = Inr v \<longrightarrow> v = stored w (redis_key p))"
  proof (cases "get_connection lib (redis_client p) w")
    case (Pair c w1)
    note s1 = redis_okD(1) [OF assms(1) Pair]
    show ?thesis
    proof (cases c)
      case (Inl e)
      with assms(2) Pair s1 show ?thesis by (auto simp: redis_load_def)
    next
      case (Inr n)
      obtain q w2 where q: "conn_get lib n (redis_key p) w1 = (q, w2)"
        by (cases "conn_get lib n (redis_key p) w1")
      show ?thesis
      proof (cases q)
        case (Inl e)
        with assms(2) Pair Inr q redis_okD(2) [OF assms(1) q] s1 show ?thesis
          by (auto simp: redis_load_def)
      next
        case r: (Inr u)
        with assms(2) Pair Inr q redis_okD(2) [OF assms(1) q] redis_okD(3) [OF assms(1) q [unfolded r]] s1
        show ?thesis by (auto simp: redis_load_def)
      qed
    qed
  qed
  then show "stored w' = stored w" "r = Inr v \<Longrightarrow> v = stored w (redis_key p)" by blast+
qed

section \<open>Kafka\<close>

text \<open>
  The calls on a producer and a consumer.  A configuration is the list of the pairs set on
  \<^verbatim>\<open>ClientConfig\<close>; the watermarks are those of partition 0; a polled message is its
  payload.
\<close>

record ('p, 'k, 'l, 'w) kafka_lib =
  create_producer :: "(rstr \<times> rstr) list \<Rightarrow> 'w \<Rightarrow> (rstr + 'p) \<times> 'w"
  producer_send :: "'p \<Rightarrow> rstr \<Rightarrow> rstr \<Rightarrow> u8 list \<Rightarrow> 'w \<Rightarrow> (rstr + unit) \<times> 'w"
  producer_flush :: "'p \<Rightarrow> nat \<Rightarrow> 'w \<Rightarrow> (rstr + unit) \<times> 'w"
  create_consumer :: "(rstr \<times> rstr) list \<Rightarrow> 'w \<Rightarrow> (rstr + 'k) \<times> 'w"
  fetch_watermarks :: "'k \<Rightarrow> rstr \<Rightarrow> nat \<Rightarrow> nat \<Rightarrow> 'w \<Rightarrow> (rstr + int \<times> int) \<times> 'w"
  add_partition_offset :: "rstr \<Rightarrow> nat \<Rightarrow> int \<Rightarrow> rstr + 'l"
  assign_list :: "'k \<Rightarrow> 'l \<Rightarrow> 'w \<Rightarrow> (rstr + unit) \<times> 'w"
  poll :: "'k \<Rightarrow> nat \<Rightarrow> 'w \<Rightarrow> (rstr + u8 list option) option \<times> 'w"

definition SNAPSHOT_KEY :: rstr where
  "SNAPSHOT_KEY = str ''logdrain-snapshot''"

text \<open>The timeout is in seconds.\<close>

record kafka_persistence =
  brokers :: rstr
  topic :: rstr
  timeout :: nat

definition kafka_new :: "rstr \<Rightarrow> rstr \<Rightarrow> kafka_persistence" where
  "kafka_new b t = \<lparr>brokers = b, topic = t, timeout = 10\<rparr>"

definition with_timeout :: "nat \<Rightarrow> kafka_persistence \<Rightarrow> kafka_persistence" where
  "with_timeout t p = p\<lparr>timeout := t\<rparr>"

definition kafka_save ::
    "('p, 'k, 'l, 'w) kafka_lib \<Rightarrow> kafka_persistence \<Rightarrow> u8 list \<Rightarrow> 'w \<Rightarrow>
     (persistence_error + unit) \<times> 'w" where
  "kafka_save lib p bytes w =
     (case create_producer lib [(str ''bootstrap.servers'', brokers p)] w of
        (Inl e, w1) \<Rightarrow> (Inl (Backend e), w1)
      | (Inr pr, w1) \<Rightarrow>
          (case producer_send lib pr (topic p) SNAPSHOT_KEY bytes w1 of
             (Inl e, w2) \<Rightarrow> (Inl (Backend e), w2)
           | (Inr u, w2) \<Rightarrow>
               (case producer_flush lib pr (timeout p) w2 of
                  (Inl e, w3) \<Rightarrow> (Inl (Backend e), w3)
                | (Inr u, w3) \<Rightarrow> (Inr (), w3))))"

definition kafka_load ::
    "('p, 'k, 'l, 'w) kafka_lib \<Rightarrow> kafka_persistence \<Rightarrow> 'w \<Rightarrow>
     (persistence_error + u8 list option) \<times> 'w" where
  "kafka_load lib p w =
     (case create_consumer lib
        [(str ''bootstrap.servers'', brokers p), (str ''group.id'', str ''logdrain-loader''),
         (str ''enable.auto.commit'', str ''false'')] w of
        (Inl e, w1) \<Rightarrow> (Inl (Backend e), w1)
      | (Inr con, w1) \<Rightarrow>
          (case fetch_watermarks lib con (topic p) 0 (timeout p) w1 of
             (Inl e, w2) \<Rightarrow> (Inl (Backend e), w2)
           | (Inr (low, high), w2) \<Rightarrow>
               if high \<le> low then (Inr None, w2)
               else
                 (case add_partition_offset lib (topic p) 0 (high - 1) of
                    Inl e \<Rightarrow> (Inl (Backend e), w2)
                  | Inr tpl \<Rightarrow>
                      (case assign_list lib con tpl w2 of
                         (Inl e, w3) \<Rightarrow> (Inl (Backend e), w3)
                       | (Inr u, w3) \<Rightarrow>
                           (case poll lib con (timeout p) w3 of
                              (Some (Inr payload), w4) \<Rightarrow> (Inr payload, w4)
                            | (Some (Inl e), w4) \<Rightarrow> (Inl (Backend e), w4)
                            | (None, w4) \<Rightarrow> (Inr None, w4))))))"

text \<open>
  What the Kafka backend relies on.  \<open>recs w t\<close> are the records that partition 0 of the topic
  \<open>t\<close> keeps (a compacted topic drops old ones, never the last), \<open>outbox p w\<close> those a
  producer has accepted and not yet brought to the broker, \<open>high w t\<close> the offset behind the
  last record, \<open>target l\<close> what a partition list names and \<open>assigned k w\<close> what a
  consumer reads.  The topic has one partition.  A record accepted by a producer is delivered at once, or while
  the producer is flushed, or not at all: a flush waits until every delivery has
  ended, and a delivery that failed is reported to a callback of the client only.
\<close>

definition deliver ::
    "(rstr \<times> u8 list) list \<Rightarrow> (rstr \<Rightarrow> u8 list list) \<Rightarrow> rstr \<Rightarrow> u8 list list" where
  "deliver ds logs t = logs t @ map snd (filter (\<lambda>d. fst d = t) ds)"

definition producer_ok ::
    "('p, 'k, 'l, 'w) kafka_lib \<Rightarrow> ('w \<Rightarrow> rstr \<Rightarrow> u8 list list) \<Rightarrow> ('p \<Rightarrow> 'w \<Rightarrow> (rstr \<times> u8 list) list) \<Rightarrow> bool" where
  "producer_ok lib recs outbox \<longleftrightarrow>
     (\<forall>cfg w r w'. create_producer lib cfg w = (r, w') \<longrightarrow>
        recs w' = recs w \<and> (\<forall>p. r = Inr p \<longrightarrow> outbox p w' = [])) \<and>
     (\<forall>p t k b w r w'. producer_send lib p t k b w = (r, w') \<longrightarrow>
        (case r of
           Inl e \<Rightarrow> recs w' = recs w
         | Inr u \<Rightarrow> (recs w' = recs w \<and> outbox p w' = outbox p w @ [(t, b)]) \<or>
             (recs w' = deliver [(t, b)] (recs w) \<and> outbox p w' = outbox p w))) \<and>
     (\<forall>p s w r w'. producer_flush lib p s w = (r, w') \<longrightarrow>
        (\<exists>ds \<in> set (subseqs (outbox p w)). recs w' = deliver ds (recs w)))"

definition consumer_ok ::
    "('p, 'k, 'l, 'w) kafka_lib \<Rightarrow> ('w \<Rightarrow> rstr \<Rightarrow> u8 list list) \<Rightarrow> ('w \<Rightarrow> rstr \<Rightarrow> int) \<Rightarrow>
      ('l \<Rightarrow> rstr \<times> nat \<times> int) \<Rightarrow> ('k \<Rightarrow> 'w \<Rightarrow> (rstr \<times> nat \<times> int) option) \<Rightarrow> bool" where
  "consumer_ok lib recs high target assigned \<longleftrightarrow>
     (\<forall>cfg w r w'. create_consumer lib cfg w = (r, w') \<longrightarrow> recs w' = recs w) \<and>
     (\<forall>k t s w r w'. fetch_watermarks lib k t 0 s w = (r, w') \<longrightarrow>
        recs w' = recs w \<and>
        (\<forall>lo hi. r = Inr (lo, hi) \<longrightarrow> high w' t = hi \<and> (hi \<le> lo \<longleftrightarrow> recs w t = []))) \<and>
     (\<forall>t n off l. add_partition_offset lib t n off = Inr l \<longrightarrow> target l = (t, n, off)) \<and>
     (\<forall>k l w r w'. assign_list lib k l w = (r, w') \<longrightarrow>
        recs w' = recs w \<and> high w' = high w \<and> (r = Inr () \<longrightarrow> assigned k w' = Some (target l))) \<and>
     (\<forall>k s w r w'. poll lib k s w = (r, w') \<longrightarrow>
        recs w' = recs w \<and>
        (\<forall>t v. r = Some (Inr v) \<longrightarrow> assigned k w = Some (t, 0, high w t - 1) \<longrightarrow> recs w t \<noteq> [] \<longrightarrow>
           v = Some (last (recs w t))))"

lemma producer_okD:
  assumes "producer_ok lib recs outbox"
  shows "create_producer lib cfg w = (r, w') \<Longrightarrow> recs w' = recs w"
    "create_producer lib cfg w = (Inr p, w') \<Longrightarrow> outbox p w' = []"
    "producer_send lib p t k b w = (Inl e, w') \<Longrightarrow> recs w' = recs w"
    "producer_send lib p t k b w = (Inr u, w') \<Longrightarrow>
       (recs w' = recs w \<and> outbox p w' = outbox p w @ [(t, b)]) \<or>
       (recs w' = deliver [(t, b)] (recs w) \<and> outbox p w' = outbox p w)"
    "producer_flush lib p s w = (q, w') \<Longrightarrow>
       \<exists>ds \<in> set (subseqs (outbox p w)). recs w' = deliver ds (recs w)"
  using assms unfolding producer_ok_def by fastforce+

lemma consumer_okD:
  assumes "consumer_ok lib recs high target assigned"
  shows "create_consumer lib cfg w = (r, w') \<Longrightarrow> recs w' = recs w"
    "fetch_watermarks lib k t 0 s w = (r1, w') \<Longrightarrow> recs w' = recs w"
    "fetch_watermarks lib k t 0 s w = (Inr (lo, hi), w') \<Longrightarrow> high w' t = hi \<and> (hi \<le> lo \<longleftrightarrow> recs w t = [])"
    "add_partition_offset lib t n off = Inr l \<Longrightarrow> target l = (t, n, off)"
    "assign_list lib k l w = (r2, w') \<Longrightarrow> recs w' = recs w \<and> high w' = high w"
    "assign_list lib k l w = (Inr u, w') \<Longrightarrow> assigned k w' = Some (target l)"
    "poll lib k s w = (r3, w') \<Longrightarrow> recs w' = recs w"
    "poll lib k s w = (Some (Inr v), w') \<Longrightarrow> assigned k w = Some (t, 0, high w t - 1) \<Longrightarrow>
       recs w t \<noteq> [] \<Longrightarrow> v = Some (last (recs w t))"
  using assms unfolding consumer_ok_def by fastforce+

lemma deliver_simps [simp]:
  "deliver [] logs = logs" "deliver [(t, b)] logs = logs(t := logs t @ [b])"
  by (auto simp: deliver_def fun_eq_iff)

text \<open>A save adds at most its one record, and a load reads the last one.\<close>

lemma kafka_save_recs:
  assumes ok: "producer_ok lib recs outbox" and save: "kafka_save lib p bytes w = (r, w')"
  shows "recs w' = recs w \<or> recs w' = deliver [(topic p, bytes)] (recs w)"
proof -
  obtain c w1 where c: "create_producer lib [(str ''bootstrap.servers'', brokers p)] w = (c, w1)"
    by fastforce
  show ?thesis
  proof (cases c)
    case (Inl e)
    with save c producer_okD(1) [OF ok c] show ?thesis by (auto simp: kafka_save_def)
  next
    case (Inr pr)
    obtain q w2 where q: "producer_send lib pr (topic p) SNAPSHOT_KEY bytes w1 = (q, w2)" by fastforce
    show ?thesis
    proof (cases q)
      case (Inl e)
      with save c Inr q producer_okD(1) [OF ok c] producer_okD(3) [OF ok q [unfolded Inl]]
      show ?thesis by (auto simp: kafka_save_def)
    next
      case u: (Inr u)
      obtain x w3 where x: "producer_flush lib pr (timeout p) w2 = (x, w3)" by fastforce
      have "w' = w3" using save c Inr q u x by (auto simp: kafka_save_def split: sum.splits)
      with producer_okD(4) [OF ok q [unfolded u]] producer_okD(5) [OF ok x] producer_okD(1) [OF ok c]
        producer_okD(2) [OF ok c [unfolded Inr]]
      show ?thesis by (auto simp: Let_def)
    qed
  qed
qed

lemma kafka_load_SomeE:
  assumes "kafka_load lib p w = (Inr (Some b), w')"
  obtains con w1 lo hi w2 tpl u w3 where
    "create_consumer lib
       [(str ''bootstrap.servers'', brokers p), (str ''group.id'', str ''logdrain-loader''),
        (str ''enable.auto.commit'', str ''false'')] w = (Inr con, w1)"
    "fetch_watermarks lib con (topic p) 0 (timeout p) w1 = (Inr (lo, hi), w2)" "lo < hi"
    "add_partition_offset lib (topic p) 0 (hi - 1) = Inr tpl" "assign_list lib con tpl w2 = (Inr u, w3)"
    "poll lib con (timeout p) w3 = (Some (Inr (Some b)), w')"
  using assms by (auto simp: kafka_load_def split: option.splits sum.splits prod.splits if_splits)

lemma kafka_load_same:
  assumes ok: "consumer_ok lib recs high target assigned" and load: "kafka_load lib p w = (q, w')"
  shows "recs w' = recs w"
  using load
  by (auto simp: kafka_load_def split: option.splits sum.splits prod.splits if_splits
      dest!: consumer_okD(1,2,7) [OF ok] consumer_okD(5) [OF ok, THEN conjunct1])

lemma kafka_load_recs:
  assumes ok: "consumer_ok lib recs high target assigned" and load: "kafka_load lib p w = (Inr (Some b), w')"
  shows "recs w (topic p) \<noteq> [] \<and> b = last (recs w (topic p))"
proof (rule kafka_load_SomeE [OF load])
  fix con w1 lo hi w2 tpl u w3
  assume s: "fetch_watermarks lib con (topic p) 0 (timeout p) w1 = (Inr (lo, hi), w2)" "lo < hi"
    "add_partition_offset lib (topic p) 0 (hi - 1) = Inr tpl" "assign_list lib con tpl w2 = (Inr u, w3)"
    "poll lib con (timeout p) w3 = (Some (Inr (Some b)), w')"
    and c: "create_consumer lib
       [(str ''bootstrap.servers'', brokers p), (str ''group.id'', str ''logdrain-loader''),
        (str ''enable.auto.commit'', str ''false'')] w = (Inr con, w1)"
  have "recs w3 = recs w" "high w3 (topic p) = hi" "recs w (topic p) \<noteq> []"
    "assigned con w3 = Some (topic p, 0, hi - 1)"
    using consumer_okD(1) [OF ok c] consumer_okD(2,3) [OF ok s(1)] s(2) consumer_okD(4) [OF ok s(3)]
      consumer_okD(5,6) [OF ok s(4)] by auto
  with consumer_okD(8) [OF ok s(5), of "topic p"] show ?thesis by simp
qed

section \<open>Properties\<close>

text \<open>
  C29.  The Redis backend returns what was saved last.  On a server that keeps its keys, a save
  that succeeds makes every following load that succeeds return exactly its bytes and touches no
  other key; a save that fails leaves the previous snapshot or the new one; and a load changes
  nothing.
\<close>

theorem redis_save_load:
  assumes "redis_ok lib stored" "redis_save lib p bytes w = (r, w1)" "redis_load lib p w1 = (q, w2)"
  shows "(r = Inr () \<longrightarrow> stored w1 = (stored w)(redis_key p \<mapsto> bytes)) \<and> stored w2 = stored w1 \<and>
    (case q of
       Inl e \<Rightarrow> \<exists>msg. e = Backend msg
     | Inr v \<Rightarrow> v = Some bytes \<or> (\<exists>e. r = Inl e) \<and> v = stored w (redis_key p))"
proof (cases q)
  case (Inl e)
  have "\<exists>msg. e = Backend msg"
    using assms(3) Inl by (auto simp: redis_load_def split: prod.splits sum.splits)
  with Inl redis_save_stored [OF assms(1,2)] redis_load_stored(1) [OF assms(1,3)] show ?thesis by auto
next
  case (Inr v)
  with redis_save_stored [OF assms(1,2)] redis_load_stored [OF assms(1,3)] show ?thesis by auto
qed

text \<open>A server that always answers: the world is its keys.\<close>

definition map_redis :: "(unit, unit, rstr \<Rightarrow> u8 list option) redis_lib" where
  "map_redis = \<lparr>client_open = (\<lambda>_. Inr ()), get_connection = (\<lambda>_ w. (Inr (), w)),
     conn_set = (\<lambda>_ k b w. (Inr (), w(k \<mapsto> b))), conn_get = (\<lambda>_ k w. (Inr (w k), w))\<rparr>"

theorem redis_save_load_witness:
  "redis_ok map_redis id \<and>
   redis_load map_redis \<lparr>redis_client = (), redis_key = str ''k''\<rparr>
     (snd (redis_save map_redis \<lparr>redis_client = (), redis_key = str ''k''\<rparr> [1, 2] (\<lambda>_. None))) =
   (Inr (Some [1, 2]), [str ''k'' \<mapsto> [1, 2]])"
proof -
  let ?p = "\<lparr>redis_client = (), redis_key = str ''k''\<rparr>"
  have ok: "redis_ok map_redis id" by (auto simp: redis_ok_def map_redis_def)
  have s: "redis_save map_redis ?p [1, 2] (\<lambda>_. None) = (Inr (), [str ''k'' \<mapsto> [1, 2]])"
    by (simp add: redis_save_def map_redis_def)
  have l: "redis_load map_redis ?p [str ''k'' \<mapsto> [1, 2]] =
      (Inr ([str ''k'' \<mapsto> [1, 2]] (str ''k'')), [str ''k'' \<mapsto> [1, 2]])"
    by (simp add: redis_load_def map_redis_def)
  from redis_save_load [OF ok s l] ok s l show ?thesis by simp
qed


text \<open>A broker with one partition per topic, whose deliveries all succeed or all fail.\<close>

record broker =
  b_recs :: "rstr \<Rightarrow> u8 list list"
  b_out :: "(rstr \<times> u8 list) list"
  b_at :: "(rstr \<times> nat \<times> int) option"

definition broker_kafka :: "bool \<Rightarrow> (unit, unit, rstr \<times> nat \<times> int, broker) kafka_lib" where
  "broker_kafka delivers =
     \<lparr>create_producer = (\<lambda>_ w. (Inr (), w\<lparr>b_out := []\<rparr>)),
      producer_send = (\<lambda>_ t _ b w. (Inr (), w\<lparr>b_out := b_out w @ [(t, b)]\<rparr>)),
      producer_flush = (\<lambda>_ _ w. (Inr (),
        w\<lparr>b_recs := if delivers then deliver (b_out w) (b_recs w) else b_recs w, b_out := []\<rparr>)),
      create_consumer = (\<lambda>_ w. (Inr (), w)),
      fetch_watermarks = (\<lambda>_ t _ _ w. (Inr (0, int (length (b_recs w t))), w)),
      add_partition_offset = (\<lambda>t n off. Inr (t, n, off)),
      assign_list = (\<lambda>_ l w. (Inr (), w\<lparr>b_at := Some l\<rparr>)),
      poll = (\<lambda>_ _ w. (case b_at w of
          None \<Rightarrow> None
        | Some (t, n, off) \<Rightarrow> if n = 0 \<and> 0 \<le> off \<and> off < int (length (b_recs w t))
            then Some (Inr (Some (b_recs w t ! nat off))) else None, w))\<rparr>"

lemma broker_producer_ok: "producer_ok (broker_kafka delivers) b_recs (\<lambda>_. b_out)"
proof -
  have "ds \<in> set (subseqs ds) \<and> [] \<in> set (subseqs ds)" for ds :: "(rstr \<times> u8 list) list"
    by (induction ds) (auto simp: Let_def)
  then have "\<exists>ds \<in> set (subseqs out). (if delivers then deliver out logs else logs) = deliver ds logs"
    for out logs
    by (metis deliver_simps(1))
  then show ?thesis by (simp add: producer_ok_def broker_kafka_def)
qed

lemma broker_consumer_ok:
  "consumer_ok (broker_kafka delivers) b_recs (\<lambda>w t. int (length (b_recs w t))) id (\<lambda>_. b_at)"
proof -
  have "nat (int (length xs) - 1) = length xs - Suc 0" for xs :: "u8 list list" by linarith
  then show ?thesis
    by (auto simp: consumer_ok_def broker_kafka_def last_conv_nth split: if_splits)
qed

abbreviation snapshots_topic :: kafka_persistence where
  "snapshots_topic \<equiv> kafka_new (str ''b:9092'') (str ''t'')"

abbreviation empty_broker :: broker where
  "empty_broker \<equiv> \<lparr>b_recs = \<lambda>_. [], b_out = [], b_at = None\<rparr>"

lemma broker_save:
  "kafka_save (broker_kafka delivers) snapshots_topic [1, 2] empty_broker =
     (Inr (), \<lparr>b_recs = if delivers then (\<lambda>_. [])(str ''t'' := [[1, 2]]) else (\<lambda>_. []),
       b_out = [], b_at = None\<rparr>)"
  by (simp add: kafka_save_def kafka_new_def broker_kafka_def)


text \<open>
  A save reports success also when its delivery failed: the backend flushes and does not ask for
  the delivery report.
\<close>

theorem kafka_save_unconfirmed:
  "kafka_save (broker_kafka False) snapshots_topic [1, 2] empty_broker = (Inr (), empty_broker) \<and>
   fst (kafka_load (broker_kafka False) snapshots_topic empty_broker) = Inr None"
  using broker_save [of False] by (simp add: kafka_load_def kafka_new_def broker_kafka_def)

text \<open>
  The backend cannot tell a lost read from an empty topic: when the topic holds a
  record (the watermarks differ) and the poll times out, loading reports success with nothing
  stored, exactly as for an empty topic, so \<^verbatim>\<open>load_state\<close> returns
  \<open>false\<close> and the miner starts afresh beside a stored snapshot.
\<close>

theorem kafka_timeout_looks_empty:
  assumes "create_consumer lib
      [(str ''bootstrap.servers'', brokers p), (str ''group.id'', str ''logdrain-loader''),
       (str ''enable.auto.commit'', str ''false'')] w = (Inr con, w1)"
    "fetch_watermarks lib con (topic p) 0 (timeout p) w1 = (Inr (low, high), w2)" "low < high"
    "add_partition_offset lib (topic p) 0 (high - 1) = Inr tpl"
    "assign_list lib con tpl w2 = (Inr (), w3)" "poll lib con (timeout p) w3 = (None, w4)"
  shows "load_state de3 de2 (fst \<circ> kafka_load lib p) w m = Some (Inr False, m)"
  using assms by (simp add: load_state_def kafka_load_def)

text \<open>A topic with one record, on a network that times out.\<close>

definition stalled_kafka :: "(unit, unit, unit, unit) kafka_lib" where
  "stalled_kafka =
     \<lparr>create_producer = (\<lambda>_ w. (Inr (), w)), producer_send = (\<lambda>_ _ _ _ w. (Inr (), w)),
      producer_flush = (\<lambda>_ _ w. (Inr (), w)), create_consumer = (\<lambda>_ w. (Inr (), w)),
      fetch_watermarks = (\<lambda>_ _ _ _ w. (Inr (0, 1), w)),
      add_partition_offset = (\<lambda>_ _ _. Inr ()), assign_list = (\<lambda>_ _ w. (Inr (), w)),
      poll = (\<lambda>_ _ w. (None, w))\<rparr>"

theorem kafka_timeout_looks_empty_witness:
  "load_state (\<lambda>_. Inl []) (\<lambda>_. Inl []) (fst \<circ> kafka_load stalled_kafka (kafka_new [] [])) ()
     (from_options tie_options) = Some (Inr False, from_options tie_options)"
  by (rule kafka_timeout_looks_empty [where low = 0 and high = 1]) (simp_all add: stalled_kafka_def)

end
