(* ===== verification/Concurrent.thy ===== *)
theory Concurrent
  imports Miner_Query
begin

text \<open>
  Concurrent ingest: any number of threads run \<^verbatim>\<open>Miner::add_inner\<close> on one miner.
  The program of a thread is cut at every access to shared state, one access per step: the
  acquisition of a shard lock, each cluster body that a scan reads, each atomic store of a hit,
  the drawing of an id and of a tick, the insertion and the removal in the id map.

  The shared memory holds the miner, whose map \<open>clusters_by_id\<close> is here the store the
  \<^verbatim>\<open>Arc\<close> handles point into: the body created with an id stays there as long as
  anybody may hold it.  \<open>live\<close> is the set of keys of the id map itself, so an evicted
  cluster leaves \<open>live\<close> and not the store.  Ids are not reused, as fewer than $2^{64}$ are
  drawn.  A lock is held by the threads whose program counter stands inside its guard.
\<close>

section \<open>Threads\<close>

record job =
  job_line :: rstr
  job_member :: "rstr option"
  job_event :: "u64 option"

text \<open>The atomic accesses of \<^verbatim>\<open>touch\<close> and \<^verbatim>\<open>observe_event\<close>.\<close>

datatype body_op = Count_hit | Stamp | Use_at u64 | Lower u64 | Raise u64

fun exec_op :: "systime \<Rightarrow> body_op \<Rightarrow> cluster_inner \<Rightarrow> cluster_inner" where
  "exec_op now Count_hit b = b\<lparr>hits := hits b + 1\<rparr>"
| "exec_op now Stamp b = b\<lparr>updated_at_ms := unix_ms now\<rparr>"
| "exec_op now (Use_at t) b = b\<lparr>last_used := t\<rparr>"
| "exec_op now (Lower ms) b = b\<lparr>event_first_ms := min (event_first_ms b) ms\<rparr>"
| "exec_op now (Raise ms) b = b\<lparr>event_last_ms := max (event_last_ms b) ms\<rparr>"

definition hit_ops :: "u64 \<Rightarrow> u64 option \<Rightarrow> body_op list" where
  "hit_ops t event_ms =
     [Count_hit, Stamp, Use_at t] @
     (case event_ms of None \<Rightarrow> [] | Some ms \<Rightarrow> [Lower ms, Raise ms])"

text \<open>
  The program counter with the locals.  A scan holds the ids still to visit and the best id so
  far with its score; \<open>Evict\<close> the ids still to visit and the candidate with its recency.
\<close>

datatype pc =
    Ready
  | Wait_read
  | Read_scan "u64 list" "(u64 \<times> f64) option"
  | Wait_write
  | Write_scan "u64 list" "(u64 \<times> f64) option"
  | Hit u64
  | Touching u64 "body_op list"
  | Change u64 bool
  | New
  | Numbered u64
  | Build u64 u64
  | Evict u64 "u64 list" "(u64 \<times> u64) option"
  | Insert u64
  | Finished add_result

record 're memory =
  store :: "'re miner"
  live :: "u64 fset"

abbreviation heap :: "'re memory \<Rightarrow> u64 \<Rightarrow> cluster_inner option" where
  "heap mem i \<equiv> fmlookup (clusters_by_id (store mem)) i"

definition write_body :: "u64 \<Rightarrow> cluster_inner \<Rightarrow> 're memory \<Rightarrow> 're memory" where
  "write_body i b mem =
     mem\<lparr>store := (store mem)\<lparr>clusters_by_id := fmupd i b (clusters_by_id (store mem))\<rparr>\<rparr>"

text \<open>The leaf that the guarded reference of phase 2 points to, read and written.\<close>

definition leaf_at :: "'re miner \<Rightarrow> token list \<Rightarrow> leaf_bucket option" where
  "leaf_at m toks =
     (case fmlookup (shards m) (length toks) of
        None \<Rightarrow> None
      | Some s \<Rightarrow> descend (root s) (descent_keys (options m) toks))"

definition set_leaf :: "token list \<Rightarrow> leaf_bucket \<Rightarrow> 're miner \<Rightarrow> 're miner" where
  "set_leaf toks leaf m =
     (case fmlookup (shards m) (length toks) of
        None \<Rightarrow> m
      | Some s \<Rightarrow>
          m\<lparr>shards := fmupd (length toks)
              \<lparr>root = write_leaf (root s) (descent_keys (options m) toks) leaf\<rparr> (shards m)\<rparr>)"

section \<open>Steps\<close>

text \<open>One id of a scan of \<^verbatim>\<open>best_match\<close>.\<close>

definition scan_one ::
    "'re memory \<Rightarrow> token list \<Rightarrow> u64 \<Rightarrow> (u64 \<times> f64) option \<Rightarrow> (u64 \<times> f64) option" where
  "scan_one mem toks i best =
     (case (if i |\<in>| live mem then heap mem i else None) of
        None \<Rightarrow> best
      | Some body \<Rightarrow>
          let sim = similarity (tokens body) toks (wildcard (options (store mem))) in
          (case best of
             None \<Rightarrow> Some (i, sim)
           | Some (_, b) \<Rightarrow> if f64_lt b sim then Some (i, sim) else best))"

definition scan_result :: "'re memory \<Rightarrow> (u64 \<times> f64) option \<Rightarrow> u64 option" where
  "scan_result mem best =
     (case best of
        Some (i, sim) \<Rightarrow> if f64_le (sim_threshold (options (store mem))) sim then Some i else None
      | None \<Rightarrow> None)"

text \<open>One id of the search for the victim in \<^verbatim>\<open>evict_if_full\<close>.\<close>

definition evict_one ::
    "'re memory \<Rightarrow> u64 \<Rightarrow> (u64 \<times> u64) option \<Rightarrow> (u64 \<times> u64) option" where
  "evict_one mem x best =
     (let key = (case (if x |\<in>| live mem then heap mem x else None) of Some a \<Rightarrow> recency a | None \<Rightarrow> 0)
      in case best of
           None \<Rightarrow> Some (x, key)
         | Some (_, k) \<Rightarrow> if key < k then Some (x, key) else best)"

definition job_toks :: "('re \<Rightarrow> rstr \<Rightarrow> rstr \<Rightarrow> cow) \<Rightarrow> 're options \<Rightarrow> job \<Rightarrow> token list" where
  "job_toks replace_all opt j = fst (preprocess replace_all opt (job_line j))"

definition job_suffix :: "('re \<Rightarrow> rstr \<Rightarrow> rstr \<Rightarrow> cow) \<Rightarrow> 're options \<Rightarrow> job \<Rightarrow> rstr option" where
  "job_suffix replace_all opt j = snd (preprocess replace_all opt (job_line j))"

text \<open>
  The next step of a thread with tokens \<open>toks\<close>; \<open>now\<close> is the clock at the step and
  \<open>None\<close> a panic.  The locks are not looked at here.
\<close>

fun pc_next ::
    "systime \<Rightarrow> token list \<Rightarrow> rstr option \<Rightarrow> job \<Rightarrow> pc \<Rightarrow> 're memory \<Rightarrow>
     (pc \<times> 're memory) option" where
  "pc_next now toks suffix j Ready mem =
     Some (Wait_read, mem\<lparr>store := snd (shard_for (length toks) (store mem))\<rparr>)"
| "pc_next now toks suffix j Wait_read mem =
     (case fmlookup (shards (store mem)) (length toks) of
        None \<Rightarrow> None
      | Some s \<Rightarrow>
          (case descend (root s) (descent_keys (options (store mem)) toks) of
             None \<Rightarrow> Some (Read_scan [] None, mem)
           | Some leaf \<Rightarrow> Some (Read_scan (ids leaf) None, mem)))"
| "pc_next now toks suffix j (Read_scan (i # is) best) mem =
     Some (Read_scan is (scan_one mem toks i best), mem)"
| "pc_next now toks suffix j (Read_scan [] best) mem =
     (case scan_result mem best of
        Some i \<Rightarrow> Some (Hit i, mem)
      | None \<Rightarrow> Some (Wait_write, mem))"
| "pc_next now toks suffix j Wait_write mem =
     (let m = store mem; keys = descent_keys (options m) toks in
      case fmlookup (shards m) (length toks) of
        None \<Rightarrow> None
      | Some s \<Rightarrow>
          (case descend_or_create (root s) keys (max_clusters_per_leaf (options m)) of
             None \<Rightarrow> None
           | Some node \<Rightarrow>
               (case descend node keys of
                  None \<Rightarrow> None
                | Some leaf \<Rightarrow>
                    Some (Write_scan (ids leaf) None,
                      mem\<lparr>store := m\<lparr>shards := fmupd (length toks) \<lparr>root = node\<rparr> (shards m)\<rparr>\<rparr>))))"
| "pc_next now toks suffix j (Write_scan (i # is) best) mem =
     Some (Write_scan is (scan_one mem toks i best), mem)"
| "pc_next now toks suffix j (Write_scan [] best) mem =
     (case scan_result mem best of
        Some i \<Rightarrow> Some (Hit i, mem)
      | None \<Rightarrow> Some (New, mem))"
| "pc_next now toks suffix j (Hit i) mem =
     (let (t, m') = next_tick (store mem)
      in Some (Touching i (hit_ops t (job_event j)), mem\<lparr>store := m'\<rparr>))"
| "pc_next now toks suffix j (Touching i (a # ops)) mem =
     (case heap mem i of
        None \<Rightarrow> None
      | Some b \<Rightarrow> Some (Touching i ops, write_body i (exec_op now a b) mem))"
| "pc_next now toks suffix j (Touching i []) mem =
     (case heap mem i of
        None \<Rightarrow> None
      | Some b \<Rightarrow>
          let needs = would_generalize b toks (wildcard (options (store mem)))
          in if \<not> needs \<and> job_member j = None
             then Some (Finished \<lparr>cluster_id = i, update = Unchanged\<rparr>, mem)
             else Some (Change i needs, mem))"
| "pc_next now toks suffix j (Change i needs) mem =
     (case heap mem i of
        None \<Rightarrow> None
      | Some b \<Rightarrow>
          let (b1, changed) =
                (if needs then generalize toks (wildcard (options (store mem))) b else (b, False));
              b2 = (case job_member j of Some x \<Rightarrow> add_member x b1 | None \<Rightarrow> b1)
          in Some (Finished \<lparr>cluster_id = i, update = if changed then TemplateChanged else Unchanged\<rparr>,
               write_body i b2 mem))"
| "pc_next now toks suffix j New mem =
     (let i = counter (store mem) + 1
      in Some (Numbered i, mem\<lparr>store := (store mem)\<lparr>counter := i\<rparr>\<rparr>))"
| "pc_next now toks suffix j (Numbered i) mem =
     (let (t, m') = next_tick (store mem) in Some (Build i t, mem\<lparr>store := m'\<rparr>))"
| "pc_next now toks suffix j (Build i t) mem =
     (case leaf_at (store mem) toks of
        None \<Rightarrow> None
      | Some leaf \<Rightarrow>
          let inner = (cluster_new i (map owned_token toks) now suffix (job_event j))\<lparr>last_used := t\<rparr>;
              inner1 = (case job_member j of Some x \<Rightarrow> add_member x inner | None \<Rightarrow> inner);
              mem1 = (write_body i inner1 mem)\<lparr>live := finsert i (live mem)\<rparr>
          in Some (if is_full leaf then Evict i (ids leaf) None else Insert i, mem1))"
| "pc_next now toks suffix j (Evict i (x # xs) best) mem =
     Some (Evict i xs (evict_one mem x best), mem)"
| "pc_next now toks suffix j (Evict i [] best) mem =
     (case leaf_at (store mem) toks of
        None \<Rightarrow> None
      | Some leaf \<Rightarrow>
          (case best of
             None \<Rightarrow> Some (Insert i, mem)
           | Some (v, _) \<Rightarrow>
               Some (Insert i,
                 mem\<lparr>store := set_leaf toks (leaf_remove leaf v) (store mem),
                     live := live mem |-| {|v|}\<rparr>)))"
| "pc_next now toks suffix j (Insert i) mem =
     (case leaf_at (store mem) toks of
        None \<Rightarrow> None
      | Some leaf \<Rightarrow>
          Some (Finished \<lparr>cluster_id = i, update = Created\<rparr>,
            mem\<lparr>store := set_leaf toks (leaf_insert leaf i) (store mem)\<rparr>))"
| "pc_next now toks suffix j (Finished r) mem = Some (Finished r, mem)"

section \<open>Locks and interleaving\<close>

fun holds_read :: "pc \<Rightarrow> bool" where
  "holds_read (Read_scan is best) = True"
| "holds_read _ = False"

fun holds_write :: "pc \<Rightarrow> bool" where
  "holds_write (Write_scan is best) = True"
| "holds_write New = True"
| "holds_write (Numbered i) = True"
| "holds_write (Build i t) = True"
| "holds_write (Evict i is best) = True"
| "holds_write (Insert i) = True"
| "holds_write _ = False"

fun reads_body :: "u64 \<Rightarrow> pc \<Rightarrow> bool" where
  "reads_body i (Touching k ops) = (k = i)"
| "reads_body i _ = False"

text \<open>
  When a thread at \<open>p\<close> on the shard \<open>n\<close> may go on, given the shards and the program
  counters of the threads: a reader waits for the writer of its shard, a writer for its readers
  too, and the writer of a body for the readers of the body.  A body is written in one step, so
  its readers never wait.
\<close>

fun unblocked :: "nat \<Rightarrow> (nat \<times> pc) list \<Rightarrow> pc \<Rightarrow> bool" where
  "unblocked n ps Wait_read = list_all (\<lambda>(k, q). k = n \<longrightarrow> \<not> holds_write q) ps"
| "unblocked n ps Wait_write = list_all (\<lambda>(k, q). k = n \<longrightarrow> \<not> holds_write q \<and> \<not> holds_read q) ps"
| "unblocked n ps (Change i needs) = list_all (\<lambda>(k, q). \<not> reads_body i q) ps"
| "unblocked n ps (Finished r) = False"
| "unblocked n ps _ = True"

record 're cstate =
  mem :: "'re memory"
  pcs :: "pc list"

definition toks_at ::
    "('re \<Rightarrow> rstr \<Rightarrow> rstr \<Rightarrow> cow) \<Rightarrow> job list \<Rightarrow> 're cstate \<Rightarrow> nat \<Rightarrow> token list" where
  "toks_at replace_all jobs st k = job_toks replace_all (options (store (mem st))) (jobs ! k)"

definition suffix_at ::
    "('re \<Rightarrow> rstr \<Rightarrow> rstr \<Rightarrow> cow) \<Rightarrow> job list \<Rightarrow> 're cstate \<Rightarrow> nat \<Rightarrow> rstr option" where
  "suffix_at replace_all jobs st k = job_suffix replace_all (options (store (mem st))) (jobs ! k)"

definition can_step ::
    "('re \<Rightarrow> rstr \<Rightarrow> rstr \<Rightarrow> cow) \<Rightarrow> job list \<Rightarrow> 're cstate \<Rightarrow> nat \<Rightarrow> bool" where
  "can_step replace_all jobs st k \<longleftrightarrow>
     k < length (pcs st) \<and>
     unblocked (length (toks_at replace_all jobs st k))
       (map (\<lambda>l. (length (toks_at replace_all jobs st l), pcs st ! l)) [0..<length (pcs st)])
       (pcs st ! k)"

definition thread_step ::
    "('re \<Rightarrow> rstr \<Rightarrow> rstr \<Rightarrow> cow) \<Rightarrow> job list \<Rightarrow> nat \<Rightarrow> systime \<Rightarrow> 're cstate \<Rightarrow> 're cstate option" where
  "thread_step replace_all jobs k now st =
     (case pc_next now (toks_at replace_all jobs st k) (suffix_at replace_all jobs st k) (jobs ! k)
        (pcs st ! k) (mem st) of
        None \<Rightarrow> None
      | Some (p, mem') \<Rightarrow> Some (st\<lparr>mem := mem', pcs := (pcs st)[k := p]\<rparr>))"

text \<open>Any thread that is not blocked may take the next step, at any time of the clock.\<close>

inductive cstep ::
    "('re \<Rightarrow> rstr \<Rightarrow> rstr \<Rightarrow> cow) \<Rightarrow> job list \<Rightarrow> 're cstate \<Rightarrow> 're cstate \<Rightarrow> bool"
  for replace_all jobs where
  step: "can_step replace_all jobs st k \<Longrightarrow> thread_step replace_all jobs k now st = Some st' \<Longrightarrow>
     cstep replace_all jobs st st'"

inductive_cases cstepE: "cstep replace_all jobs st st'"

inductive reachable ::
    "('re \<Rightarrow> rstr \<Rightarrow> rstr \<Rightarrow> cow) \<Rightarrow> job list \<Rightarrow> 're cstate \<Rightarrow> 're cstate \<Rightarrow> bool"
  for replace_all jobs st0 where
  start: "reachable replace_all jobs st0 st0"
| next_state: "reachable replace_all jobs st0 st \<Longrightarrow> cstep replace_all jobs st st' \<Longrightarrow>
     reachable replace_all jobs st0 st'"

definition launch :: "'re miner \<Rightarrow> job list \<Rightarrow> 're cstate" where
  "launch m jobs =
     \<lparr>mem = \<lparr>store = m, live = fmdom (clusters_by_id m)\<rparr>, pcs = replicate (length jobs) Ready\<rparr>"

text \<open>The miner that the other operations see: the id map holds the live bodies.\<close>

definition view :: "'re memory \<Rightarrow> 're miner" where
  "view \<mu> = (store \<mu>)\<lparr>clusters_by_id := fmrestrict_fset (live \<mu>) (clusters_by_id (store \<mu>))\<rparr>"

text \<open>Running a schedule, a list of threads with the clock of their steps.\<close>

fun run_schedule ::
    "('re \<Rightarrow> rstr \<Rightarrow> rstr \<Rightarrow> cow) \<Rightarrow> job list \<Rightarrow> (nat \<times> systime) list \<Rightarrow> 're cstate \<Rightarrow>
     're cstate option" where
  "run_schedule replace_all jobs [] st = Some st"
| "run_schedule replace_all jobs ((k, now) # ks) st =
     (if can_step replace_all jobs st k
      then (case thread_step replace_all jobs k now st of
              None \<Rightarrow> None
            | Some st' \<Rightarrow> run_schedule replace_all jobs ks st')
      else None)"

lemma reachable_trans:
  "reachable ra jobs st st' \<Longrightarrow> reachable ra jobs st' st'' \<Longrightarrow> reachable ra jobs st st''"
  by (rotate_tac, induction rule: reachable.induct) (auto intro: reachable.intros)

lemma run_schedule_reachable:
  assumes "reachable ra jobs st0 st" "run_schedule ra jobs ks st = Some st'"
  shows "reachable ra jobs st0 st'"
  using assms
proof (induction ks arbitrary: st)
  case (Cons s ks)
  obtain k now where s: "s = (k, now)" by (cases s)
  with Cons.prems(2) obtain st1 where "can_step ra jobs st k" "thread_step ra jobs k now st = Some st1"
    "run_schedule ra jobs ks st1 = Some st'"
    by (auto split: if_splits option.splits)
  with Cons.IH [of st1] Cons.prems(1) show ?case by (blast intro: reachable.intros cstep.intros)
qed simp

end
