(* ===== verification/Concurrent_Inv.thy ===== *)
theory Concurrent_Inv
  imports Concurrent
begin

text \<open>
  The invariant of concurrent ingest.  The shared memory satisfies the sequential miner's
  invariant up to the clusters that are published and not yet in their leaf; each program counter
  implies what its thread relies on; and what a thread relies on is stable under every step of
  every other thread, by the locks it holds.
\<close>

section \<open>Growing bodies\<close>

definition grows :: "'re options \<Rightarrow> cluster_inner \<Rightarrow> cluster_inner \<Rightarrow> bool" where
  "grows opt b b' \<longleftrightarrow>
     body_id b' = body_id b \<and> length (tokens b') = length (tokens b) \<and>
     descent_keys opt (tokens b') = descent_keys opt (tokens b) \<and>
     (distinct (members b) \<longrightarrow> distinct (members b')) \<and>
     (\<forall>toks. matches_all (tokens b) toks (wildcard opt) \<longrightarrow> matches_all (tokens b') toks (wildcard opt))"

lemma grows_refl [simp]: "grows opt b b"
  by (simp add: grows_def)

lemma grows_trans: "grows opt a b \<Longrightarrow> grows opt b c \<Longrightarrow> grows opt a c"
  by (simp add: grows_def)

lemma grows_placed: "grows opt b b' \<Longrightarrow> placed opt n ks b' \<longleftrightarrow> placed opt n ks b"
  by (auto simp: grows_def placed_def)

lemma exec_op_sel [simp]:
  "body_id (exec_op now a b) = body_id b" "tokens (exec_op now a b) = tokens b"
  "members (exec_op now a b) = members b" "created_at (exec_op now a b) = created_at b"
  "body_suffix (exec_op now a b) = body_suffix b"
  by (cases a; simp)+

lemma grows_exec_op: "grows opt b (exec_op now a b)"
  by (simp add: grows_def)

lemma grows_opt_member: "grows opt b (opt_member x b)"
  by (simp add: grows_def opt_member_members)

lemma matches_all_generalize:
  assumes "length ts = length us" "matches_all ts toks w"
  shows "matches_all (map2 (generalize_token w) ts us) toks w"
  using assms join_upper [of "template_of w ts" "template_of w us"]
  by (auto simp: matches_all_template generalize_template intro: template_le_trans)

lemma grows_generalize:
  assumes "placed opt (length toks) (descent_keys opt toks) b"
  shows "grows opt b (fst (generalize toks (wildcard opt) b))"
proof -
  have l: "length (tokens b) = length toks" using assms by (simp add: placed_def)
  have "descent_keys opt (map2 (generalize_token (wildcard opt)) (tokens b) toks) =
      descent_keys opt (tokens b)"
    using assms by (intro descent_keys_generalize) (auto simp: placed_def)
  moreover have "members (fst (generalize toks (wildcard opt) b)) = members b"
    by (simp add: generalize_def split: prod.splits)
  ultimately show ?thesis
    using matches_all_generalize [OF l] by (simp add: grows_def generalize_tokens [OF l] l)
qed

section \<open>What a program counter implies\<close>

definition held :: "'re miner \<Rightarrow> token list \<Rightarrow> u64 \<Rightarrow> bool" where
  "held m toks i \<longleftrightarrow>
     (\<exists>b. body_of m i = Some b \<and> placed (options m) (length toks) (descent_keys (options m) toks) b)"

definition covers :: "'re miner \<Rightarrow> token list \<Rightarrow> u64 \<Rightarrow> bool" where
  "covers m toks i \<longleftrightarrow>
     (\<exists>b. body_of m i = Some b \<and> placed (options m) (length toks) (descent_keys (options m) toks) b \<and>
       matches_all (tokens b) toks (wildcard (options m)))"

definition has_shard :: "'re miner \<Rightarrow> token list \<Rightarrow> bool" where
  "has_shard m toks \<longleftrightarrow> fmlookup (shards m) (length toks) \<noteq> None"

text \<open>The id a thread has drawn for its new cluster, and the one it has published.\<close>

fun new_id :: "pc \<Rightarrow> u64 option" where
  "new_id (Numbered i) = Some i"
| "new_id (Build i t) = Some i"
| "new_id (Evict i is best) = Some i"
| "new_id (Insert i) = Some i"
| "new_id _ = None"

fun pending :: "pc \<Rightarrow> u64 option" where
  "pending (Evict i is best) = Some i"
| "pending (Insert i) = Some i"
| "pending _ = None"

fun numbered :: "pc \<Rightarrow> bool" where
  "numbered Ready = False"
| "numbered Wait_read = False"
| "numbered (Read_scan is best) = False"
| "numbered Wait_write = False"
| "numbered (Write_scan is best) = False"
| "numbered New = False"
| "numbered _ = True"

fun pc_ok :: "'re memory \<Rightarrow> token list \<Rightarrow> pc \<Rightarrow> bool" where
  "pc_ok \<mu> toks Ready = True"
| "pc_ok \<mu> toks Wait_read = has_shard (store \<mu>) toks"
| "pc_ok \<mu> toks (Read_scan is best) =
     (has_shard (store \<mu>) toks \<and>
      set is \<union> fst ` set_option best \<subseteq> set (home (store \<mu>) toks))"
| "pc_ok \<mu> toks Wait_write = has_shard (store \<mu>) toks"
| "pc_ok \<mu> toks (Write_scan is best) =
     (leaf_at (store \<mu>) toks \<noteq> None \<and>
      set is \<union> fst ` set_option best \<subseteq> set (home (store \<mu>) toks))"
| "pc_ok \<mu> toks (Hit i) = held (store \<mu>) toks i"
| "pc_ok \<mu> toks (Touching i ops) = held (store \<mu>) toks i"
| "pc_ok \<mu> toks (Change i needs) =
     (held (store \<mu>) toks i \<and> (needs \<or> covers (store \<mu>) toks i))"
| "pc_ok \<mu> toks New = (leaf_at (store \<mu>) toks \<noteq> None)"
| "pc_ok \<mu> toks (Numbered i) =
     (leaf_at (store \<mu>) toks \<noteq> None \<and> 0 < i \<and> i \<le> counter (store \<mu>) \<and> heap \<mu> i = None)"
| "pc_ok \<mu> toks (Build i t) =
     (leaf_at (store \<mu>) toks \<noteq> None \<and> 0 < i \<and> i \<le> counter (store \<mu>) \<and> heap \<mu> i = None)"
| "pc_ok \<mu> toks (Evict i is best) =
     (leaf_at (store \<mu>) toks \<noteq> None \<and> i |\<in>| live \<mu> \<and> covers (store \<mu>) toks i \<and>
      set is \<union> fst ` set_option best \<subseteq> set (home (store \<mu>) toks) \<and> (is \<noteq> [] \<or> best \<noteq> None))"
| "pc_ok \<mu> toks (Insert i) =
     (leaf_at (store \<mu>) toks \<noteq> None \<and> i |\<in>| live \<mu> \<and> covers (store \<mu>) toks i \<and>
      length (home (store \<mu>) toks) < max_clusters_per_leaf (options (store \<mu>)))"
| "pc_ok \<mu> toks (Finished r) = covers (store \<mu>) toks (cluster_id r)"

section \<open>The shared memory\<close>

definition mem_ok :: "'re memory \<Rightarrow> u64 set \<Rightarrow> bool" where
  "mem_ok \<mu> pend \<longleftrightarrow>
     valid_options (options (store \<mu>)) \<and> shape_ok (store \<mu>) \<and> bodies_ok (store \<mu>) \<and>
     fset (live \<mu>) \<subseteq> {i. heap \<mu> i \<noteq> None} \<and>
     (\<forall>n ks i. i \<in> set (bucket (store \<mu>) n ks) \<longleftrightarrow>
        i |\<in>| live \<mu> \<and> i \<notin> pend \<and> (\<exists>b. heap \<mu> i = Some b \<and> placed (options (store \<mu>)) n ks b))"

lemma mem_okD [inv_dests]:
  assumes "mem_ok \<mu> pend"
  shows "valid_options (options (store \<mu>))" "shape_ok (store \<mu>)" "bodies_ok (store \<mu>)"
    "fset (live \<mu>) \<subseteq> {i. heap \<mu> i \<noteq> None}"
    "i \<in> set (bucket (store \<mu>) n ks) \<longleftrightarrow>
       i |\<in>| live \<mu> \<and> i \<notin> pend \<and> (\<exists>b. heap \<mu> i = Some b \<and> placed (options (store \<mu>)) n ks b)"
  using assms by (simp_all add: mem_ok_def)

text \<open>What a step changes, seen by the other threads: at most the shard \<open>w\<close> whose write
  lock it holds and the new body \<open>x\<close>; bodies only grow, and no pending cluster is evicted.\<close>

definition evolves :: "nat option \<Rightarrow> u64 option \<Rightarrow> 're memory \<Rightarrow> 're memory \<Rightarrow> bool" where
  "evolves w x \<mu> \<mu>' \<longleftrightarrow>
     options (store \<mu>') = options (store \<mu>) \<and> counter (store \<mu>) \<le> counter (store \<mu>') \<and>
     (\<forall>n s. fmlookup (shards (store \<mu>)) n = Some s \<longrightarrow>
        (\<exists>s'. fmlookup (shards (store \<mu>')) n = Some s' \<and> (w \<noteq> Some n \<longrightarrow> s' = s))) \<and>
     (\<forall>i b. heap \<mu> i = Some b \<longrightarrow>
        (\<exists>b'. heap \<mu>' i = Some b' \<and> grows (options (store \<mu>)) b b')) \<and>
     (\<forall>i. heap \<mu> i = None \<longrightarrow> x \<noteq> Some i \<longrightarrow> heap \<mu>' i = None) \<and>
     (\<forall>i. i |\<in>| live \<mu> \<longrightarrow> (\<forall>n ks. i \<notin> set (bucket (store \<mu>) n ks)) \<longrightarrow> i |\<in>| live \<mu>')"

lemma home_leaf_at: "home m toks = leaf_ids (leaf_at m toks)"
  by (simp add: home_def bucket_def leaf_at_def leaf_ids_def split: option.splits)

lemma leaf_at_has_shard: "leaf_at m toks = Some leaf \<Longrightarrow> has_shard m toks"
  by (auto simp: leaf_at_def has_shard_def split: option.splits)

lemma evolvesD:
  assumes "evolves w x \<mu> \<mu>'"
  shows "options (store \<mu>') = options (store \<mu>)" "counter (store \<mu>) \<le> counter (store \<mu>')"
    "heap \<mu> i = Some b \<Longrightarrow> \<exists>b'. heap \<mu>' i = Some b' \<and> grows (options (store \<mu>)) b b'"
    "heap \<mu> i = None \<Longrightarrow> x \<noteq> Some i \<Longrightarrow> heap \<mu>' i = None"
    "i |\<in>| live \<mu> \<Longrightarrow> (\<forall>n ks. i \<notin> set (bucket (store \<mu>) n ks)) \<Longrightarrow> i |\<in>| live \<mu>'"
    "fmlookup (shards (store \<mu>)) n = Some s \<Longrightarrow>
       \<exists>s'. fmlookup (shards (store \<mu>')) n = Some s' \<and> (w \<noteq> Some n \<longrightarrow> s' = s)"
  using assms by (simp_all add: evolves_def)

lemma has_shard_evolves:
  assumes "evolves w x \<mu> \<mu>'" "has_shard (store \<mu>) toks"
  shows "has_shard (store \<mu>') toks"
    "w \<noteq> Some (length toks) \<Longrightarrow> leaf_at (store \<mu>') toks = leaf_at (store \<mu>) toks"
proof -
  obtain s where s: "fmlookup (shards (store \<mu>)) (length toks) = Some s"
    using assms(2) by (auto simp: has_shard_def)
  with evolvesD(6) [OF assms(1) s] show "has_shard (store \<mu>') toks"
    by (auto simp: has_shard_def)
  show "leaf_at (store \<mu>') toks = leaf_at (store \<mu>) toks" if "w \<noteq> Some (length toks)"
    using evolvesD(6) [OF assms(1) s] that s by (auto simp: leaf_at_def evolvesD(1) [OF assms(1)])
qed

lemma held_evolves:
  assumes "held (store \<mu>) toks i" "evolves w x \<mu> \<mu>'"
  shows "held (store \<mu>') toks i"
proof -
  from assms(1) obtain b where b: "heap \<mu> i = Some b"
    "placed (options (store \<mu>)) (length toks) (descent_keys (options (store \<mu>)) toks) b"
    by (auto simp: held_def)
  from evolvesD(3) [OF assms(2) b(1)] b(2) show ?thesis
    by (auto simp: held_def evolvesD(1) [OF assms(2)] grows_placed)
qed

lemma covers_evolves:
  assumes "covers (store \<mu>) toks i" "evolves w x \<mu> \<mu>'"
  shows "covers (store \<mu>') toks i"
proof -
  from assms(1) obtain b where b: "heap \<mu> i = Some b"
    "placed (options (store \<mu>)) (length toks) (descent_keys (options (store \<mu>)) toks) b"
    "matches_all (tokens b) toks (wildcard (options (store \<mu>)))"
    by (auto simp: covers_def)
  from evolvesD(3) [OF assms(2) b(1)] obtain b' where b': "heap \<mu>' i = Some b'"
    "grows (options (store \<mu>)) b b'" by blast
  have "matches_all (tokens b') toks (wildcard (options (store \<mu>)))"
    using b'(2) b(3) by (simp add: grows_def)
  with b b' show ?thesis
    by (auto simp: covers_def evolvesD(1) [OF assms(2)] grows_placed)
qed

lemma locked_evolves:
  assumes "evolves w x \<mu> \<mu>'" "has_shard (store \<mu>) toks" "w \<noteq> Some (length toks)"
  shows "leaf_at (store \<mu>') toks = leaf_at (store \<mu>) toks" "home (store \<mu>') toks = home (store \<mu>) toks"
  using has_shard_evolves(2) [OF assms] by (simp_all add: home_leaf_at)

lemma pc_ok_evolves:
  assumes "pc_ok \<mu> toks p" "evolves w x \<mu> \<mu>'"
    "holds_read p \<or> holds_write p \<Longrightarrow> w \<noteq> Some (length toks)"
    "new_id p \<noteq> None \<Longrightarrow> x \<noteq> new_id p"
    "\<And>i n ks. pending p = Some i \<Longrightarrow> i \<notin> set (bucket (store \<mu>) n ks)"
  shows "pc_ok \<mu>' toks p"
proof -
  note ev = evolvesD [OF assms(2)] and sh = has_shard_evolves(1) [OF assms(2)]
  note c = covers_evolves [OF _ assms(2)] and h = held_evolves [OF _ assms(2)]
  have locked: "leaf_at (store \<mu>') toks = leaf_at (store \<mu>) toks"
      "home (store \<mu>') toks = home (store \<mu>) toks"
    if "holds_read p \<or> holds_write p" "has_shard (store \<mu>) toks"
    using locked_evolves [OF assms(2) that(2) assms(3) [OF that(1)]] by auto
  show ?thesis
  proof (cases "holds_write p")
    case True
    then have "leaf_at (store \<mu>) toks \<noteq> None" using assms(1) by (cases p) auto
    then have "has_shard (store \<mu>) toks" using leaf_at_has_shard by blast
    note l = locked [OF disjI2 [OF True] this]
    have "0 < i \<Longrightarrow> i \<le> counter (store \<mu>) \<Longrightarrow> i \<le> counter (store \<mu>')" for i
      using ev(2) by simp
    with True assms(1,4,5) l c ev(1,4,5) show ?thesis by (cases p) auto
  next
    case False
    with assms(1) sh c h show ?thesis
      by (cases p) (auto simp: locked(2))
  qed
qed

end
