(* ===== verification/Concurrent_Step.thy ===== *)
theory Concurrent_Step
  imports Concurrent_Inv
begin

text \<open>
  One step of one thread: it does not panic, it keeps the shared memory well formed, it
  establishes what the next program counter implies, and what it changes is within what the
  other threads tolerate.
\<close>

section \<open>Changes of the shared memory\<close>

lemma mem_ok_same:
  assumes "mem_ok \<mu> P" "same_index (store \<mu>) (store \<mu>')" "shape_ok (store \<mu>')"
    "counter (store \<mu>) \<le> counter (store \<mu>')" "live \<mu>' = live \<mu>"
  shows "mem_ok \<mu>' P"
  using assms by (force simp: mem_ok_def same_index_def bodies_ok_def intro: order_trans)

lemma evolves_same:
  assumes "same_index (store \<mu>) (store \<mu>')" "counter (store \<mu>) \<le> counter (store \<mu>')"
    "live \<mu>' = live \<mu>"
    "\<And>n s. fmlookup (shards (store \<mu>)) n = Some s \<Longrightarrow>
       \<exists>s'. fmlookup (shards (store \<mu>')) n = Some s' \<and> (w \<noteq> Some n \<longrightarrow> s' = s)"
  shows "evolves w x \<mu> \<mu>'"
  using assms by (simp add: evolves_def same_index_def)

lemma evolves_refl [simp]: "evolves w x \<mu> \<mu>"
  by (simp add: evolves_def)

lemma write_body_sel [simp]:
  "live (write_body i b \<mu>) = live \<mu>" "options (store (write_body i b \<mu>)) = options (store \<mu>)"
  "shards (store (write_body i b \<mu>)) = shards (store \<mu>)"
  "counter (store (write_body i b \<mu>)) = counter (store \<mu>)"
  "tick (store (write_body i b \<mu>)) = tick (store \<mu>)"
  "bucket (store (write_body i b \<mu>)) = bucket (store \<mu>)"
  "shape_ok (store (write_body i b \<mu>)) = shape_ok (store \<mu>)"
  "heap (write_body i b \<mu>) k = (if k = i then Some b else heap \<mu> k)"
  "leaf_at (store (write_body i b \<mu>)) toks = leaf_at (store \<mu>) toks"
  "home (store (write_body i b \<mu>)) toks = home (store \<mu>) toks"
  by (simp_all add: write_body_def leaf_at_def home_def cong: option.case_cong)

lemma mem_ok_write:
  assumes "mem_ok \<mu> P" "heap \<mu> i = Some b" "grows (options (store \<mu>)) b b'"
  shows "mem_ok (write_body i b' \<mu>) P"
proof -
  have "bodies_ok (store (write_body i b' \<mu>))"
    using mem_okD(3) [OF assms(1)] assms(2,3) by (auto simp: bodies_ok_def grows_def)
  with assms mem_okD [OF assms(1)] grows_placed [OF assms(3)] show ?thesis
    by (auto simp: mem_ok_def)
qed

lemma evolves_write:
  "heap \<mu> i = Some b \<Longrightarrow> grows (options (store \<mu>)) b b' \<Longrightarrow> evolves w x \<mu> (write_body i b' \<mu>)"
  by (auto simp: evolves_def)

definition publish :: "u64 \<Rightarrow> cluster_inner \<Rightarrow> 're memory \<Rightarrow> 're memory" where
  "publish i b \<mu> = (write_body i b \<mu>)\<lparr>live := finsert i (live \<mu>)\<rparr>"

lemma publish_sel [simp]:
  "store (publish i b \<mu>) = store (write_body i b \<mu>)" "live (publish i b \<mu>) = finsert i (live \<mu>)"
  by (simp_all add: publish_def)

lemma mem_ok_publish:
  assumes "mem_ok \<mu> P" "heap \<mu> i = None" "0 < i" "i \<le> counter (store \<mu>)" "body_id b = i"
    "distinct (members b)"
  shows "mem_ok (publish i b \<mu>) (insert i P)"
proof -
  have "bodies_ok (store (write_body i b \<mu>))"
    using mem_okD(3) [OF assms(1)] assms(3-6) by (auto simp: bodies_ok_def)
  with assms(2) mem_okD [OF assms(1)] show ?thesis
    by (auto simp: mem_ok_def)
qed

lemma evolves_publish: "heap \<mu> i = None \<Longrightarrow> evolves w (Some i) \<mu> (publish i b \<mu>)"
  by (auto simp: evolves_def)

lemma leaf_at_ok:
  assumes "shape_ok m" "leaf_at m toks = Some leaf"
  shows "leaf_ok (options m) leaf" "home m toks = ids leaf"
  using assms shape_okD(2)
  by (auto simp: leaf_at_def home_leaf_at split: option.splits)

lemma set_leaf_ok:
  assumes "shape_ok m" "leaf_at m toks = Some leaf" "leaf_ok (options m) leaf'"
  shows "shape_ok (set_leaf toks leaf' m)"
    "bucket (set_leaf toks leaf' m) =
      (\<lambda>n ks. if n = length toks \<and> ks = descent_keys (options m) toks then ids leaf' else bucket m n ks)"
    "leaf_at (set_leaf toks leaf' m) toks = Some leaf'"
    "n \<noteq> length toks \<Longrightarrow> fmlookup (shards (set_leaf toks leaf' m)) n = fmlookup (shards m) n"
    "has_shard (set_leaf toks leaf' m) us = has_shard m us"
proof -
  let ?keys = "descent_keys (options m) toks"
  obtain s where s: "fmlookup (shards m) (length toks) = Some s" "descend (root s) ?keys = Some leaf"
    using assms(2) by (auto simp: leaf_at_def split: option.splits)
  have w: "has_depth (min (prefix_len (options m)) (length toks)) (write_leaf (root s) ?keys leaf')"
    "descend (write_leaf (root s) ?keys leaf') = (descend (root s))(?keys := Some leaf')"
    using write_leaf_ok [OF shape_okD(1) [OF assms(1) s(1)] s(2)] by auto
  have eq: "set_leaf toks leaf' m =
      m\<lparr>shards := fmupd (length toks) \<lparr>root = write_leaf (root s) ?keys leaf'\<rparr> (shards m)\<rparr>"
    using s by (simp add: set_leaf_def)
  show "shape_ok (set_leaf toks leaf' m)"
    unfolding eq using assms(1,3) w shape_okD(2) [OF assms(1) s(1)]
    by (intro shape_ok_upd) (auto split: if_splits)
  show "bucket (set_leaf toks leaf' m) =
      (\<lambda>n ks. if n = length toks \<and> ks = ?keys then ids leaf' else bucket m n ks)"
    by (auto simp: eq fun_eq_iff bucket_upd w(2) bucket_lookup [OF s(1)])
  show "leaf_at (set_leaf toks leaf' m) toks = Some leaf'"
    by (simp add: eq leaf_at_def w(2))
  show "n \<noteq> length toks \<Longrightarrow> fmlookup (shards (set_leaf toks leaf' m)) n = fmlookup (shards m) n"
    by (simp add: eq)
  show "has_shard (set_leaf toks leaf' m) us = has_shard m us"
    using s(1) by (auto simp: eq has_shard_def)
qed

lemma set_leaf_sel [simp]:
  "clusters_by_id (set_leaf toks leaf m) = clusters_by_id m"
  "options (set_leaf toks leaf m) = options m" "counter (set_leaf toks leaf m) = counter m"
  "tick (set_leaf toks leaf m) = tick m"
  by (simp_all add: set_leaf_def split: option.splits)

lemma placed_unique: "placed opt n ks b \<Longrightarrow> placed opt n' ks' b \<Longrightarrow> n' = n \<and> ks' = ks"
  by (simp add: placed_def)

definition evict_at :: "token list \<Rightarrow> leaf_bucket \<Rightarrow> u64 \<Rightarrow> 're memory \<Rightarrow> 're memory" where
  "evict_at toks leaf v \<mu> =
     \<mu>\<lparr>store := set_leaf toks (leaf_remove leaf v) (store \<mu>), live := live \<mu> |-| {|v|}\<rparr>"

lemma mem_ok_evict:
  assumes ok: "mem_ok \<mu> P" and leaf: "leaf_at (store \<mu>) toks = Some leaf" and v: "v \<in> set (ids leaf)"
  shows "mem_ok (evict_at toks leaf v \<mu>) P"
proof -
  let ?m = "store \<mu>"
  note l = leaf_at_ok [OF mem_okD(2) [OF ok] leaf]
  have dl: "distinct (ids leaf)" using l(1) by (simp add: leaf_ok_def)
  note rem = leaf_remove_ids [OF dl, of v]
  have ok': "leaf_ok (options ?m) (leaf_remove leaf v)"
    using l(1) rem(1) leaf_remove_length [OF v] by (auto simp: leaf_ok_def)
  note sl = set_leaf_ok [OF mem_okD(2) [OF ok] leaf ok']
  have vb: "v \<in> set (bucket ?m n ks) \<longleftrightarrow> n = length toks \<and> ks = descent_keys (options ?m) toks" for n ks
  proof -
    have "v \<in> set (bucket ?m (length toks) (descent_keys (options ?m) toks))"
      using v l(2) by (simp add: home_def)
    with mem_okD(5) [OF ok, of v] show ?thesis by (auto dest: placed_unique)
  qed
  have home: "bucket ?m (length toks) (descent_keys (options ?m) toks) = ids leaf"
    using l(2) by (simp add: home_def)
  have "i \<in> set (bucket (set_leaf toks (leaf_remove leaf v) ?m) n ks) \<longleftrightarrow>
      i \<noteq> v \<and> i \<in> set (bucket ?m n ks)" for i n ks
    using rem(2) home vb [of n ks] by (auto simp: sl(2))
  with sl(1) mem_okD [OF ok] show ?thesis
    by (auto simp: mem_ok_def evict_at_def bodies_ok_def)
qed

lemma evolves_set_leaf:
  assumes "shape_ok (store \<mu>)" "leaf_at (store \<mu>) toks = Some leaf"
    "leaf_ok (options (store \<mu>)) leaf'"
    "store \<mu>' = set_leaf toks leaf' (store \<mu>)"
    "\<And>i. i |\<in>| live \<mu> \<Longrightarrow> i \<notin> set (ids leaf) \<Longrightarrow> i |\<in>| live \<mu>'"
  shows "evolves (Some (length toks)) x \<mu> \<mu>'"
proof -
  have "set (ids leaf) = set (bucket (store \<mu>) (length toks) (descent_keys (options (store \<mu>)) toks))"
    using leaf_at_ok(2) [OF assms(1,2)] by (simp add: home_def)
  moreover have "\<exists>s'. fmlookup (shards (store \<mu>')) n = Some s' \<and> (Some (length toks) \<noteq> Some n \<longrightarrow> s' = s)"
    if "fmlookup (shards (store \<mu>)) n = Some s" for n s
  proof (cases "n = length toks")
    case True
    with that show ?thesis by (simp add: assms(4) set_leaf_def)
  next
    case False
    with that set_leaf_ok(4) [OF assms(1-3)] show ?thesis by (simp add: assms(4))
  qed
  ultimately show ?thesis
    using assms(4,5) by (auto simp: evolves_def)
qed

lemma mem_ok_insert:
  assumes ok: "mem_ok \<mu> (insert i Q)" and leaf: "leaf_at (store \<mu>) toks = Some leaf"
    and i: "i |\<in>| live \<mu>" "i \<notin> Q" "held (store \<mu>) toks i"
    and room: "length (ids leaf) < max_clusters_per_leaf (options (store \<mu>))"
  shows "mem_ok (\<mu>\<lparr>store := set_leaf toks (leaf_insert leaf i) (store \<mu>)\<rparr>) Q"
    "leaf_ok (options (store \<mu>)) (leaf_insert leaf i)"
proof -
  let ?m = "store \<mu>"
  note l = leaf_at_ok [OF mem_okD(2) [OF ok] leaf]
  have home: "bucket ?m (length toks) (descent_keys (options ?m) toks) = ids leaf"
    using l(2) by (simp add: home_def)
  have no: "i \<notin> set (bucket ?m n ks)" for n ks
    using mem_okD(5) [OF ok, of i n ks] by simp
  show ok': "leaf_ok (options ?m) (leaf_insert leaf i)"
    using l(1) room no [of "length toks" "descent_keys (options ?m) toks"]
    by (simp add: leaf_ok_def home)
  note sl = set_leaf_ok [OF mem_okD(2) [OF ok] leaf ok']
  obtain b where b: "heap \<mu> i = Some b"
      "placed (options ?m) (length toks) (descent_keys (options ?m) toks) b"
    using i(3) by (auto simp: held_def)
  have "k \<in> set (bucket (set_leaf toks (leaf_insert leaf i) ?m) n ks) \<longleftrightarrow>
      k |\<in>| live \<mu> \<and> k \<notin> Q \<and> (\<exists>b. heap \<mu> k = Some b \<and> placed (options ?m) n ks b)" for k n ks
  proof (cases "k = i")
    case True
    have "i \<in> set (bucket (set_leaf toks (leaf_insert leaf i) ?m) n ks) \<longleftrightarrow>
        n = length toks \<and> ks = descent_keys (options ?m) toks"
      using no [of n ks] by (auto simp: sl(2))
    with True b i(1,2) show ?thesis by (auto dest: placed_unique)
  next
    case False
    then have "k \<in> set (bucket (set_leaf toks (leaf_insert leaf i) ?m) n ks) \<longleftrightarrow>
        k \<in> set (bucket ?m n ks)"
      using home by (auto simp: sl(2))
    with False mem_okD(5) [OF ok, of k n ks] show ?thesis by simp
  qed
  with sl(1) mem_okD(1-4) [OF ok]
  show "mem_ok (\<mu>\<lparr>store := set_leaf toks (leaf_insert leaf i) ?m\<rparr>) Q"
    by (simp add: mem_ok_def bodies_ok_def)
qed

end
