(* ===== verification/Concurrent_Thread.thy ===== *)
theory Concurrent_Thread
  imports Concurrent_Step
begin

text \<open>
  The steps of a thread, case by case.  \<open>good_step\<close> collects what a step owes to its own
  thread, to the shared memory and to the other threads, whose pending clusters are \<open>Q\<close>.
\<close>

definition good_step :: "token list \<Rightarrow> u64 set \<Rightarrow> pc \<Rightarrow> 're memory \<Rightarrow> pc \<Rightarrow> 're memory \<Rightarrow> bool" where
  "good_step toks Q p \<mu> p' \<mu>' \<longleftrightarrow>
     evolves (if holds_write p \<or> holds_write p' then Some (length toks) else None) (new_id p) \<mu> \<mu>' \<and>
     pc_ok \<mu>' toks p' \<and> mem_ok \<mu>' (Q \<union> set_option (pending p')) \<and>
     (new_id p' = None \<or> new_id p' = new_id p \<or>
      p = New \<and> new_id p' = Some (counter (store \<mu>) + 1)) \<and>
     counter (store \<mu>') = (if p = New then counter (store \<mu>) + 1 else counter (store \<mu>)) \<and>
     (numbered p \<or> p = New \<longrightarrow> numbered p') \<and>
     (holds_read p' \<longrightarrow> holds_read p \<or> p = Wait_read) \<and>
     (holds_write p' \<longrightarrow> holds_write p \<or> p = Wait_write)"

text \<open>A step that leaves the memory alone.\<close>

lemma good_step_local:
  assumes "mem_ok \<mu> (Q \<union> set_option (pending p))" "pc_ok \<mu> toks p'" "pending p' = pending p"
    "new_id p' = None \<or> new_id p' = new_id p" "p \<noteq> New" "numbered p \<longrightarrow> numbered p'"
    "holds_read p' \<longrightarrow> holds_read p \<or> p = Wait_read" "holds_write p' \<longrightarrow> holds_write p \<or> p = Wait_write"
  shows "good_step toks Q p \<mu> p' \<mu>"
  using assms by (auto simp: good_step_def)

section \<open>Scans\<close>

lemma scan_one_ids: "fst ` set_option (scan_one \<mu> toks i best) \<subseteq> insert i (fst ` set_option best)"
  by (auto simp: scan_one_def Let_def split: option.splits if_splits)

lemma scan_result_id: "scan_result \<mu> best = Some i \<Longrightarrow> i \<in> fst ` set_option best"
  by (auto simp: scan_result_def split: option.splits if_splits)

lemma evict_one_ids: "fst ` set_option (evict_one \<mu> i best) \<subseteq> insert i (fst ` set_option best)"
  by (auto simp: evict_one_def Let_def split: option.splits if_splits)

lemma evict_one_Some: "evict_one \<mu> i best \<noteq> None"
  by (auto simp: evict_one_def Let_def split: option.splits)

lemma home_held:
  assumes "mem_ok \<mu> P" "i \<in> set (home (store \<mu>) toks)"
  shows "held (store \<mu>) toks i" "i |\<in>| live \<mu>"
  using assms(2) mem_okD(5) [OF assms(1)] by (auto simp: held_def home_def)

lemma covers_held: "covers m toks i \<Longrightarrow> held m toks i"
  by (auto simp: covers_def held_def)

lemma step_Read_scan:
  assumes "mem_ok \<mu> Q" "pc_ok \<mu> toks (Read_scan is best)"
  shows "\<exists>p' \<mu>'. pc_next now toks sfx j (Read_scan is best) \<mu> = Some (p', \<mu>') \<and>
    good_step toks Q (Read_scan is best) \<mu> p' \<mu>'"
proof (cases "is")
  case (Cons i js)
  with assms scan_one_ids [of \<mu> toks i best] show ?thesis
    by (auto intro!: good_step_local)
next
  case Nil
  then show ?thesis
    using assms home_held(1) [OF assms(1)] scan_result_id [of \<mu> best]
    by (cases "scan_result \<mu> best") (auto intro!: good_step_local)
qed

lemma step_Write_scan:
  assumes "mem_ok \<mu> Q" "pc_ok \<mu> toks (Write_scan is best)"
  shows "\<exists>p' \<mu>'. pc_next now toks sfx j (Write_scan is best) \<mu> = Some (p', \<mu>') \<and>
    good_step toks Q (Write_scan is best) \<mu> p' \<mu>'"
proof (cases "is")
  case (Cons i js)
  with assms scan_one_ids [of \<mu> toks i best] show ?thesis
    by (auto intro!: good_step_local)
next
  case Nil
  then show ?thesis
    using assms home_held(1) [OF assms(1)] scan_result_id [of \<mu> best]
    by (cases "scan_result \<mu> best") (auto intro!: good_step_local)
qed

section \<open>Locks\<close>

lemma step_Ready:
  assumes "mem_ok \<mu> Q"
  shows "\<exists>p' \<mu>'. pc_next now toks sfx j Ready \<mu> = Some (p', \<mu>') \<and> good_step toks Q Ready \<mu> p' \<mu>'"
proof -
  obtain s m0 where sm: "shard_for (length toks) (store \<mu>) = (s, m0)"
    by (cases "shard_for (length toks) (store \<mu>)")
  note sf = shard_for_ok [OF mem_okD(2) [OF assms] sm]
  let ?\<mu>' = "\<mu>\<lparr>store := m0\<rparr>"
  have keep: "fmlookup (shards m0) n = Some s'" if "fmlookup (shards (store \<mu>)) n = Some s'" for n s'
  proof (cases "fmlookup (shards (store \<mu>)) (length toks)")
    case None
    with that have "n \<noteq> length toks" by auto
    with sm that None show ?thesis by (auto simp: shard_for_def Let_def)
  next
    case (Some s'')
    with sm that show ?thesis by (simp add: shard_for_def)
  qed
  have "evolves None None \<mu> ?\<mu>'"
    by (rule evolves_same) (use sf keep in simp_all)
  moreover have "mem_ok ?\<mu>' Q"
    by (rule mem_ok_same [OF assms]) (use sf in simp_all)
  ultimately have "good_step toks Q Ready \<mu> Wait_read ?\<mu>'"
    using sf by (simp add: good_step_def has_shard_def)
  then show ?thesis by (simp add: sm)
qed

lemma step_Wait_read:
  assumes "mem_ok \<mu> Q" "pc_ok \<mu> toks Wait_read"
  shows "\<exists>p' \<mu>'. pc_next now toks sfx j Wait_read \<mu> = Some (p', \<mu>') \<and>
    good_step toks Q Wait_read \<mu> p' \<mu>'"
proof -
  obtain s where s: "fmlookup (shards (store \<mu>)) (length toks) = Some s"
    using assms(2) by (auto simp: has_shard_def)
  then have "home (store \<mu>) toks = leaf_ids (descend (root s) (descent_keys (options (store \<mu>)) toks))"
    by (simp add: home_def bucket_lookup)
  with s assms show ?thesis
    by (cases "descend (root s) (descent_keys (options (store \<mu>)) toks)")
      (auto intro!: good_step_local)
qed

lemma step_Wait_write:
  assumes "mem_ok \<mu> Q" "pc_ok \<mu> toks Wait_write"
  shows "\<exists>p' \<mu>'. pc_next now toks sfx j Wait_write \<mu> = Some (p', \<mu>') \<and>
    good_step toks Q Wait_write \<mu> p' \<mu>'"
proof -
  let ?m = "store \<mu>"
  let ?keys = "descent_keys (options ?m) toks"
  obtain s where s: "fmlookup (shards ?m) (length toks) = Some s"
    using assms(2) by (auto simp: has_shard_def)
  obtain node leaf where node:
    "descend_or_create (root s) ?keys (max_clusters_per_leaf (options ?m)) = Some node"
    "descend node ?keys = Some leaf" "ids leaf = bucket ?m (length toks) ?keys"
    "shape_ok (?m\<lparr>shards := fmupd (length toks) \<lparr>root = node\<rparr> (shards ?m)\<rparr>)"
    "same_index ?m (?m\<lparr>shards := fmupd (length toks) \<lparr>root = node\<rparr> (shards ?m)\<rparr>)"
    by (rule grow_leaf [OF mem_okD(2) [OF assms(1)] s, of ?keys]) auto
  let ?\<mu>' = "\<mu>\<lparr>store := ?m\<lparr>shards := fmupd (length toks) \<lparr>root = node\<rparr> (shards ?m)\<rparr>\<rparr>"
  have nxt: "pc_next now toks sfx j Wait_write \<mu> = Some (Write_scan (ids leaf) None, ?\<mu>')"
    using s node(1,2) by (simp add: Let_def)
  have "evolves (Some (length toks)) None \<mu> ?\<mu>'"
    by (rule evolves_same) (use node(5) s in simp_all)
  moreover have "mem_ok ?\<mu>' Q"
    by (rule mem_ok_same [OF assms(1)]) (use node(4,5) in simp_all)
  moreover have "leaf_at (store ?\<mu>') toks = Some leaf"
    using node(2) by (simp add: leaf_at_def)
  moreover have "home (store ?\<mu>') toks = ids leaf"
    using calculation(3) by (simp add: home_leaf_at)
  ultimately have "good_step toks Q Wait_write \<mu> (Write_scan (ids leaf) None) ?\<mu>'"
    by (simp add: good_step_def)
  with nxt show ?thesis by blast
qed

section \<open>A hit\<close>

lemma heldE:
  assumes "held (store \<mu>) toks i"
  obtains b where "heap \<mu> i = Some b" "length (tokens b) = length toks"
    "placed (options (store \<mu>)) (length toks) (descent_keys (options (store \<mu>)) toks) b"
  using assms by (auto simp: held_def placed_def)

lemma mem_ok_tick: "mem_ok \<mu> Q \<Longrightarrow> mem_ok (\<mu>\<lparr>store := (store \<mu>)\<lparr>tick := t\<rparr>\<rparr>) Q"
  by (rule mem_ok_same [of \<mu>]) (simp_all add: same_index_def mem_okD)

lemma evolves_tick: "evolves w x \<mu> (\<mu>\<lparr>store := (store \<mu>)\<lparr>tick := t\<rparr>\<rparr>)"
  by (rule evolves_same) (simp_all add: same_index_def)

lemma step_Hit:
  assumes "mem_ok \<mu> Q" "pc_ok \<mu> toks (Hit i)"
  shows "\<exists>p' \<mu>'. pc_next now toks sfx j (Hit i) \<mu> = Some (p', \<mu>') \<and> good_step toks Q (Hit i) \<mu> p' \<mu>'"
proof -
  let ?\<mu>' = "\<mu>\<lparr>store := (store \<mu>)\<lparr>tick := tick (store \<mu>) + 1\<rparr>\<rparr>"
  have "held (store ?\<mu>') toks i"
    using assms(2) held_evolves [OF _ evolves_tick] by fastforce
  then show ?thesis
    using mem_ok_tick [OF assms(1), of "tick (store \<mu>) + 1"] evolves_tick [of None None \<mu>]
    by (simp add: next_tick_def good_step_def)
qed

lemma grown_body:
  assumes "mem_ok \<mu> Q" "heap \<mu> i = Some b" "grows (options (store \<mu>)) b b'"
  shows "mem_ok (write_body i b' \<mu>) Q" "evolves w x \<mu> (write_body i b' \<mu>)"
    "held (store \<mu>) toks k \<Longrightarrow> held (store (write_body i b' \<mu>)) toks k"
  using mem_ok_write [OF assms] evolves_write [OF assms(2,3)] held_evolves by blast+

lemma step_Touching:
  assumes "mem_ok \<mu> Q" "pc_ok \<mu> toks (Touching i ops)"
  shows "\<exists>p' \<mu>'. pc_next now toks sfx j (Touching i ops) \<mu> = Some (p', \<mu>') \<and>
    good_step toks Q (Touching i ops) \<mu> p' \<mu>'"
proof -
  have h: "held (store \<mu>) toks i" using assms(2) by simp
  then obtain b where b: "heap \<mu> i = Some b" "length (tokens b) = length toks"
    "placed (options (store \<mu>)) (length toks) (descent_keys (options (store \<mu>)) toks) b"
    by (rule heldE)
  show ?thesis
  proof (cases ops)
    case Nil
    have "\<not> would_generalize b toks (wildcard (options (store \<mu>))) \<Longrightarrow> covers (store \<mu>) toks i"
      using b by (auto simp: covers_def would_generalize_iff)
    with Nil assms(1) h b(1) show ?thesis
      by (cases "would_generalize b toks (wildcard (options (store \<mu>)))"; cases "job_member j")
        (simp_all add: good_step_local)
  next
    case (Cons a ops')
    note g = grown_body [OF assms(1) b(1) grows_exec_op [of _ b now a]]
    have "good_step toks Q (Touching i ops) \<mu> (Touching i ops') (write_body i (exec_op now a b) \<mu>)"
      using g(1,2) g(3) [OF h] by (simp add: good_step_def)
    with Cons b(1) show ?thesis by simp
  qed
qed

lemma step_Change:
  assumes "mem_ok \<mu> Q" "pc_ok \<mu> toks (Change i needs)"
  shows "\<exists>p' \<mu>'. pc_next now toks sfx j (Change i needs) \<mu> = Some (p', \<mu>') \<and>
    good_step toks Q (Change i needs) \<mu> p' \<mu>'"
proof -
  let ?w = "wildcard (options (store \<mu>))"
  have h: "held (store \<mu>) toks i" using assms(2) by simp
  then obtain b where b: "heap \<mu> i = Some b" "length (tokens b) = length toks"
    "placed (options (store \<mu>)) (length toks) (descent_keys (options (store \<mu>)) toks) b"
    by (rule heldE)
  define b1 where "b1 = (if needs then fst (generalize toks ?w b) else b)"
  define b2 where "b2 = opt_member (job_member j) b1"
  have g1: "grows (options (store \<mu>)) b b1"
    using grows_generalize [OF b(3)] by (simp add: b1_def)
  have g: "grows (options (store \<mu>)) b b2"
    unfolding b2_def by (rule grows_trans [OF g1 grows_opt_member])
  have m: "matches_all (tokens b2) toks ?w"
  proof (cases needs)
    case True
    then show ?thesis
      using generalize_matches [OF b(2)] by (simp add: b2_def b1_def generalize_tokens [OF b(2)])
  next
    case False
    with assms(2) b(1) show ?thesis by (auto simp: b2_def b1_def covers_def)
  qed
  obtain u where nxt: "pc_next now toks sfx j (Change i needs) \<mu> =
      Some (Finished \<lparr>cluster_id = i, update = u\<rparr>, write_body i b2 \<mu>)"
    using b(1) that
    by (cases needs; cases "job_member j"; cases "generalize toks ?w b")
      (auto simp: b2_def b1_def opt_member_def Let_def)
  have "covers (store (write_body i b2 \<mu>)) toks i"
    using m b(3) by (simp add: covers_def grows_placed [OF g])
  then have "good_step toks Q (Change i needs) \<mu> (Finished \<lparr>cluster_id = i, update = u\<rparr>)
      (write_body i b2 \<mu>)"
    using grown_body(1,2) [OF assms(1) b(1) g] by (simp add: good_step_def)
  with nxt show ?thesis by blast
qed

section \<open>A creation\<close>

lemma leaf_at_sel [simp]:
  "leaf_at (m\<lparr>tick := t\<rparr>) toks = leaf_at m toks" "leaf_at (m\<lparr>counter := c\<rparr>) toks = leaf_at m toks"
  by (simp_all add: leaf_at_def cong: option.case_cong)

lemma step_New:
  assumes "mem_ok \<mu> Q" "pc_ok \<mu> toks New" "counter (store \<mu>) \<noteq> - 1"
  shows "\<exists>p' \<mu>'. pc_next now toks sfx j New \<mu> = Some (p', \<mu>') \<and> good_step toks Q New \<mu> p' \<mu>'"
proof -
  let ?c = "counter (store \<mu>) + 1"
  let ?\<mu>' = "\<mu>\<lparr>store := (store \<mu>)\<lparr>counter := ?c\<rparr>\<rparr>"
  have le: "counter (store \<mu>) \<le> ?c" using u64_succ_fresh(2) [OF assms(3) order_refl] .
  have "heap \<mu> ?c = None"
  proof (rule ccontr)
    assume "heap \<mu> ?c \<noteq> None"
    then have "?c \<le> counter (store \<mu>)"
      using mem_okD(3) [OF assms(1)] by (auto simp: bodies_ok_def)
    with u64_succ_fresh(1) [OF assms(3) order_refl] show False by simp
  qed
  moreover have "0 < ?c"
    using u64_succ_greater [OF assms(3)] by (simp add: word_less_nat_alt)
  moreover have "evolves w x \<mu> ?\<mu>'" for w x
    by (rule evolves_same) (use le in \<open>simp_all add: same_index_def\<close>)
  moreover have "mem_ok ?\<mu>' Q"
    by (rule mem_ok_same [OF assms(1)]) (use le mem_okD(2) [OF assms(1)] in \<open>simp_all add: same_index_def\<close>)
  ultimately show ?thesis
    using assms(2) by (simp add: good_step_def Let_def)
qed

lemma step_Numbered:
  assumes "mem_ok \<mu> Q" "pc_ok \<mu> toks (Numbered i)"
  shows "\<exists>p' \<mu>'. pc_next now toks sfx j (Numbered i) \<mu> = Some (p', \<mu>') \<and>
    good_step toks Q (Numbered i) \<mu> p' \<mu>'"
  using assms mem_ok_tick [OF assms(1), of "tick (store \<mu>) + 1"] evolves_tick [of _ _ \<mu>]
  by (simp add: next_tick_def good_step_def)

lemma step_Build:
  assumes ok: "mem_ok \<mu> Q" and pc: "pc_ok \<mu> toks (Build i t)"
  shows "\<exists>p' \<mu>'. pc_next now toks sfx j (Build i t) \<mu> = Some (p', \<mu>') \<and>
    good_step toks Q (Build i t) \<mu> p' \<mu>'"
proof -
  obtain leaf where leaf: "leaf_at (store \<mu>) toks = Some leaf" using pc by auto
  note l = leaf_at_ok [OF mem_okD(2) [OF ok] leaf]
  define b where "b = fresh_body i t now toks sfx (job_member j) (job_event j)"
  define p' where "p' = (if is_full leaf then Evict i (ids leaf) None else Insert i)"
  have nxt: "pc_next now toks sfx j (Build i t) \<mu> = Some (p', publish i b \<mu>)"
    using leaf by (simp add: p'_def b_def publish_def fresh_body_def opt_member_def map_owned_token Let_def)
  have cov: "covers (store (publish i b \<mu>)) toks i"
    by (simp add: covers_def b_def placed_def matches_all_refl)
  have "mem_ok (publish i b \<mu>) (insert i Q)"
    using ok pc by (intro mem_ok_publish) (auto simp: b_def)
  moreover have "evolves w (Some i) \<mu> (publish i b \<mu>)" for w
    using pc by (intro evolves_publish) simp
  moreover have "0 < max_clusters_per_leaf (options (store \<mu>))"
    using mem_okD(1) [OF ok] by (simp add: valid_options_def)
  then have "pc_ok (publish i b \<mu>) toks p'"
    using leaf l cov by (auto simp: p'_def is_full_def leaf_ok_def)
  ultimately have "good_step toks Q (Build i t) \<mu> p' (publish i b \<mu>)"
    by (simp add: good_step_def p'_def)
  with nxt show ?thesis by blast
qed

lemma step_Evict:
  assumes ok: "mem_ok \<mu> (insert i Q)" and pc: "pc_ok \<mu> toks (Evict i is best)"
  shows "\<exists>p' \<mu>'. pc_next now toks sfx j (Evict i is best) \<mu> = Some (p', \<mu>') \<and>
    good_step toks Q (Evict i is best) \<mu> p' \<mu>'"
proof (cases "is")
  case (Cons k ks)
  with assms evict_one_ids [of \<mu> k best] evict_one_Some [of \<mu> k best] show ?thesis
    by (auto intro!: good_step_local)
next
  case Nil
  then obtain v r where best: "best = Some (v, r)" using pc by auto
  obtain leaf where leaf: "leaf_at (store \<mu>) toks = Some leaf" using pc by auto
  note l = leaf_at_ok [OF mem_okD(2) [OF ok] leaf]
  have v: "v \<in> set (ids leaf)" using pc best l(2) by auto
  have dl: "distinct (ids leaf)" and cap: "length (ids leaf) \<le> max_clusters_per_leaf (options (store \<mu>))"
    using l(1) by (auto simp: leaf_ok_def)
  have len: "length (ids (leaf_remove leaf v)) < length (ids leaf)"
    using leaf_remove_length [OF v] v by (cases "ids leaf") simp_all
  have leaf': "leaf_ok (options (store \<mu>)) (leaf_remove leaf v)"
    using l(1) leaf_remove_ids(1) [OF dl] len by (simp add: leaf_ok_def)
  let ?\<mu>' = "evict_at toks leaf v \<mu>"
  have ok': "mem_ok ?\<mu>' (insert i Q)" by (rule mem_ok_evict [OF ok leaf v])
  have ev: "evolves (Some (length toks)) (Some i) \<mu> ?\<mu>'"
    by (rule evolves_set_leaf [OF mem_okD(2) [OF ok] leaf leaf']) (use v in \<open>auto simp: evict_at_def\<close>)
  have la: "leaf_at (store ?\<mu>') toks = Some (leaf_remove leaf v)"
    using set_leaf_ok(3) [OF mem_okD(2) [OF ok] leaf leaf'] by (simp add: evict_at_def)
  have "i \<noteq> v"
    using v l(2) mem_okD(5) [OF ok, of i "length toks" "descent_keys (options (store \<mu>)) toks"]
    by (auto simp: home_def)
  then have "i |\<in>| live ?\<mu>'" using pc by (simp add: evict_at_def)
  moreover have "covers (store ?\<mu>') toks i"
    using pc covers_evolves [OF _ ev] by auto
  moreover have "length (home (store ?\<mu>') toks) < max_clusters_per_leaf (options (store ?\<mu>'))"
    using len cap by (simp add: home_leaf_at la) (simp add: evict_at_def)
  ultimately have "good_step toks Q (Evict i is best) \<mu> (Insert i) ?\<mu>'"
    using ok' ev la by (simp add: good_step_def) (simp add: evict_at_def)
  moreover have "pc_next now toks sfx j (Evict i is best) \<mu> = Some (Insert i, ?\<mu>')"
    using Nil best leaf by (simp add: evict_at_def)
  ultimately show ?thesis by blast
qed

lemma step_Insert:
  assumes ok: "mem_ok \<mu> (insert i Q)" and "i \<notin> Q" and pc: "pc_ok \<mu> toks (Insert i)"
  shows "\<exists>p' \<mu>'. pc_next now toks sfx j (Insert i) \<mu> = Some (p', \<mu>') \<and>
    good_step toks Q (Insert i) \<mu> p' \<mu>'"
proof -
  obtain leaf where leaf: "leaf_at (store \<mu>) toks = Some leaf" using pc by auto
  note l = leaf_at_ok [OF mem_okD(2) [OF ok] leaf]
  let ?\<mu>' = "\<mu>\<lparr>store := set_leaf toks (leaf_insert leaf i) (store \<mu>)\<rparr>"
  have ins: "mem_ok ?\<mu>' Q" "leaf_ok (options (store \<mu>)) (leaf_insert leaf i)"
    using mem_ok_insert [OF ok leaf _ assms(2)] pc covers_held [of "store \<mu>" toks i] l(2) by auto
  have ev: "evolves (Some (length toks)) (Some i) \<mu> ?\<mu>'"
    by (rule evolves_set_leaf [OF mem_okD(2) [OF ok] leaf ins(2)]) simp_all
  have "covers (store ?\<mu>') toks i"
    using pc covers_evolves [OF _ ev] by auto
  with ins ev have "good_step toks Q (Insert i) \<mu> (Finished \<lparr>cluster_id = i, update = Created\<rparr>) ?\<mu>'"
    by (simp add: good_step_def)
  moreover have "pc_next now toks sfx j (Insert i) \<mu> =
      Some (Finished \<lparr>cluster_id = i, update = Created\<rparr>, ?\<mu>')"
    using leaf by simp
  ultimately show ?thesis by blast
qed

text \<open>All steps.\<close>

lemma pc_next_ok:
  assumes ok: "mem_ok \<mu> (Q \<union> set_option (pending p))" and pc: "pc_ok \<mu> toks p"
    and own: "\<And>i. new_id p = Some i \<Longrightarrow> i \<notin> Q" and cnt: "p = New \<Longrightarrow> counter (store \<mu>) \<noteq> - 1"
  obtains p' \<mu>' where "pc_next now toks sfx j p \<mu> = Some (p', \<mu>')" "good_step toks Q p \<mu> p' \<mu>'"
proof -
  have "\<exists>p' \<mu>'. pc_next now toks sfx j p \<mu> = Some (p', \<mu>') \<and> good_step toks Q p \<mu> p' \<mu>'"
  proof (cases p)
    case Ready
    with ok show ?thesis by (simp add: step_Ready del: pc_next.simps)
  next
    case Wait_read
    with ok pc show ?thesis by (simp add: step_Wait_read del: pc_next.simps pc_ok.simps)
  next
    case (Read_scan "is" best)
    with ok pc show ?thesis by (simp add: step_Read_scan del: pc_next.simps pc_ok.simps)
  next
    case Wait_write
    with ok pc show ?thesis by (simp add: step_Wait_write del: pc_next.simps pc_ok.simps)
  next
    case (Write_scan "is" best)
    with ok pc show ?thesis by (simp add: step_Write_scan del: pc_next.simps pc_ok.simps)
  next
    case (Hit i)
    with ok pc show ?thesis by (simp add: step_Hit del: pc_next.simps pc_ok.simps)
  next
    case (Touching i ops)
    with ok pc show ?thesis by (simp add: step_Touching del: pc_next.simps pc_ok.simps)
  next
    case (Change i needs)
    with ok pc show ?thesis by (simp add: step_Change del: pc_next.simps pc_ok.simps)
  next
    case New
    with ok pc cnt show ?thesis by (simp add: step_New del: pc_next.simps pc_ok.simps)
  next
    case (Numbered i)
    with ok pc show ?thesis by (simp add: step_Numbered del: pc_next.simps pc_ok.simps)
  next
    case (Build i t)
    with ok pc show ?thesis by (simp add: step_Build del: pc_next.simps pc_ok.simps)
  next
    case (Evict i "is" best)
    with ok pc show ?thesis by (simp add: step_Evict del: pc_next.simps pc_ok.simps)
  next
    case (Insert i)
    with ok pc own show ?thesis by (simp add: step_Insert del: pc_next.simps pc_ok.simps)
  next
    case (Finished r)
    with ok pc show ?thesis by (simp add: good_step_local)
  qed
  then show ?thesis using that by blast
qed

end
