(* ===== verification/Concurrent_Reach.thy ===== *)
theory Concurrent_Reach
  imports Concurrent_Thread
begin

text \<open>
  The invariant of the whole system: the shared memory is well formed up to the pending
  clusters, every thread's program counter holds, the shard locks exclude each other, and no two
  threads create with one id.  It holds in every reachable state.
\<close>

definition pending_ids :: "pc list \<Rightarrow> u64 set" where
  "pending_ids ps = {i. \<exists>k < length ps. pending (ps ! k) = Some i}"

definition locks_ok :: "(nat \<Rightarrow> nat) \<Rightarrow> pc list \<Rightarrow> bool" where
  "locks_ok shard_of ps \<longleftrightarrow>
     (\<forall>k < length ps. \<forall>l < length ps. k \<noteq> l \<longrightarrow> shard_of k = shard_of l \<longrightarrow> holds_write (ps ! k) \<longrightarrow>
        \<not> holds_read (ps ! l) \<and> \<not> holds_write (ps ! l))"

definition apart :: "(pc \<Rightarrow> u64 option) \<Rightarrow> pc list \<Rightarrow> bool" where
  "apart f ps \<longleftrightarrow>
     (\<forall>k < length ps. \<forall>l < length ps. k \<noteq> l \<longrightarrow> f (ps ! k) \<noteq> None \<longrightarrow> f (ps ! k) \<noteq> f (ps ! l))"

lemma apartD:
  "apart f ps \<Longrightarrow> k < length ps \<Longrightarrow> l < length ps \<Longrightarrow> k \<noteq> l \<Longrightarrow> f (ps ! k) = Some i \<Longrightarrow>
     f (ps ! l) \<noteq> Some i"
  unfolding apart_def by (metis option.distinct(1))

definition cinv ::
    "('re \<Rightarrow> rstr \<Rightarrow> rstr \<Rightarrow> cow) \<Rightarrow> job list \<Rightarrow> 're cstate \<Rightarrow> bool" where
  "cinv ra jobs st \<longleftrightarrow>
     length (pcs st) = length jobs \<and> mem_ok (mem st) (pending_ids (pcs st)) \<and>
     (\<forall>k < length (pcs st). pc_ok (mem st) (toks_at ra jobs st k) (pcs st ! k)) \<and>
     locks_ok (\<lambda>k. length (toks_at ra jobs st k)) (pcs st) \<and> apart new_id (pcs st) \<and>
     unat (counter (store (mem st))) + length (filter (\<lambda>p. \<not> numbered p) (pcs st)) < 2 ^ 64"

lemma cinvD:
  assumes "cinv ra jobs st"
  shows "length (pcs st) = length jobs" "mem_ok (mem st) (pending_ids (pcs st))"
    "k < length (pcs st) \<Longrightarrow> pc_ok (mem st) (toks_at ra jobs st k) (pcs st ! k)"
    "locks_ok (\<lambda>k. length (toks_at ra jobs st k)) (pcs st)" "apart new_id (pcs st)"
    "unat (counter (store (mem st))) + length (filter (\<lambda>p. \<not> numbered p) (pcs st)) < 2 ^ 64"
  using assms by (simp_all add: cinv_def)

lemma pending_new_id: "pending p = Some i \<Longrightarrow> new_id p = Some i"
  by (cases p) auto

lemma new_id_write: "new_id p \<noteq> None \<Longrightarrow> holds_write p"
  by (cases p) auto

lemma new_id_bound:
  assumes "mem_ok \<mu> P" "pc_ok \<mu> toks p" "new_id p = Some i"
  shows "i \<le> counter (store \<mu>)"
  using assms by (cases p) (auto simp: covers_def mem_ok_def bodies_ok_def)

lemma pending_ids_set: "pending_ids ps = {i. \<exists>p \<in> set ps. pending p = Some i}"
  unfolding pending_ids_def by (metis in_set_conv_nth)

text \<open>The pending clusters, with one program counter taken out.\<close>

definition others_pending :: "pc list \<Rightarrow> nat \<Rightarrow> u64 set" where
  "others_pending ps k = {i. \<exists>l < length ps. l \<noteq> k \<and> pending (ps ! l) = Some i}"

lemma pending_ids_split:
  "k < length ps \<Longrightarrow> pending_ids ps = others_pending ps k \<union> set_option (pending (ps ! k))"
  by (auto simp: pending_ids_def others_pending_def)

lemma others_pending_update: "others_pending (ps[k := p]) k = others_pending ps k"
  by (auto simp: others_pending_def nth_list_update)

lemma pending_ids_update:
  "k < length ps \<Longrightarrow> pending_ids (ps[k := p]) = others_pending ps k \<union> set_option (pending p)"
  by (simp add: pending_ids_split [of k "ps[k := p]"] others_pending_update)

lemma others_pending_apart:
  assumes "apart new_id ps" "k < length ps" "new_id (ps ! k) = Some i"
  shows "i \<notin> others_pending ps k"
proof
  assume "i \<in> others_pending ps k"
  then obtain l where l: "l < length ps" "l \<noteq> k" "new_id (ps ! l) = Some i"
    by (auto simp: others_pending_def dest: pending_new_id)
  have "new_id (ps ! l) \<noteq> new_id (ps ! k)"
    using assms(1,2) l unfolding apart_def by (metis option.distinct(1))
  with l(3) assms(3) show False by simp
qed

lemma count_update:
  assumes "k < length xs"
  shows "length (filter f (xs[k := y])) + (if f (xs ! k) then 1 else 0) =
    length (filter f xs) + (if f y then 1 else 0)"
  using assms
proof (induction xs arbitrary: k)
  case (Cons x xs)
  show ?case
  proof (cases k)
    case (Suc l)
    with Cons.IH [of l] Cons.prems show ?thesis by auto
  qed auto
qed simp

lemma count_pos: "k < length xs \<Longrightarrow> f (xs ! k) \<Longrightarrow> 0 < length (filter f xs)"
  by (metis length_greater_0_conv filter_empty_conv nth_mem)

lemma room_not_max:
  fixes c :: u64
  assumes "unat c + length (filter f xs) < 2 ^ 64" "k < length xs" "f (xs ! k)"
  shows "c \<noteq> - 1"
proof
  assume "c = - 1"
  then have "unat c = 2 ^ 64 - 1" by transfer (simp add: take_bit_minus_one_eq_mask mask_eq_exp_minus_1)
  with assms(1) count_pos [of k xs f, OF assms(2,3)] show False by simp
qed

text \<open>A step of the thread \<open>k\<close> succeeds, and is a good step.\<close>

lemma thread_step_ok:
  assumes inv: "cinv ra jobs st" and k: "k < length (pcs st)"
  obtains p' \<mu>' where
    "thread_step ra jobs k now st = Some (st\<lparr>mem := \<mu>', pcs := (pcs st)[k := p']\<rparr>)"
    "good_step (toks_at ra jobs st k) (others_pending (pcs st) k) (pcs st ! k) (mem st) p' \<mu>'"
    "pc_next now (toks_at ra jobs st k) (suffix_at ra jobs st k) (jobs ! k) (pcs st ! k) (mem st) =
       Some (p', \<mu>')"
proof -
  note c = cinvD [OF inv]
  have "counter (store (mem st)) \<noteq> - 1" if "pcs st ! k = New"
    using room_not_max [OF c(6) k] that by simp
  moreover have "mem_ok (mem st) (others_pending (pcs st) k \<union> set_option (pending (pcs st ! k)))"
    using c(2) by (simp add: pending_ids_split [OF k])
  ultimately obtain p' \<mu>' where
    "pc_next now (toks_at ra jobs st k) (suffix_at ra jobs st k) (jobs ! k) (pcs st ! k) (mem st) =
      Some (p', \<mu>')"
    "good_step (toks_at ra jobs st k) (others_pending (pcs st) k) (pcs st ! k) (mem st) p' \<mu>'"
    using pc_next_ok c(3) [OF k] others_pending_apart [OF c(5) k] by metis
  with that show ?thesis by (simp add: thread_step_def)
qed

lemma toks_at_update:
  "options (store \<mu>') = options (store (mem st)) \<Longrightarrow>
     toks_at ra jobs (st\<lparr>mem := \<mu>', pcs := ps\<rparr>) l = toks_at ra jobs st l"
  by (simp add: toks_at_def)

lemma can_step_locks:
  assumes "can_step ra jobs st k" "l < length (pcs st)"
    "length (toks_at ra jobs st l) = length (toks_at ra jobs st k)"
  shows "pcs st ! k = Wait_read \<Longrightarrow> \<not> holds_write (pcs st ! l)"
    "pcs st ! k = Wait_write \<Longrightarrow> \<not> holds_write (pcs st ! l) \<and> \<not> holds_read (pcs st ! l)"
  using assms by (auto simp: can_step_def list_all_iff)

lemma locks_ok_step:
  assumes locks: "locks_ok f (pcs st)" and can: "can_step ra jobs st k"
    and f: "f = (\<lambda>l. length (toks_at ra jobs st l))"
    and r: "holds_read p' \<longrightarrow> holds_read (pcs st ! k) \<or> pcs st ! k = Wait_read"
    and w: "holds_write p' \<longrightarrow> holds_write (pcs st ! k) \<or> pcs st ! k = Wait_write"
  shows "locks_ok f ((pcs st)[k := p'])"
proof -
  have k: "k < length (pcs st)" using can by (simp add: can_step_def)
  have ex: "holds_write (pcs st ! a) \<Longrightarrow> \<not> holds_read (pcs st ! b) \<and> \<not> holds_write (pcs st ! b)"
    if "a < length (pcs st)" "b < length (pcs st)" "a \<noteq> b" "f a = f b" for a b
    using locks that by (simp add: locks_ok_def)
  have mine: "\<not> holds_read (pcs st ! l) \<and> \<not> holds_write (pcs st ! l)"
    if "l < length (pcs st)" "l \<noteq> k" "f l = f k" "holds_write p'" for l
    using that w ex [OF k that(1)] can_step_locks(2) [OF can that(1)] f by auto
  have theirs: "\<not> holds_read p' \<and> \<not> holds_write p'"
    if "l < length (pcs st)" "l \<noteq> k" "f l = f k" "holds_write (pcs st ! l)" for l
    using that r w ex [OF that(1) k] can_step_locks [OF can that(1)] f by auto
  show ?thesis
    unfolding locks_ok_def length_list_update
  proof (intro allI impI)
    fix a b
    assume ab: "a < length (pcs st)" "b < length (pcs st)" "a \<noteq> b" "f a = f b"
      "holds_write ((pcs st)[k := p'] ! a)"
    consider "a = k" | "b = k" | "a \<noteq> k" "b \<noteq> k" by blast
    then show "\<not> holds_read ((pcs st)[k := p'] ! b) \<and> \<not> holds_write ((pcs st)[k := p'] ! b)"
    proof cases
      case 1
      with ab k mine [of b] show ?thesis by simp
    next
      case 2
      with ab k theirs [of a] show ?thesis by simp
    next
      case 3
      with ab ex [of a b] show ?thesis by simp
    qed
  qed
qed

lemma apart_step:
  assumes apart: "apart f ps" and k: "k < length ps"
    and p': "f p' = None \<or> f p' = f (ps ! k) \<or>
      (\<exists>i. f p' = Some i \<and> (\<forall>l < length ps. f (ps ! l) \<noteq> Some i))"
  shows "apart f (ps[k := p'])"
proof -
  have ap: "f (ps ! a) \<noteq> None \<Longrightarrow> f (ps ! a) \<noteq> f (ps ! b)"
    if "a < length ps" "b < length ps" "a \<noteq> b" for a b
    using apart that by (simp add: apart_def)
  have new: "f p' \<noteq> None \<Longrightarrow> f p' \<noteq> f (ps ! l)" if "l < length ps" "l \<noteq> k" for l
    using p' ap [OF k that(1)] that by auto
  show ?thesis
    unfolding apart_def length_list_update
  proof (intro allI impI)
    fix a b
    assume ab: "a < length ps" "b < length ps" "a \<noteq> b" "f (ps[k := p'] ! a) \<noteq> None"
    consider "a = k" | "b = k" | "a \<noteq> k" "b \<noteq> k" by blast
    then show "f (ps[k := p'] ! a) \<noteq> f (ps[k := p'] ! b)"
    proof cases
      case 1
      with ab k new [of b] show ?thesis by simp
    next
      case 2
      with ab k new [of a] show ?thesis by (cases "f p' = None") auto
    next
      case 3
      with ab ap [of a b] show ?thesis by simp
    qed
  qed
qed

text \<open>The other threads do not notice.\<close>

lemma good_step_others:
  assumes inv: "cinv ra jobs st" and can: "can_step ra jobs st k"
    and good: "good_step (toks_at ra jobs st k) (others_pending (pcs st) k) (pcs st ! k) (mem st) p' \<mu>'"
    and l: "l < length (pcs st)" "l \<noteq> k"
  shows "pc_ok \<mu>' (toks_at ra jobs st l) (pcs st ! l)"
proof -
  note c = cinvD [OF inv]
  have k: "k < length (pcs st)" using can by (simp add: can_step_def)
  let ?w = "if holds_write (pcs st ! k) \<or> holds_write p' then Some (length (toks_at ra jobs st k)) else None"
  have ev: "evolves ?w (new_id (pcs st ! k)) (mem st) \<mu>'"
    and w: "holds_write p' \<longrightarrow> holds_write (pcs st ! k) \<or> pcs st ! k = Wait_write"
    using good by (simp_all add: good_step_def)
  show ?thesis
  proof (rule pc_ok_evolves [OF c(3) [OF l(1)] ev])
    assume h: "holds_read (pcs st ! l) \<or> holds_write (pcs st ! l)"
    show "?w \<noteq> Some (length (toks_at ra jobs st l))"
    proof
      assume e: "?w = Some (length (toks_at ra jobs st l))"
      have n: "length (toks_at ra jobs st l) = length (toks_at ra jobs st k)"
        "holds_write (pcs st ! k) \<or> pcs st ! k = Wait_write"
        using e w by (auto split: if_splits)
      have "holds_write (pcs st ! k) \<Longrightarrow> \<not> holds_read (pcs st ! l) \<and> \<not> holds_write (pcs st ! l)"
        using c(4) k l n(1) unfolding locks_ok_def by metis
      with h n(2) can_step_locks(2) [OF can l(1) n(1)] show False by blast
    qed
  next
    assume "new_id (pcs st ! l) \<noteq> None"
    with c(5) k l show "new_id (pcs st ! k) \<noteq> new_id (pcs st ! l)"
      by (metis apart_def)
  next
    fix i n ks
    assume "pending (pcs st ! l) = Some i"
    then have "i \<in> pending_ids (pcs st)" using l(1) by (auto simp: pending_ids_def)
    with mem_okD(5) [OF c(2)] show "i \<notin> set (bucket (store (mem st)) n ks)" by blast
  qed
qed

lemma cinv_step:
  assumes inv: "cinv ra jobs st" and can: "can_step ra jobs st k"
    and step: "thread_step ra jobs k now st = Some st'"
  shows "cinv ra jobs st'"
proof -
  note c = cinvD [OF inv]
  have k: "k < length (pcs st)" using can by (simp add: can_step_def)
  let ?p = "pcs st ! k" and ?t = "toks_at ra jobs st"
  obtain p' \<mu>' where st': "st' = st\<lparr>mem := \<mu>', pcs := (pcs st)[k := p']\<rparr>"
    and good: "good_step (?t k) (others_pending (pcs st) k) ?p (mem st) p' \<mu>'"
    using thread_step_ok [OF inv k, of now] step by (metis option.inject)
  have opt: "options (store \<mu>') = options (store (mem st))"
    using good evolvesD(1) by (auto simp: good_step_def)
  note toks = toks_at_update [OF opt, of ra jobs "(pcs st)[k := p']", folded st']
  have pcs: "pcs st' = (pcs st)[k := p']" "mem st' = \<mu>'" by (simp_all add: st')
  have "pc_ok \<mu>' (?t l) ((pcs st)[k := p'] ! l)" if "l < length (pcs st)" for l
  proof (cases "l = k")
    case True
    with good k show ?thesis by (simp add: good_step_def)
  next
    case False
    with good_step_others [OF inv can good that] show ?thesis by simp
  qed
  moreover have "mem_ok \<mu>' (pending_ids ((pcs st)[k := p']))"
    using good by (simp add: pending_ids_update [OF k] good_step_def)
  moreover have "locks_ok (\<lambda>k. length (?t k)) ((pcs st)[k := p'])"
    by (rule locks_ok_step [OF c(4) can refl]) (use good in \<open>simp_all add: good_step_def\<close>)
  moreover have "apart new_id ((pcs st)[k := p'])"
  proof (rule apart_step [OF c(5) k])
    have "\<forall>l < length (pcs st). new_id (pcs st ! l) \<noteq> Some (counter (store (mem st)) + 1)"
      if "?p = New"
    proof (intro allI impI notI)
      fix l
      assume l: "l < length (pcs st)" "new_id (pcs st ! l) = Some (counter (store (mem st)) + 1)"
      have le: "counter (store (mem st)) + 1 \<le> counter (store (mem st))"
        by (rule new_id_bound [OF c(2) c(3) [OF l(1)] l(2)])
      have "counter (store (mem st)) \<noteq> - 1"
        using room_not_max [OF c(6) k] that by simp
      with u64_succ_fresh(1) [OF _ order_refl] le show False by (metis leD)
    qed
    with good show "new_id p' = None \<or> new_id p' = new_id ?p \<or>
        (\<exists>i. new_id p' = Some i \<and> (\<forall>l < length (pcs st). new_id (pcs st ! l) \<noteq> Some i))"
      by (auto simp: good_step_def)
  qed
  moreover have "unat (counter (store \<mu>')) + length (filter (\<lambda>p. \<not> numbered p) ((pcs st)[k := p'])) < 2 ^ 64"
  proof -
    have u: "unat (x + 1 :: u64) \<le> unat x + 1" for x
      using unat_plus_if' [of x 1] by (auto split: if_splits)
    show ?thesis
      using good c(6) count_update [OF k, of "\<lambda>p. \<not> numbered p" p'] u [of "counter (store (mem st))"]
      by (cases "?p = New"; cases "numbered ?p"; cases "numbered p'") (auto simp: good_step_def)
  qed
  ultimately show ?thesis
    using c(1) by (simp add: cinv_def toks pcs)
qed

lemma reachable_cinv:
  assumes "reachable ra jobs st0 st" "cinv ra jobs st0"
  shows "cinv ra jobs st"
  using assms
proof (induction rule: reachable.induct)
  case (next_state st st')
  from next_state.hyps(2) obtain k now
    where "can_step ra jobs st k" "thread_step ra jobs k now st = Some st'" by (rule cstepE)
  with cinv_step next_state.IH [OF next_state.prems] show ?case by blast
qed simp

lemma cinv_launch:
  assumes inv: "miner_inv m" and room: "unat (counter m) + length jobs < 2 ^ 64"
  shows "cinv ra jobs (launch m jobs)"
proof -
  have "mem_ok \<lparr>store = m, live = fmdom (clusters_by_id m)\<rparr> {}"
    using inv by (auto simp: mem_ok_def miner_inv_def index_ok_def fmlookup_dom_iff)
  moreover have "pending_ids (replicate (length jobs) Ready) = {}"
    by (auto simp: pending_ids_def)
  ultimately show ?thesis
    using room
    by (simp add: cinv_def launch_def locks_ok_def apart_def)
qed

end
