(* ===== verification/Concurrent_Props.thy ===== *)
theory Concurrent_Props
  imports Concurrent_Reach
begin

text \<open>
  Safety and termination of concurrent ingest: no interleaving panics, deadlocks or runs on, and
  the miner that the last thread leaves behind satisfies the sequential invariant.
\<close>

section \<open>Safety\<close>

lemma view_sel [simp]:
  "shards (view \<mu>) = shards (store \<mu>)" "options (view \<mu>) = options (store \<mu>)"
  "counter (view \<mu>) = counter (store \<mu>)" "tick (view \<mu>) = tick (store \<mu>)"
  "bucket (view \<mu>) = bucket (store \<mu>)" "shape_ok (view \<mu>) = shape_ok (store \<mu>)"
  "body_of (view \<mu>) i = (if i |\<in>| live \<mu> then heap \<mu> i else None)"
  by (simp_all add: view_def)

lemma mem_ok_view: "mem_ok \<mu> {} \<Longrightarrow> miner_inv (view \<mu>)"
  by (auto simp: mem_ok_def miner_inv_def index_ok_def bodies_ok_def)

lemma reachable_launch:
  assumes "miner_inv m" "unat (counter m) + length jobs < 2 ^ 64"
    "reachable ra jobs (launch m jobs) st"
  shows "cinv ra jobs st"
  using reachable_cinv [OF assms(3) cinv_launch [OF assms(1,2)]] .

section \<open>Ranks\<close>

text \<open>An upper bound on the steps a thread has left, for leaves of at most \<open>c\<close> ids.\<close>

fun rank :: "nat \<Rightarrow> pc \<Rightarrow> nat" where
  "rank c (Finished r) = 0"
| "rank c (Insert i) = 1"
| "rank c (Evict i is best) = 2 + length is"
| "rank c (Build i t) = 3 + c"
| "rank c (Numbered i) = 4 + c"
| "rank c New = 5 + c"
| "rank c (Change i needs) = 1"
| "rank c (Touching i ops) = 2 + length ops"
| "rank c (Hit i) = 8"
| "rank c (Write_scan is best) = 9 + c + length is"
| "rank c Wait_write = 10 + 2 * c"
| "rank c (Read_scan is best) = 11 + 2 * c + length is"
| "rank c Wait_read = 12 + 3 * c"
| "rank c Ready = 13 + 3 * c"

lemma length_hit_ops: "length (hit_ops t e) \<le> 5"
  by (simp add: hit_ops_def split: option.splits)

lemma rank_step:
  assumes shape: "shape_ok (store \<mu>)" and sh': "shape_ok (store \<mu>')"
    and step: "pc_next now toks sfx j p \<mu> = Some (p', \<mu>')" and p: "rank c p \<noteq> 0"
    and c: "c = max_clusters_per_leaf (options (store \<mu>))"
    and opt: "options (store \<mu>') = options (store \<mu>)"
  shows "rank c p' < rank c p"
proof -
  have cap: "length (ids leaf) \<le> c" if "leaf_at (store \<mu>) toks = Some leaf" for leaf
    using leaf_at_ok(1) [OF shape that] by (simp add: leaf_ok_def c)
  have cap': "length (ids leaf) \<le> c" if "leaf_at (store \<mu>') toks = Some leaf" for leaf
    using leaf_at_ok(1) [OF sh' that] by (simp add: leaf_ok_def c opt)
  note ho = length_hit_ops [of "tick (store \<mu>)" "job_event j"]
  show ?thesis
  proof (cases p)
    case Wait_read
    with step cap show ?thesis
      by (fastforce simp: leaf_at_def split: option.splits)
  next
    case (Read_scan "is" best)
    with step show ?thesis by (cases "is") (auto split: option.splits)
  next
    case Wait_write
    with step obtain leaf where "p' = Write_scan (ids leaf) None" "leaf_at (store \<mu>') toks = Some leaf"
      by (auto simp: leaf_at_def Let_def split: option.splits)
    with cap' Wait_write show ?thesis by fastforce
  next
    case (Write_scan "is" best)
    with step show ?thesis by (cases "is") (auto split: option.splits)
  next
    case (Hit i)
    with step ho show ?thesis by (auto simp: next_tick_def)
  next
    case (Touching i ops)
    with step show ?thesis by (cases ops) (auto simp: Let_def split: option.splits if_splits)
  next
    case (Change i needs)
    with step show ?thesis by (auto simp: Let_def split: option.splits prod.splits if_splits)
  next
    case (Build i t)
    with step cap show ?thesis by (fastforce simp: Let_def split: option.splits if_splits)
  next
    case (Evict i "is" best)
    with step show ?thesis by (cases "is") (auto split: option.splits)
  next
    case (Insert i)
    with step show ?thesis by (auto split: option.splits)
  qed (use step p in \<open>auto simp: next_tick_def Let_def\<close>)
qed

definition total_rank :: "'re cstate \<Rightarrow> nat" where
  "total_rank st =
     sum_list (map (rank (max_clusters_per_leaf (options (store (mem st))))) (pcs st))"

lemma sum_list_update_less:
  "k < length xs \<Longrightarrow> f y < (f (xs ! k) :: nat) \<Longrightarrow> sum_list (map f (xs[k := y])) < sum_list (map f xs)"
proof (induction xs arbitrary: k)
  case (Cons x xs)
  then show ?case by (cases k) auto
qed simp

lemma total_rank_step:
  assumes inv: "cinv ra jobs st" and can: "can_step ra jobs st k"
    and step: "thread_step ra jobs k now st = Some st'"
  shows "total_rank st' < total_rank st" "options (store (mem st')) = options (store (mem st))"
proof -
  have k: "k < length (pcs st)" using can by (simp add: can_step_def)
  obtain p' \<mu>' where s: "thread_step ra jobs k now st = Some (st\<lparr>mem := \<mu>', pcs := (pcs st)[k := p']\<rparr>)"
    and good: "good_step (toks_at ra jobs st k) (others_pending (pcs st) k) (pcs st ! k) (mem st) p' \<mu>'"
    and nxt: "pc_next now (toks_at ra jobs st k) (suffix_at ra jobs st k) (jobs ! k) (pcs st ! k) (mem st) =
       Some (p', \<mu>')"
    by (rule thread_step_ok [OF inv k, of now])
  from s step have st': "st' = st\<lparr>mem := \<mu>', pcs := (pcs st)[k := p']\<rparr>" by simp
  have opt: "options (store \<mu>') = options (store (mem st))"
    using good evolvesD(1) by (auto simp: good_step_def)
  then show "options (store (mem st')) = options (store (mem st))" by (simp add: st')
  have "mem_ok \<mu>' (others_pending (pcs st) k \<union> set_option (pending p'))"
    using good by (simp add: good_step_def)
  from mem_okD(2) [OF this] have sh: "shape_ok (store \<mu>')" .
  let ?c = "max_clusters_per_leaf (options (store (mem st)))"
  have "rank ?c (pcs st ! k) \<noteq> 0"
    using can by (cases "pcs st ! k") (auto simp: can_step_def)
  from rank_step [OF mem_okD(2) [OF cinvD(2) [OF inv]] sh nxt this refl opt]
  show "total_rank st' < total_rank st"
    using opt sum_list_update_less [OF k, of "rank ?c" p'] by (simp add: st' total_rank_def)
qed

lemma run_schedule_bound:
  assumes "cinv ra jobs st" "run_schedule ra jobs ks st = Some st'"
  shows "length ks + total_rank st' \<le> total_rank st \<and> cinv ra jobs st'"
  using assms
proof (induction ks arbitrary: st)
  case (Cons s ks)
  obtain k now where s: "s = (k, now)" by (cases s)
  with Cons.prems(2) obtain st1 where st1: "can_step ra jobs st k"
    "thread_step ra jobs k now st = Some st1" "run_schedule ra jobs ks st1 = Some st'"
    by (auto split: if_splits option.splits)
  from total_rank_step(1) [OF Cons.prems(1) st1(1,2)]
    Cons.IH [OF cinv_step [OF Cons.prems(1) st1(1,2)] st1(3)]
  show ?case by simp
qed simp

section \<open>Progress\<close>

definition finished :: "pc \<Rightarrow> bool" where
  "finished p \<longleftrightarrow> (case p of Finished r \<Rightarrow> True | _ \<Rightarrow> False)"

fun waiting :: "pc \<Rightarrow> bool" where
  "waiting Wait_read = True"
| "waiting Wait_write = True"
| "waiting (Change i needs) = True"
| "waiting _ = False"

lemma waiting_holds_nothing:
  "waiting p \<or> finished p \<Longrightarrow> \<not> holds_read p \<and> \<not> holds_write p \<and> \<not> reads_body i p"
  by (cases p) (auto simp: finished_def)

lemma no_deadlock:
  assumes "\<not> list_all finished (pcs st)"
  shows "\<exists>k. can_step ra jobs st k"
proof (rule ccontr)
  assume no: "\<nexists>k. can_step ra jobs st k"
  have rest: "waiting (pcs st ! k) \<or> finished (pcs st ! k)" if "k < length (pcs st)" for k
  proof (rule ccontr)
    assume "\<not> (waiting (pcs st ! k) \<or> finished (pcs st ! k))"
    then have "unblocked n ps (pcs st ! k)" for n ps
      by (cases "pcs st ! k") (simp_all add: finished_def)
    with that no show False by (auto simp: can_step_def)
  qed
  obtain k where k: "k < length (pcs st)" "\<not> finished (pcs st ! k)"
    using assms by (auto simp: list_all_length)
  have free: "\<not> holds_read (pcs st ! l)" "\<not> holds_write (pcs st ! l)" "\<not> reads_body i (pcs st ! l)"
    if "l < length (pcs st)" for l i
    using waiting_holds_nothing rest [OF that] by blast+
  have "unblocked n (map (\<lambda>l. (length (toks_at ra jobs st l), pcs st ! l)) [0..<length (pcs st)])
      (pcs st ! k)" for n
    using rest [OF k(1)] k(2) free
    by (cases "pcs st ! k") (auto simp: finished_def list_all_iff)
  with k(1) no show False by (auto simp: can_step_def)
qed

text \<open>As long as a thread is unfinished some thread can go on, and each step counts down.\<close>

lemma finishing_schedule:
  assumes "cinv ra jobs st"
  shows "\<exists>ks st'. run_schedule ra jobs ks st = Some st' \<and> list_all finished (pcs st')"
  using assms
proof (induction "total_rank st" arbitrary: st rule: less_induct)
  case less
  show ?case
  proof (cases "list_all finished (pcs st)")
    case True
    then show ?thesis by (intro exI [of _ "[]"] exI [of _ st]) simp
  next
    case False
    then obtain k where can: "can_step ra jobs st k" using no_deadlock by blast
    then have "k < length (pcs st)" by (simp add: can_step_def)
    then obtain st1 where step: "thread_step ra jobs k 0 st = Some st1"
      by (rule thread_step_ok [OF less.prems, of k 0])
    from less.hyps [OF total_rank_step(1) [OF less.prems can step] cinv_step [OF less.prems can step]]
    obtain ks st' where "run_schedule ra jobs ks st1 = Some st'" "list_all finished (pcs st')" by blast
    with can step show ?thesis
      by (intro exI [of _ "(k, 0) # ks"] exI [of _ st']) simp
  qed
qed

section \<open>Properties\<close>

text \<open>
  C5.  Concurrent ingest is safe.  In every state that any interleaving of the threads reaches,
  the next step of every thread succeeds (no missing shard, leaf or body, so no panic), every leaf
  keeps within its capacity, and whenever no thread stands between publishing a cluster and
  entering it in its leaf, the miner satisfies the invariant of the sequential model.
\<close>

theorem concurrent_safe:
  assumes "miner_inv m" "unat (counter m) + length jobs < 2 ^ 64"
    "reachable ra jobs (launch m jobs) st"
  shows "(\<nexists>k now. k < length jobs \<and> thread_step ra jobs k now st = None) \<and>
    (\<nexists>n ks. max_clusters_per_leaf (options (store (mem st))) < length (bucket (view (mem st)) n ks)) \<and>
    (pending_ids (pcs st) = {} \<longrightarrow> miner_inv (view (mem st)))"
proof -
  note inv = reachable_launch [OF assms]
  note c = cinvD [OF inv]
  have "thread_step ra jobs k now st \<noteq> None" if "k < length jobs" for k now
    by (rule thread_step_ok [OF inv, of k now]) (use that c(1) in auto)
  moreover have "length (bucket (view (mem st)) n ks) \<le> max_clusters_per_leaf (options (store (mem st)))"
    for n ks
    using bucket_leaf_ok(2) [OF mem_okD(2) [OF c(2)]] by simp
  moreover have "pending_ids (pcs st) = {} \<Longrightarrow> miner_inv (view (mem st))"
    using c(2) mem_ok_view by simp
  ultimately show ?thesis by (metis leD)
qed

text \<open>
  Concurrent ingest terminates.  Every schedule makes at most
  \<open>13 + 3 * max_clusters_per_leaf\<close> steps per thread, and as long as a thread is not
  finished some thread can go on: there is no deadlock, and a maximal schedule finishes them all.
\<close>

theorem concurrent_terminates:
  assumes "miner_inv m" "unat (counter m) + length jobs < 2 ^ 64"
    "run_schedule ra jobs ks (launch m jobs) = Some st"
  shows "length ks \<le> length jobs * (13 + 3 * max_clusters_per_leaf (options m)) \<and>
    (list_all finished (pcs st) \<or> (\<exists>k now st'. can_step ra jobs st k \<and>
      thread_step ra jobs k now st = Some st'))"
proof -
  have "total_rank (launch m jobs) = length jobs * (13 + 3 * max_clusters_per_leaf (options m))"
    by (simp add: total_rank_def launch_def sum_list_replicate)
  with run_schedule_bound [OF cinv_launch [OF assms(1,2)] assms(3)]
  have b: "length ks \<le> length jobs * (13 + 3 * max_clusters_per_leaf (options m))" "cinv ra jobs st"
    by simp_all
  moreover have "\<exists>k now st'. can_step ra jobs st k \<and> thread_step ra jobs k now st = Some st'"
    if not_done: "\<not> list_all finished (pcs st)"
  proof -
    obtain k where k: "can_step ra jobs st k" using no_deadlock [OF not_done] by blast
    then have "k < length (pcs st)" by (simp add: can_step_def)
    from thread_step_ok [OF b(2) this] k show ?thesis by metis
  qed
  ultimately show ?thesis by blast
qed


text \<open>
  C14.  A result holds for good.  From the moment a thread has finished, whatever the others do,
  the cluster it names has a body with the token count and the keys of its line and a template
  that matches the line at every position; no later generalization is lost.
\<close>

theorem concurrent_result_covers:
  assumes "miner_inv m" "unat (counter m) + length jobs < 2 ^ 64"
    "reachable ra jobs (launch m jobs) st" "k < length jobs" "pcs st ! k = Finished r"
  shows "covers (store (mem st)) (toks_at ra jobs st k) (cluster_id r)"
proof -
  note c = cinvD [OF reachable_launch [OF assms(1-3)]]
  from c(3) [of k] c(1) assms(4,5) show ?thesis by simp
qed

end
