(* ===== verification/Concurrent_Count.thy ===== *)
theory Concurrent_Count
  imports Concurrent_Props
begin

text \<open>
  Two global accounts of concurrent ingest: no hit is lost, and threads that race on the same new
  line do not end with two live clusters for it.
\<close>

section \<open>Hits\<close>

definition hits_at :: "'re memory \<Rightarrow> u64 \<Rightarrow> u64" where
  "hits_at \<mu> i = (case heap \<mu> i of None \<Rightarrow> 0 | Some b \<Rightarrow> hits b)"

text \<open>Whether a thread's line is already in the size of the cluster \<open>i\<close>.\<close>

fun counted :: "u64 \<Rightarrow> pc \<Rightarrow> bool" where
  "counted i (Touching k ops) = (k = i \<and> Count_hit \<notin> set ops)"
| "counted i (Change k needs) = (k = i)"
| "counted i (Evict k is best) = (k = i)"
| "counted i (Insert k) = (k = i)"
| "counted i (Finished r) = (cluster_id r = i)"
| "counted i _ = False"

fun ops_wf :: "pc \<Rightarrow> bool" where
  "ops_wf (Touching k ops) = distinct ops"
| "ops_wf _ = True"

lemma hits_exec_op: "hits (exec_op now a b) = hits b + of_bool (a = Count_hit)"
  by (cases a) simp_all

lemma hits_at_write:
  "hits_at (write_body k b \<mu>) i = (if i = k then hits b else hits_at \<mu> i)"
  by (simp add: hits_at_def)

lemma hits_at_same:
  "clusters_by_id (store \<mu>') = clusters_by_id (store \<mu>) \<Longrightarrow> hits_at \<mu>' i = hits_at \<mu> i"
  by (simp add: hits_at_def)

definition keeps_hits :: "u64 \<Rightarrow> pc \<Rightarrow> 're memory \<Rightarrow> pc \<Rightarrow> 're memory \<Rightarrow> bool" where
  "keeps_hits i p \<mu> p' \<mu>' \<longleftrightarrow>
     hits_at \<mu>' i + of_bool (counted i p) = hits_at \<mu> i + of_bool (counted i p') \<and> ops_wf p'"

lemma keeps_hits_same:
  "clusters_by_id (store \<mu>') = clusters_by_id (store \<mu>) \<Longrightarrow> counted i p' = counted i p \<Longrightarrow> ops_wf p' \<Longrightarrow>
     keeps_hits i p \<mu> p' \<mu>'"
  by (simp add: keeps_hits_def hits_at_same [of "\<mu>'" \<mu>])

text \<open>The steps that write a body: one field of it under the lock, its template, and a new one.\<close>

lemma keeps_hits_Touching:
  assumes step: "pc_next now toks sfx j (Touching k ops) \<mu> = Some (p', \<mu>')"
    and pc: "pc_ok \<mu> toks (Touching k ops)" and wf: "distinct ops"
  shows "keeps_hits i (Touching k ops) \<mu> p' \<mu>'"
proof -
  obtain b where b: "heap \<mu> k = Some b" using pc by (auto simp: held_def)
  show ?thesis
  proof (cases ops)
    case Nil
    with step b show ?thesis by (auto simp: keeps_hits_def Let_def split: if_splits)
  next
    case (Cons a ops')
    with step b wf show ?thesis
      by (cases "a = Count_hit") (auto simp: keeps_hits_def hits_at_write hits_exec_op hits_at_def)
  qed
qed

lemma keeps_hits_Change:
  assumes step: "pc_next now toks sfx j (Change k needs) \<mu> = Some (p', \<mu>')"
    and pc: "pc_ok \<mu> toks (Change k needs)"
  shows "keeps_hits i (Change k needs) \<mu> p' \<mu>'"
proof -
  obtain b where b: "heap \<mu> k = Some b" using pc by (auto simp: held_def)
  let ?w = "wildcard (options (store \<mu>))"
  define b1 where "b1 = (if needs then fst (generalize toks ?w b) else b)"
  from step b obtain u where "p' = Finished \<lparr>cluster_id = k, update = u\<rparr>"
    "\<mu>' = write_body k (opt_member (job_member j) b1) \<mu>"
    by (cases needs; cases "job_member j"; cases "generalize toks ?w b")
      (auto simp: b1_def opt_member_def Let_def)
  moreover have "hits b1 = hits b" by (simp add: b1_def)
  ultimately show ?thesis using b by (auto simp: keeps_hits_def hits_at_write hits_at_def)
qed

lemma keeps_hits_Build:
  assumes step: "pc_next now toks sfx j (Build k t) \<mu> = Some (p', \<mu>')" and pc: "pc_ok \<mu> toks (Build k t)"
  shows "keeps_hits i (Build k t) \<mu> p' \<mu>'"
proof -
  obtain leaf where "leaf_at (store \<mu>) toks = Some leaf" using pc by auto
  with step have "p' = (if is_full leaf then Evict k (ids leaf) None else Insert k)"
    "\<mu>' = publish k (fresh_body k t now toks sfx (job_member j) (job_event j)) \<mu>"
    by (simp_all add: publish_def fresh_body_def opt_member_def map_owned_token Let_def)
  moreover have "heap \<mu> k = None" using pc by simp
  ultimately show ?thesis by (auto simp: keeps_hits_def hits_at_def split: option.splits)
qed

lemma hits_step:
  assumes step: "pc_next now toks sfx j p \<mu> = Some (p', \<mu>')" and pc: "pc_ok \<mu> toks p" and wf: "ops_wf p"
  shows "keeps_hits i p \<mu> p' \<mu>'"
proof (cases p)
  case Ready
  with step have r: "p' = Wait_read" "\<mu>' = \<mu>\<lparr>store := snd (shard_for (length toks) (store \<mu>))\<rparr>"
    by simp_all
  have "clusters_by_id (store \<mu>') = clusters_by_id (store \<mu>)"
    by (cases "fmlookup (shards (store \<mu>)) (length toks)") (simp_all add: r(2) shard_for_def Let_def)
  with r(1) Ready show ?thesis by (simp add: keeps_hits_same)
next
  case (Read_scan "is" best)
  with step show ?thesis by (cases "is") (auto intro!: keeps_hits_same split: option.splits)
next
  case (Write_scan "is" best)
  with step show ?thesis by (cases "is") (auto intro!: keeps_hits_same split: option.splits)
next
  case (Hit k)
  with step show ?thesis
    by (cases "job_event j") (auto intro!: keeps_hits_same simp: next_tick_def hit_ops_def)
next
  case (Touching k ops)
  with keeps_hits_Touching step pc wf show ?thesis by simp
next
  case (Change k needs)
  with keeps_hits_Change step pc show ?thesis by simp
next
  case (Build k t)
  with keeps_hits_Build step pc show ?thesis by simp
next
  case (Evict k "is" best)
  with step show ?thesis by (cases "is") (auto intro!: keeps_hits_same split: option.splits)
qed (use step in \<open>auto intro!: keeps_hits_same simp: next_tick_def Let_def split: option.splits\<close>)

definition hits_inv :: "(u64 \<Rightarrow> u64) \<Rightarrow> 're cstate \<Rightarrow> bool" where
  "hits_inv base st \<longleftrightarrow>
     (\<forall>i. hits_at (mem st) i = base i + of_nat (length (filter (counted i) (pcs st)))) \<and>
     list_all ops_wf (pcs st)"

lemma hits_inv_step:
  assumes inv: "cinv ra jobs st" and h: "hits_inv base st" and can: "can_step ra jobs st k"
    and step: "thread_step ra jobs k now st = Some st'"
  shows "hits_inv base st'"
proof -
  have k: "k < length (pcs st)" using can by (simp add: can_step_def)
  obtain p' \<mu>' where s: "thread_step ra jobs k now st = Some (st\<lparr>mem := \<mu>', pcs := (pcs st)[k := p']\<rparr>)"
    and nxt: "pc_next now (toks_at ra jobs st k) (suffix_at ra jobs st k) (jobs ! k) (pcs st ! k) (mem st) =
       Some (p', \<mu>')"
    by (rule thread_step_ok [OF inv k, of now])
  from s step have st': "st' = st\<lparr>mem := \<mu>', pcs := (pcs st)[k := p']\<rparr>" by simp
  have wf: "ops_wf (pcs st ! k)" using h k by (simp add: hits_inv_def list_all_length)
  have hs: "keeps_hits i (pcs st ! k) (mem st) p' \<mu>'" for i
    by (rule hits_step [OF nxt cinvD(3) [OF inv k] wf])
  have "hits_at \<mu>' i = base i + of_nat (length (filter (counted i) ((pcs st)[k := p'])))" for i
  proof -
    have "hits_at (mem st) i = base i + of_nat (length (filter (counted i) (pcs st)))"
      using h by (simp add: hits_inv_def)
    moreover have "(of_nat (length (filter (counted i) ((pcs st)[k := p']))) :: u64) + of_bool (counted i (pcs st ! k)) =
        of_nat (length (filter (counted i) (pcs st))) + of_bool (counted i p')"
      using arg_cong [OF count_update [OF k, of "counted i" p'], of "of_nat :: nat \<Rightarrow> u64"]
      by (auto split: if_splits)
    ultimately have "hits_at \<mu>' i + of_bool (counted i (pcs st ! k)) =
        (base i + of_nat (length (filter (counted i) ((pcs st)[k := p'])))) + of_bool (counted i (pcs st ! k))"
      using hs [of i] by (simp add: keeps_hits_def add.assoc)
    then show ?thesis by (simp only: add_right_cancel)
  qed
  moreover have "list_all ops_wf ((pcs st)[k := p'])"
    using h hs k by (auto simp: hits_inv_def keeps_hits_def list_all_length nth_list_update)
  ultimately show ?thesis by (simp add: hits_inv_def st')
qed

lemma reachable_hits:
  assumes "reachable ra jobs st0 st" "cinv ra jobs st0" "hits_inv base st0"
  shows "hits_inv base st"
  using assms
proof (induction rule: reachable.induct)
  case (next_state st st')
  from next_state.hyps(2) obtain k now
    where "can_step ra jobs st k" "thread_step ra jobs k now st = Some st'" by (rule cstepE)
  with hits_inv_step next_state.IH [OF next_state.prems]
    reachable_cinv [OF next_state.hyps(1) next_state.prems(1)] show ?case by blast
qed simp

text \<open>
  C6.  No hit is lost and none is counted twice.  When all threads have finished, the size of
  every cluster, evicted ones included, is its size before plus the number of threads whose
  result names it.
\<close>

theorem concurrent_counts:
  assumes "miner_inv m" "unat (counter m) + length jobs < 2 ^ 64"
    "reachable ra jobs (launch m jobs) st" "pcs st = map Finished rs"
  shows "(case heap (mem st) i of None \<Rightarrow> 0 | Some b \<Rightarrow> hits b) =
    (case body_of m i of None \<Rightarrow> 0 | Some b \<Rightarrow> hits b) +
      of_nat (length (filter (\<lambda>r. cluster_id r = i) rs))"
proof -
  have "hits_inv (hits_at (mem (launch m jobs))) (launch m jobs)"
    by (auto simp: hits_inv_def launch_def list_all_iff)
  from reachable_hits [OF assms(3) cinv_launch [OF assms(1,2)] this]
  have "hits_at (mem st) i =
      hits_at (mem (launch m jobs)) i + of_nat (length (filter (counted i) (map Finished rs)))"
    by (simp add: hits_inv_def assms(4))
  then show ?thesis by (simp add: hits_at_def launch_def comp_def filter_map)
qed

section \<open>Races on a new line\<close>

fun made :: "pc \<Rightarrow> u64 option" where
  "made (Numbered i) = Some i"
| "made (Build i t) = Some i"
| "made (Evict i is best) = Some i"
| "made (Insert i) = Some i"
| "made (Finished r) = (if update r = Created then Some (cluster_id r) else None)"
| "made _ = None"

text \<open>
  What the presence of the live cluster \<open>i\<close>, created for the same tokens, means for a thread:
  one that scans for writing will find a match, and none goes on to create.
\<close>

fun meets :: "'re memory \<Rightarrow> u64 \<Rightarrow> pc \<Rightarrow> bool" where
  "meets \<mu> i (Write_scan is best) =
     ((best = None \<or> (\<exists>k q. best = Some (k, Fin q))) \<and>
      (i \<in> set is \<or> scan_result \<mu> best \<noteq> None))"
| "meets \<mu> i (Finished r) = (update r = Created \<longrightarrow> cluster_id r |\<notin>| live \<mu>)"
| "meets \<mu> i p = (\<not> holds_write p)"

definition created :: "u64 \<Rightarrow> pc \<Rightarrow> bool" where
  "created i p \<longleftrightarrow> (case p of Finished r \<Rightarrow> update r = Created \<and> cluster_id r = i | _ \<Rightarrow> False)"

definition race_inv ::
    "('re \<Rightarrow> rstr \<Rightarrow> rstr \<Rightarrow> cow) \<Rightarrow> job list \<Rightarrow> 're cstate \<Rightarrow> bool" where
  "race_inv ra jobs st \<longleftrightarrow>
     apart made (pcs st) \<and>
     (\<forall>k < length (pcs st). \<forall>l < length (pcs st). \<forall>i. k \<noteq> l \<longrightarrow> created i (pcs st ! k) \<longrightarrow>
        toks_at ra jobs st k = toks_at ra jobs st l \<longrightarrow> i |\<in>| live (mem st) \<longrightarrow>
        meets (mem st) i (pcs st ! l))"

lemma live_step:
  assumes "pc_next now toks sfx j p \<mu> = Some (p', \<mu>')"
  shows "live \<mu>' |\<subseteq>| live \<mu> |\<union>| fset_of_list (case new_id p of None \<Rightarrow> [] | Some i \<Rightarrow> [i])"
proof (cases p)
  case (Read_scan "is" best)
  with assms show ?thesis by (cases "is") (auto split: option.splits)
next
  case (Write_scan "is" best)
  with assms show ?thesis by (cases "is") (auto split: option.splits)
next
  case (Touching k ops)
  with assms show ?thesis by (cases ops) (auto simp: Let_def split: option.splits if_splits)
next
  case (Evict k "is" best)
  with assms show ?thesis by (cases "is") (auto split: option.splits prod.splits)
qed (use assms in \<open>auto simp: next_tick_def Let_def split: option.splits prod.splits if_splits\<close>)

lemma made_step:
  assumes "pc_next now toks sfx j p \<mu> = Some (p', \<mu>')"
  shows "made p' = None \<or> made p' = made p \<or> p = New \<and> made p' = Some (counter (store \<mu>) + 1)"
proof (cases p)
  case (Read_scan "is" best)
  with assms show ?thesis by (cases "is") (auto split: option.splits)
next
  case (Write_scan "is" best)
  with assms show ?thesis by (cases "is") (auto split: option.splits)
next
  case (Touching k ops)
  with assms show ?thesis by (cases ops) (auto simp: Let_def split: option.splits if_splits)
next
  case (Evict k "is" best)
  with assms show ?thesis by (cases "is") (auto split: option.splits prod.splits)
qed (use assms in \<open>auto simp: next_tick_def Let_def split: option.splits prod.splits if_splits\<close>)

lemma made_bound:
  assumes "mem_ok \<mu> P" "pc_ok \<mu> toks p" "made p = Some i"
  shows "i \<le> counter (store \<mu>)"
  using assms by (cases p) (auto simp: covers_def mem_ok_def bodies_ok_def split: if_splits)

lemma new_id_made: "new_id p = Some i \<Longrightarrow> made p = Some i"
  by (cases p) auto

lemma created_made: "created i p \<Longrightarrow> made p = Some i"
  by (cases p) (auto simp: created_def)

text \<open>A scan keeps a match, and finds the cluster that covers the line.\<close>

lemma scan_one_keeps:
  "scan_result \<mu> best \<noteq> None \<Longrightarrow> scan_result \<mu> (scan_one \<mu> toks i best) \<noteq> None"
  by (cases "sim_threshold (options (store \<mu>))")
    (auto simp: scan_result_def scan_one_def similarity_score Let_def split: option.splits if_splits
      elim: f64_le.elims)

lemma scan_one_finds:
  assumes "valid_options (options (store \<mu>))" "i |\<in>| live \<mu>" "covers (store \<mu>) toks i"
    "best = None \<or> (\<exists>k q. best = Some (k, Fin q))"
  shows "scan_result \<mu> (scan_one \<mu> toks i best) \<noteq> None"
proof -
  obtain b where b: "heap \<mu> i = Some b" "matches_all (tokens b) toks (wildcard (options (store \<mu>)))"
    using assms(3) by (auto simp: covers_def)
  then have "similarity (tokens b) toks (wildcard (options (store \<mu>))) = Fin 1"
    by (simp add: similarity_score score_full)
  moreover have "passes (options (store \<mu>)) 1" by (rule passes_1 [OF assms(1)])
  ultimately show ?thesis
    using assms(2,4) b(1) passes_mono [of "options (store \<mu>)" 1]
    by (auto simp: scan_result_def scan_one_def passes_def Let_def split: option.splits if_splits)
qed

lemma scan_one_Fin:
  "best = None \<or> (\<exists>k q. best = Some (k, Fin q)) \<Longrightarrow>
     scan_one \<mu> toks i best = None \<or> (\<exists>k q. scan_one \<mu> toks i best = Some (k, Fin q))"
  by (auto simp: scan_one_def similarity_score Let_def split: option.splits)

text \<open>The thread that takes the step keeps what the presence of \<open>i\<close> means for it.\<close>

lemma meets_step:
  assumes step: "pc_next now toks sfx j p \<mu> = Some (p', \<mu>')"
    and ok: "mem_ok \<mu> P" "mem_ok \<mu>' P'" and opt: "options (store \<mu>') = options (store \<mu>)"
    and i: "i |\<in>| live \<mu>" "i |\<in>| live \<mu>'" "i \<notin> P'"
      "covers (store \<mu>) toks i" "covers (store \<mu>') toks i"
    and meets: "meets \<mu> i p" and p: "\<not> finished p"
  shows "meets \<mu>' i p'"
proof (cases p)
  case (Read_scan "is" best)
  with step show ?thesis by (cases "is") (auto split: option.splits)
next
  case Wait_write
  with step obtain leaf where leaf: "p' = Write_scan (ids leaf) None" "leaf_at (store \<mu>') toks = Some leaf"
    by (auto simp: leaf_at_def Let_def split: option.splits)
  have "i \<in> set (home (store \<mu>') toks)"
    using mem_okD(5) [OF ok(2), of i] i(2,3,5) by (auto simp: home_def covers_def)
  with leaf show ?thesis by (simp add: home_leaf_at)
next
  case (Write_scan "is" best)
  show ?thesis
  proof (cases "is")
    case Nil
    with Write_scan step meets show ?thesis by (auto split: option.splits)
  next
    case (Cons x xs)
    with Write_scan step have p': "p' = Write_scan xs (scan_one \<mu> toks x best)" "\<mu>' = \<mu>" by auto
    have fin: "best = None \<or> (\<exists>k q. best = Some (k, Fin q))" using meets Write_scan by simp
    consider "i \<in> set xs" | "x = i" | "scan_result \<mu> best \<noteq> None"
      using meets Write_scan Cons by auto
    then show ?thesis
    proof cases
      case 1
      with p' scan_one_Fin [OF fin] show ?thesis by simp
    next
      case 2
      with p' scan_one_Fin [OF fin] scan_one_finds [OF mem_okD(1) [OF ok(1)] i(1,4) fin]
      show ?thesis by simp
    next
      case 3
      with p' scan_one_Fin [OF fin, of \<mu> toks x] scan_one_keeps [OF 3, of toks x]
      show ?thesis by simp
    qed
  qed
next
  case (Touching k ops)
  with step show ?thesis by (cases ops) (auto simp: Let_def split: option.splits if_splits)
next
  case (Evict k "is" best)
  with meets show ?thesis by simp
qed (use step meets p in \<open>auto simp: finished_def next_tick_def Let_def split: option.splits prod.splits if_splits\<close>)

text \<open>Another thread's step keeps it too.\<close>

lemma meets_stable:
  assumes "meets \<mu> i p" "options (store \<mu>') = options (store \<mu>)"
    "\<And>k. made p = Some k \<Longrightarrow> k |\<in>| live \<mu>' \<Longrightarrow> k |\<in>| live \<mu>"
  shows "meets \<mu>' i p"
proof (cases p)
  case (Write_scan "is" best)
  have "scan_result \<mu>' best = scan_result \<mu> best"
    by (simp add: scan_result_def assms(2) cong: option.case_cong)
  with assms(1) Write_scan show ?thesis by simp
next
  case (Finished r)
  with assms(1,3) show ?thesis by auto
qed (use assms(1) in simp_all)

lemma race_invD:
  assumes "race_inv ra jobs st" "k < length (pcs st)" "l < length (pcs st)" "k \<noteq> l"
  shows "made (pcs st ! k) \<noteq> None \<Longrightarrow> made (pcs st ! k) \<noteq> made (pcs st ! l)"
    "created i (pcs st ! k) \<Longrightarrow> toks_at ra jobs st k = toks_at ra jobs st l \<Longrightarrow> i |\<in>| live (mem st) \<Longrightarrow>
       meets (mem st) i (pcs st ! l)"
  using assms by (simp_all add: race_inv_def apart_def)

lemma created_covers:
  assumes "cinv ra jobs st" "k < length (pcs st)" "created i (pcs st ! k)"
  shows "covers (store (mem st)) (toks_at ra jobs st k) i"
  using cinvD(3) [OF assms(1,2)] assms(3) by (cases "pcs st ! k") (auto simp: created_def)

lemma created_not_pending:
  assumes "apart made ps" "k < length ps" "created i (ps ! k)"
  shows "i \<notin> pending_ids ps"
proof
  assume "i \<in> pending_ids ps"
  then obtain l where l: "l < length ps" "pending (ps ! l) = Some i"
    by (auto simp: pending_ids_def)
  have made: "made (ps ! l) = Some i" "made (ps ! k) = Some i"
    using new_id_made [OF pending_new_id [OF l(2)]] created_made [OF assms(3)] by simp_all
  have "l \<noteq> k" using l(2) assms(3) by (cases "ps ! k") (auto simp: created_def)
  with apartD [OF assms(1) l(1) assms(2)] made show False by simp
qed

text \<open>One step of the thread \<open>c\<close>, with the parts that the cases below need.\<close>

definition moves ::
    "('re \<Rightarrow> rstr \<Rightarrow> rstr \<Rightarrow> cow) \<Rightarrow> job list \<Rightarrow> nat \<Rightarrow> int \<Rightarrow> 're cstate \<Rightarrow> pc \<Rightarrow> 're memory \<Rightarrow> 're cstate \<Rightarrow> bool"
  where
  "moves ra jobs c now st p' \<mu>' st' \<longleftrightarrow>
     cinv ra jobs st \<and> cinv ra jobs st' \<and> c < length (pcs st) \<and>
     mem st' = \<mu>' \<and> pcs st' = (pcs st)[c := p'] \<and>
     pc_next now (toks_at ra jobs st c) (suffix_at ra jobs st c) (jobs ! c) (pcs st ! c) (mem st) = Some (p', \<mu>') \<and>
     options (store \<mu>') = options (store (mem st)) \<and>
     (\<forall>i. i |\<in>| live \<mu>' \<longrightarrow> i |\<in>| live (mem st) \<or> new_id (pcs st ! c) = Some i) \<and>
     \<not> finished (pcs st ! c) \<and> (\<forall>l. toks_at ra jobs st' l = toks_at ra jobs st l)"

lemma movesD:
  assumes "moves ra jobs c now st p' \<mu>' st'"
  shows "cinv ra jobs st" "cinv ra jobs st'" "c < length (pcs st)" "mem st' = \<mu>'" "pcs st' = (pcs st)[c := p']"
    "pc_next now (toks_at ra jobs st c) (suffix_at ra jobs st c) (jobs ! c) (pcs st ! c) (mem st) = Some (p', \<mu>')"
    "options (store \<mu>') = options (store (mem st))"
    "i |\<in>| live \<mu>' \<Longrightarrow> i |\<in>| live (mem st) \<or> new_id (pcs st ! c) = Some i"
    "\<not> finished (pcs st ! c)" "toks_at ra jobs st' l = toks_at ra jobs st l"
  using assms by (simp_all add: moves_def)

lemma thread_stepE:
  assumes "cinv ra jobs st" "can_step ra jobs st k" "thread_step ra jobs k now st = Some st'"
  obtains p' \<mu>' where "moves ra jobs k now st p' \<mu>' st'"
proof -
  have k: "k < length (pcs st)" using assms(2) by (simp add: can_step_def)
  obtain p' \<mu>' where s:
    "thread_step ra jobs k now st = Some (st\<lparr>mem := \<mu>', pcs := (pcs st)[k := p']\<rparr>)"
    "good_step (toks_at ra jobs st k) (others_pending (pcs st) k) (pcs st ! k) (mem st) p' \<mu>'"
    "pc_next now (toks_at ra jobs st k) (suffix_at ra jobs st k) (jobs ! k) (pcs st ! k) (mem st) =
       Some (p', \<mu>')"
    by (rule thread_step_ok [OF assms(1) k, of now])
  have opt: "options (store \<mu>') = options (store (mem st))"
    using s(2) evolvesD(1) by (auto simp: good_step_def)
  have "i |\<in>| live (mem st) \<or> new_id (pcs st ! k) = Some i" if "i |\<in>| live \<mu>'" for i
    using live_step [OF s(3)] that by (auto split: option.splits)
  moreover have "\<not> finished (pcs st ! k)"
    using assms(2) by (cases "pcs st ! k") (auto simp: can_step_def finished_def)
  moreover have "st' = st\<lparr>mem := \<mu>', pcs := (pcs st)[k := p']\<rparr>" using assms(3) s(1) by simp
  ultimately have "moves ra jobs k now st p' \<mu>' st'"
    using assms(1) cinv_step [OF assms] s(3) k opt toks_at_update [OF opt] by (simp add: moves_def)
  then show ?thesis by (rule that)
qed

lemma created_step:
  assumes "pc_next now toks sfx j p \<mu> = Some (p', \<mu>')" "created i p'" "\<not> finished p"
  shows "p = Insert i \<and> live \<mu>' = live \<mu>"
proof (cases p)
  case (Read_scan "is" best)
  with assms show ?thesis by (cases "is") (auto simp: created_def split: option.splits)
next
  case (Write_scan "is" best)
  with assms show ?thesis by (cases "is") (auto simp: created_def split: option.splits)
next
  case (Touching k ops)
  with assms show ?thesis
    by (cases ops) (auto simp: created_def Let_def split: option.splits if_splits)
next
  case (Evict k "is" best)
  with assms show ?thesis by (cases "is") (auto simp: created_def split: option.splits prod.splits)
next
  case (Finished r)
  with assms(3) show ?thesis by (simp add: finished_def)
qed (use assms in \<open>auto simp: created_def next_tick_def Let_def split: option.splits prod.splits if_splits\<close>)

text \<open>The step keeps the ids that the threads make apart, and the live ids of the others were live before.\<close>

lemma moves_apart:
  assumes mv: "moves ra jobs c now st p' \<mu>' st'" and race: "race_inv ra jobs st"
  shows "apart made (pcs st')"
  unfolding movesD(5) [OF mv]
proof (rule apart_step [OF _ movesD(3) [OF mv]])
  note inv = movesD(1) [OF mv] and c = movesD(3) [OF mv]
  show "apart made (pcs st)" using race by (simp add: race_inv_def)
  have "\<forall>l < length (pcs st). made (pcs st ! l) \<noteq> Some (counter (store (mem st)) + 1)"
    if new: "pcs st ! c = New"
  proof (intro allI impI notI)
    fix l
    assume "l < length (pcs st)" "made (pcs st ! l) = Some (counter (store (mem st)) + 1)"
    from made_bound [OF cinvD(2) [OF inv] cinvD(3) [OF inv this(1)] this(2)]
    have "counter (store (mem st)) + 1 \<le> counter (store (mem st))" .
    moreover have "counter (store (mem st)) \<noteq> - 1"
      using room_not_max [OF cinvD(6) [OF inv] c] new by simp
    ultimately show False using u64_succ_fresh(1) [OF _ order_refl] by (metis leD)
  qed
  with made_step [OF movesD(6) [OF mv]]
  show "made p' = None \<or> made p' = made (pcs st ! c) \<or>
      (\<exists>i. made p' = Some i \<and> (\<forall>l < length (pcs st). made (pcs st ! l) \<noteq> Some i))"
    by auto
qed

lemma moves_kept:
  assumes "moves ra jobs c now st p' \<mu>' st'" "race_inv ra jobs st"
    "l < length (pcs st)" "l \<noteq> c" "made (pcs st ! l) = Some i" "i |\<in>| live \<mu>'"
  shows "i |\<in>| live (mem st)"
  using movesD(8) [OF assms(1,6)] race_invD(1) [OF assms(2,3) movesD(3) [OF assms(1)] assms(4)]
    assms(5) new_id_made by fastforce

text \<open>The thread that steps may be the one that creates, the one that meets the cluster, or a third.\<close>

lemma meets_creator:
  assumes mv: "moves ra jobs c now st p' \<mu>' st'" and race: "race_inv ra jobs st"
    and l: "l < length (pcs st)" "l \<noteq> c" and cr: "created i p'"
    and same: "toks_at ra jobs st c = toks_at ra jobs st l"
  shows "meets \<mu>' i (pcs st ! l)"
proof -
  note c = movesD(3) [OF mv]
  have ins: "pcs st ! c = Insert i" "live \<mu>' = live (mem st)"
    using created_step [OF movesD(6) [OF mv] cr movesD(9) [OF mv]] by auto
  have "\<not> holds_write (pcs st ! l)"
    using cinvD(4) [OF movesD(1) [OF mv]] ins(1) c l same unfolding locks_ok_def
    by (metis holds_write.simps(6))
  moreover have "\<not> (created j (pcs st ! l) \<and> j |\<in>| live (mem st))" for j
    using race_invD(2) [OF race l(1) c, of j] l(2) same ins(1) by auto
  ultimately show ?thesis using ins(2) by (cases "pcs st ! l") (auto simp: created_def)
qed

lemma meets_mover:
  assumes mv: "moves ra jobs c now st p' \<mu>' st'" and race: "race_inv ra jobs st"
    and k: "k < length (pcs st)" "k \<noteq> c" and cr: "created i (pcs st ! k)"
    and same: "toks_at ra jobs st k = toks_at ra jobs st c" and lv: "i |\<in>| live \<mu>'"
  shows "meets \<mu>' i p'"
proof -
  note inv = movesD(1) [OF mv] and inv' = movesD(2) [OF mv] and st' = movesD(4,5,10) [OF mv]
  have cr': "created i (pcs st' ! k)" and k': "k < length (pcs st')" using cr k by (simp_all add: st')
  have lv0: "i |\<in>| live (mem st)" by (rule moves_kept [OF mv race k created_made [OF cr] lv])
  have np: "i \<notin> pending_ids (pcs st')" by (rule created_not_pending [OF moves_apart [OF mv race] k' cr'])
  have cov: "covers (store (mem st)) (toks_at ra jobs st c) i" "covers (store \<mu>') (toks_at ra jobs st c) i"
    using created_covers [OF inv k(1) cr] created_covers [OF inv' k' cr'] same by (simp_all add: st')
  have "meets (mem st) i (pcs st ! c)"
    by (rule race_invD(2) [OF race k(1) movesD(3) [OF mv] k(2) cr same lv0])
  from meets_step [OF movesD(6) [OF mv] cinvD(2) [OF inv] cinvD(2) [OF inv', unfolded st'(1)]
      movesD(7) [OF mv] lv0 lv np cov this movesD(9) [OF mv]]
  show ?thesis .
qed

lemma race_inv_step:
  assumes inv: "cinv ra jobs st" and race: "race_inv ra jobs st" and can: "can_step ra jobs st c"
    and step: "thread_step ra jobs c now st = Some st'"
  shows "race_inv ra jobs st'"
proof -
  obtain p' \<mu>' where mv: "moves ra jobs c now st p' \<mu>' st'" by (rule thread_stepE [OF inv can step])
  note st' = movesD(4,5,10) [OF mv] and c = movesD(3) [OF mv]
  have "meets \<mu>' i (pcs st' ! l)"
    if kl: "k < length (pcs st)" "l < length (pcs st)" "k \<noteq> l" and cr: "created i (pcs st' ! k)"
      and same: "toks_at ra jobs st k = toks_at ra jobs st l" and lv: "i |\<in>| live \<mu>'" for k l i
  proof -
    consider "k = c" | "l = c" | "k \<noteq> c" "l \<noteq> c" by blast
    then show ?thesis
    proof cases
      case 1
      with meets_creator [OF mv race kl(2)] kl cr same c show ?thesis by (simp add: st')
    next
      case 2
      with meets_mover [OF mv race kl(1)] kl cr same lv c show ?thesis by (simp add: st')
    next
      case 3
      then have crk: "created i (pcs st ! k)" using cr by (simp add: st')
      have "meets (mem st) i (pcs st ! l)"
        by (rule race_invD(2) [OF race kl crk same moves_kept [OF mv race kl(1) 3(1) created_made [OF crk] lv]])
      from meets_stable [OF this movesD(7) [OF mv]] moves_kept [OF mv race kl(2) 3(2)] 3
      show ?thesis by (simp add: st')
    qed
  qed
  with moves_apart [OF mv race] show ?thesis by (simp add: race_inv_def st')
qed

lemma reachable_race:
  assumes "reachable ra jobs st0 st" "cinv ra jobs st0" "race_inv ra jobs st0"
  shows "race_inv ra jobs st"
  using assms
proof (induction rule: reachable.induct)
  case (next_state st st')
  from next_state.hyps(2) obtain k now
    where "can_step ra jobs st k" "thread_step ra jobs k now st = Some st'" by (rule cstepE)
  with race_inv_step next_state.IH [OF next_state.prems]
    reachable_cinv [OF next_state.hyps(1) next_state.prems(1)] show ?case by blast
qed simp

text \<open>
  C7.  A race on a new line makes one cluster.  Two threads that ingest the same token vector and
  both report a creation name different clusters, and at most one of them is live, at any moment of any
  interleaving: the scan repeated under the write lock finds the cluster the other thread made.
\<close>

theorem concurrent_no_duplicates:
  assumes "miner_inv m" "unat (counter m) + length jobs < 2 ^ 64"
    "reachable ra jobs (launch m jobs) st" "k < length jobs" "l < length jobs" "k \<noteq> l"
    "toks_at ra jobs st k = toks_at ra jobs st l"
    "pcs st ! k = Finished \<lparr>cluster_id = a, update = Created\<rparr>"
    "pcs st ! l = Finished \<lparr>cluster_id = b, update = Created\<rparr>"
  shows "a \<noteq> b \<and> \<not> (a |\<in>| live (mem st) \<and> b |\<in>| live (mem st))"
proof -
  have "race_inv ra jobs (launch m jobs)"
    by (auto simp: race_inv_def apart_def launch_def created_def)
  from reachable_race [OF assms(3) cinv_launch [OF assms(1,2)] this] have race: "race_inv ra jobs st" .
  have len: "length (pcs st) = length jobs"
    using cinvD(1) [OF reachable_launch [OF assms(1-3)]] .
  from race_invD(1) [OF race, of k l] race_invD(2) [OF race, of k l a] assms(4-9) len show ?thesis
    by (auto simp: created_def)
qed

end
