(* ===== verification/Concurrent_Solo.thy ===== *)
theory Concurrent_Solo
  imports Concurrent_Count
begin

text \<open>
  The concurrent model against the sequential one: a thread that runs alone does to the miner
  what \<open>add_inner\<close> does.
\<close>

section \<open>A thread alone\<close>

definition solo_step ::
    "systime \<Rightarrow> token list \<Rightarrow> rstr option \<Rightarrow> job \<Rightarrow> pc \<times> 're memory \<Rightarrow> pc \<times> 're memory \<Rightarrow> bool" where
  "solo_step now toks sfx j c c' \<longleftrightarrow>
     \<not> finished (fst c) \<and> pc_next now toks sfx j (fst c) (snd c) = Some c'"

abbreviation solo ::
    "systime \<Rightarrow> token list \<Rightarrow> rstr option \<Rightarrow> job \<Rightarrow> pc \<times> 're memory \<Rightarrow> pc \<times> 're memory \<Rightarrow> bool" where
  "solo now toks sfx j \<equiv> (solo_step now toks sfx j)\<^sup>*\<^sup>*"

lemma solo_next:
  "pc_next now toks sfx j p \<mu> = Some (p1, \<mu>1) \<Longrightarrow> \<not> finished p \<Longrightarrow>
     solo now toks sfx j (p1, \<mu>1) c \<Longrightarrow> solo now toks sfx j (p, \<mu>) c"
  by (rule converse_rtranclp_into_rtranclp) (auto simp: solo_step_def)

lemma options_step:
  assumes "pc_next now toks sfx j p \<mu> = Some (p', \<mu>')"
  shows "options (store \<mu>') = options (store \<mu>)"
proof (cases p)
  case (Read_scan "is" best)
  with assms show ?thesis by (cases "is") (auto split: option.splits)
next
  case (Write_scan "is" best)
  with assms show ?thesis by (cases "is") (auto split: option.splits)
next
  case (Touching k ops)
  with assms show ?thesis by (cases ops) (auto simp: Let_def split: option.splits if_splits)
next
  case (Evict k "is" best)
  with assms show ?thesis by (cases "is") (auto split: option.splits prod.splits)
next
  case Ready
  with assms show ?thesis by (auto simp: shard_for_def Let_def split: option.splits)
qed (use assms in \<open>auto simp: next_tick_def Let_def split: option.splits prod.splits if_splits\<close>)

text \<open>Running alone is a schedule of the one thread.\<close>

lemma solo_schedule:
  assumes "solo now (job_toks ra opt j) (job_suffix ra opt j) j (p, \<mu>) (p', \<mu>')"
    "options (store \<mu>) = opt"
  shows "\<exists>ks. run_schedule ra [j] ks \<lparr>mem = \<mu>, pcs = [p]\<rparr> = Some \<lparr>mem = \<mu>', pcs = [p']\<rparr> \<and>
    set ks \<subseteq> {(0, now)}"
  using assms
proof (induction "(p, \<mu>)" arbitrary: p \<mu> rule: converse_rtranclp_induct)
  case base
  have "run_schedule ra [j] [] \<lparr>mem = \<mu>', pcs = [p']\<rparr> = Some \<lparr>mem = \<mu>', pcs = [p']\<rparr>" by simp
  then show ?case by (intro exI [of _ "[]"]) simp
next
  case (step c)
  obtain p1 \<mu>1 where c: "c = (p1, \<mu>1)" by (cases c)
  with step.hyps(1) have s: "\<not> finished p"
    "pc_next now (job_toks ra opt j) (job_suffix ra opt j) j p \<mu> = Some (p1, \<mu>1)"
    by (simp_all add: solo_step_def)
  from step.hyps(3) [OF c] options_step [OF s(2)] step.prems obtain ks where ks:
    "run_schedule ra [j] ks \<lparr>mem = \<mu>1, pcs = [p1]\<rparr> = Some \<lparr>mem = \<mu>', pcs = [p']\<rparr>"
    "set ks \<subseteq> {(0, now)}" by auto
  have "can_step ra [j] \<lparr>mem = \<mu>, pcs = [p]\<rparr> 0"
    using s(1) by (cases p) (simp_all add: can_step_def finished_def)
  moreover have "thread_step ra [j] 0 now \<lparr>mem = \<mu>, pcs = [p]\<rparr> = Some \<lparr>mem = \<mu>1, pcs = [p1]\<rparr>"
    using s(2) step.prems by (simp add: thread_step_def toks_at_def suffix_at_def)
  ultimately have "run_schedule ra [j] ((0, now) # ks) \<lparr>mem = \<mu>, pcs = [p]\<rparr> =
      Some \<lparr>mem = \<mu>', pcs = [p']\<rparr>"
    using ks(1) by simp
  with ks(2) show ?case by (intro exI [of _ "(0, now) # ks"]) simp
qed

section \<open>Scans\<close>

definition scan_all ::
    "'re memory \<Rightarrow> token list \<Rightarrow> u64 list \<Rightarrow> (u64 \<times> f64) option \<Rightarrow> (u64 \<times> f64) option" where
  "scan_all \<mu> toks is = fold (scan_one \<mu> toks) is"

lemma solo_Read_scan:
  assumes "solo now toks sfx j (Read_scan [] (scan_all \<mu> toks is best), \<mu>) c"
  shows "solo now toks sfx j (Read_scan is best, \<mu>) c"
  using assms
proof (induction "is" arbitrary: best)
  case (Cons i js)
  have "solo now toks sfx j (Read_scan js (scan_one \<mu> toks i best), \<mu>) c"
    using Cons by (simp add: scan_all_def)
  then show ?case by (rule solo_next [rotated 2]) (simp_all add: finished_def)
qed (simp add: scan_all_def)

lemma solo_Write_scan:
  assumes "solo now toks sfx j (Write_scan [] (scan_all \<mu> toks is best), \<mu>) c"
  shows "solo now toks sfx j (Write_scan is best, \<mu>) c"
  using assms
proof (induction "is" arbitrary: best)
  case (Cons i js)
  have "solo now toks sfx j (Write_scan js (scan_one \<mu> toks i best), \<mu>) c"
    using Cons by (simp add: scan_all_def)
  then show ?case by (rule solo_next [rotated 2]) (simp_all add: finished_def)
qed (simp add: scan_all_def)

lemma scan_all_best_match:
  assumes "\<forall>i \<in> set is. i |\<in>| live \<mu>"
  shows "scan_all \<mu> toks is (map_option (\<lambda>(i, s, b). (i, s)) best) =
    map_option (\<lambda>(i, s, b). (i, s))
      (best_match_loop (clusters_by_id (store \<mu>)) (wildcard (options (store \<mu>))) toks is best)"
  using assms
proof (induction "is" arbitrary: best)
  case (Cons i js)
  have "scan_one \<mu> toks i (map_option (\<lambda>(i, s, b). (i, s)) best) =
      map_option (\<lambda>(i, s, b). (i, s))
        (case heap \<mu> i of
           None \<Rightarrow> best
         | Some body \<Rightarrow>
             let sim = similarity (tokens body) toks (wildcard (options (store \<mu>)))
             in case best of None \<Rightarrow> Some (i, sim, body)
                | Some (_, b, _) \<Rightarrow> if f64_lt b sim then Some (i, sim, body) else best)"
    using Cons.prems by (auto simp: scan_one_def Let_def split: option.splits)
  with Cons show ?case by (simp add: scan_all_def Let_def split: option.splits)
qed (simp add: scan_all_def)

lemma scan_finds_winner:
  assumes inv: "miner_inv m" and live: "live \<mu> = fmdom (clusters_by_id m)"
    and si: "same_index m (store \<mu>)"
  shows "scan_result \<mu> (scan_all \<mu> toks (home m toks) None) = winner m toks"
proof -
  have h: "i |\<in>| live \<mu>" if "i \<in> set (home m toks)" for i
    using that index_okD [OF inv] live by (auto simp: home_def fmlookup_dom_iff)
  let ?leaf = "\<lparr>cap = 0, ids = home m toks\<rparr>"
  have "scan_all \<mu> toks (home m toks) None =
      map_option (\<lambda>(i, s, b). (i, s)) (best_match (store \<mu>) ?leaf toks)"
    using scan_all_best_match [of "home m toks" \<mu> toks None] h by (simp add: best_match_def)
  then have "scan_result \<mu> (scan_all \<mu> toks (home m toks) None) =
      map_option fst (above_threshold (store \<mu>) (best_match (store \<mu>) ?leaf toks))"
    by (auto simp: scan_result_def above_threshold_def split: option.splits)
  also have "\<dots> = winner m toks"
    using above_threshold_best_match [OF inv _ si, of ?leaf toks]
    by (simp add: option.map_comp comp_def option.map_ident)
  finally show ?thesis .
qed

text \<open>The search for the victim.\<close>

definition evict_key :: "'re memory \<Rightarrow> u64 \<Rightarrow> u64" where
  "evict_key \<mu> x =
     (case (if x |\<in>| live \<mu> then heap \<mu> x else None) of Some a \<Rightarrow> recency a | None \<Rightarrow> 0)"

lemma solo_Evict:
  assumes "solo now toks sfx j (Evict i [] (fold (evict_one \<mu>) is best), \<mu>) c"
  shows "solo now toks sfx j (Evict i is best, \<mu>) c"
  using assms
proof (induction "is" arbitrary: best)
  case (Cons x xs)
  have "solo now toks sfx j (Evict i xs (evict_one \<mu> x best), \<mu>) c"
    using Cons by simp
  then show ?case by (rule solo_next [rotated 2]) (simp_all add: finished_def)
qed simp

lemma evict_one_key:
  "evict_one \<mu> x best =
     (case best of None \<Rightarrow> Some (x, evict_key \<mu> x)
      | Some (_, k) \<Rightarrow> if evict_key \<mu> x < k then Some (x, evict_key \<mu> x) else best)"
  by (simp only: evict_one_def evict_key_def Let_def)

lemma fold_evict_from:
  "fold (evict_one \<mu>) xs (Some (v, evict_key \<mu> v)) =
     (case min_by_key (evict_key \<mu>) xs of
        None \<Rightarrow> Some (v, evict_key \<mu> v)
      | Some y \<Rightarrow> if evict_key \<mu> y < evict_key \<mu> v then Some (y, evict_key \<mu> y) else Some (v, evict_key \<mu> v))"
proof (induction xs arbitrary: v)
  case (Cons x xs)
  show ?case
    using Cons.IH [of x] Cons.IH [of v]
    by (auto simp: evict_one_key split: option.splits)
qed simp

lemma fold_evict:
  "fold (evict_one \<mu>) xs None = map_option (\<lambda>v. (v, evict_key \<mu> v)) (min_by_key (evict_key \<mu>) xs)"
proof (cases xs)
  case (Cons x xs')
  then show ?thesis
    by (auto simp: evict_one_key [of _ _ None] fold_evict_from split: option.splits)
qed simp

section \<open>The hit\<close>

lemma fold_hit_ops:
  "fold (exec_op now) (hit_ops t e) b = opt_event e (touch t now b)"
  by (simp add: hit_ops_def opt_event_def touch_def observe_event_def split: option.splits)

lemma solo_ops:
  assumes "heap \<mu> i = Some b"
    "solo now toks sfx j (Touching i [], write_body i (fold (exec_op now) ops b) \<mu>) c"
  shows "solo now toks sfx j (Touching i ops, write_body i b \<mu>) c"
  using assms
proof (induction ops arbitrary: b \<mu>)
  case (Cons a ops)
  have ww: "write_body i x (write_body i y \<mu>) = write_body i x \<mu>" for x y
    by (simp add: write_body_def fmap_ext)
  have "solo now toks sfx j (Touching i ops, write_body i (exec_op now a b) \<mu>) c"
    using Cons.IH [of "write_body i (exec_op now a b) \<mu>" "exec_op now a b"] Cons.prems(2)
    by (simp add: ww)
  then show ?case
    by (rule solo_next [rotated 2]) (simp_all add: finished_def ww)
qed simp

lemma fmupd_same: "fmlookup f i = Some b \<Longrightarrow> fmupd i b f = f"
  by (rule fmap_ext) auto

lemma write_body_same:
  "heap \<mu> i = Some b \<Longrightarrow> write_body i b \<mu> = \<mu>"
  by (cases \<mu>; cases "store \<mu>") (simp add: write_body_def fmupd_same)

text \<open>The memory behind the bookkeeping of a hit.\<close>

definition touched ::
    "systime \<Rightarrow> u64 \<Rightarrow> cluster_inner \<Rightarrow> u64 option \<Rightarrow> 're memory \<Rightarrow> 're memory" where
  "touched now i b e \<mu> =
     write_body i (opt_event e (touch (tick (store \<mu>)) now b))
       (\<mu>\<lparr>store := (store \<mu>)\<lparr>tick := tick (store \<mu>) + 1\<rparr>\<rparr>)"

lemma touched_sel [simp]:
  "heap (touched now i b e \<mu>) i = Some (opt_event e (touch (tick (store \<mu>)) now b))"
  "options (store (touched now i b e \<mu>)) = options (store \<mu>)"
  "live (touched now i b e \<mu>) = live \<mu>"
  by (simp_all add: touched_def)

lemma store_touched:
  "store (touched now i b e \<mu>) = (store \<mu>)\<lparr>tick := tick (store \<mu>) + 1,
     clusters_by_id := fmupd i (opt_event e (touch (tick (store \<mu>)) now b)) (clusters_by_id (store \<mu>))\<rparr>"
  by (simp add: touched_def write_body_def)

lemma solo_touch:
  assumes b: "heap \<mu> i = Some b" and rest: "solo now toks sfx j (Touching i [], touched now i b (job_event j) \<mu>) c"
  shows "solo now toks sfx j (Hit i, \<mu>) c"
proof -
  let ?\<mu>1 = "\<mu>\<lparr>store := (store \<mu>)\<lparr>tick := tick (store \<mu>) + 1\<rparr>\<rparr>"
  let ?ops = "hit_ops (tick (store \<mu>)) (job_event j)"
  have "write_body i b ?\<mu>1 = ?\<mu>1" using b by (simp add: write_body_same)
  then have "solo now toks sfx j (Touching i ?ops, ?\<mu>1) c"
    using solo_ops [of ?\<mu>1 i b now toks sfx j ?ops c] b rest by (simp add: fold_hit_ops touched_def)
  then show ?thesis by (rule solo_next [rotated 2]) (simp_all add: next_tick_def finished_def)
qed

lemma apply_match_touched:
  assumes "b2 = opt_event (job_event j) (touch (tick (store \<mu>)) now b)"
    and "needs = would_generalize b2 toks (wildcard (options (store \<mu>)))"
    and "(b3, changed) = (if needs then generalize toks (wildcard (options (store \<mu>))) b2 else (b2, False))"
  shows "apply_match now i b toks (job_member j) (job_event j) (store \<mu>) =
    (\<lparr>cluster_id = i, update = if changed then TemplateChanged else Unchanged\<rparr>,
     store (write_body i (opt_member (job_member j) b3) (touched now i b (job_event j) \<mu>)))"
proof -
  have "(case job_event j of None \<Rightarrow> x | Some ms \<Rightarrow> observe_event ms x) = opt_event (job_event j) x" for x
    by (simp add: opt_event_def)
  moreover have "fmupd i x (fmupd i y f) = fmupd i x f" for x y :: cluster_inner and f
    by (rule fmap_ext) simp
  ultimately show ?thesis
    using assms
    by (auto simp: apply_match_def next_tick_def Let_def store_touched write_body_def opt_member_def
        split: option.splits if_splits prod.splits)
qed

lemma solo_hit:
  assumes "heap \<mu> i = Some b"
  obtains r \<mu>' where "solo now toks sfx j (Hit i, \<mu>) (Finished r, \<mu>')" "live \<mu>' = live \<mu>"
    "apply_match now i b toks (job_member j) (job_event j) (store \<mu>) = (r, store \<mu>')"
proof -
  let ?w = "wildcard (options (store \<mu>))" and ?\<mu>2 = "touched now i b (job_event j) \<mu>"
  define b2 where "b2 = opt_event (job_event j) (touch (tick (store \<mu>)) now b)"
  define needs where "needs = would_generalize b2 toks ?w"
  obtain b3 changed where gen: "(b3, changed) = (if needs then generalize toks ?w b2 else (b2, False))"
    by (metis surj_pair)
  let ?r = "\<lparr>cluster_id = i, update = if changed then TemplateChanged else Unchanged\<rparr>"
  let ?\<mu>3 = "write_body i (opt_member (job_member j) b3) ?\<mu>2"
  have h2: "heap ?\<mu>2 i = Some b2" by (simp add: b2_def)
  have "solo now toks sfx j (Touching i [], ?\<mu>2) (Finished ?r, ?\<mu>3)"
  proof (cases "\<not> needs \<and> job_member j = None")
    case True
    then have "b3 = b2" "\<not> changed" "?\<mu>3 = ?\<mu>2"
      using gen h2 by (simp_all add: opt_member_def write_body_same)
    then show ?thesis
      using True h2 by (intro solo_next [OF _ _ rtranclp.rtrancl_refl])
        (simp_all add: finished_def Let_def needs_def [symmetric])
  next
    case False
    have "pc_next now toks sfx j (Change i needs) ?\<mu>2 = Some (Finished ?r, ?\<mu>3)"
      using h2 gen by (cases "generalize toks ?w b2"; cases needs)
        (auto simp: Let_def opt_member_def split: option.splits)
    then have "solo now toks sfx j (Change i needs, ?\<mu>2) (Finished ?r, ?\<mu>3)"
      by (rule solo_next [OF _ _ rtranclp.rtrancl_refl]) (simp add: finished_def)
    moreover have "pc_next now toks sfx j (Touching i []) ?\<mu>2 = Some (Change i needs, ?\<mu>2)"
      using h2 False by (auto simp: Let_def needs_def)
    ultimately show ?thesis by (rule solo_next [rotated 2]) (simp add: finished_def)
  qed
  from solo_touch [OF assms this] show ?thesis
    by (rule that) (simp_all add: apply_match_touched [OF b2_def needs_def gen])
qed

section \<open>The creation\<close>

lemma write_leaf_twice: "write_leaf (write_leaf t ks a) ks b = write_leaf t ks b"
proof (induction ks arbitrary: t)
  case (Cons k ks)
  show ?case
  proof (cases t)
    case (Internal ch)
    show ?thesis
    proof (cases "fmlookup ch k")
      case (Some c)
      have "fmupd k x (fmupd k y ch) = fmupd k x ch" for x y :: tree_node
        by (rule fmap_ext) simp
      with Internal Some Cons show ?thesis by simp
    qed (simp add: Internal)
  qed simp
qed simp

text \<open>The miner with the new body, before the leaf is touched.\<close>

definition registered :: "u64 \<Rightarrow> cluster_inner \<Rightarrow> 're miner \<Rightarrow> 're miner" where
  "registered i b m =
     m\<lparr>counter := i, tick := tick m + 1, clusters_by_id := fmupd i b (clusters_by_id m)\<rparr>"

lemma registered_sel [simp]:
  "clusters_by_id (registered i b m) = fmupd i b (clusters_by_id m)" "shards (registered i b m) = shards m"
  "options (registered i b m) = options m"
  by (simp_all add: registered_def)

definition registered_mem :: "u64 \<Rightarrow> cluster_inner \<Rightarrow> 're miner \<Rightarrow> 're memory" where
  "registered_mem i b m =
     \<lparr>store = registered i b m, live = finsert i (fmdom (clusters_by_id m))\<rparr>"

lemma registered_mem_sel [simp]:
  "store (registered_mem i b m) = registered i b m"
  "live (registered_mem i b m) = finsert i (fmdom (clusters_by_id m))"
  by (simp_all add: registered_mem_def)

lemma leaf_at_same:
  assumes "shards m' = shards m" "options m' = options m"
  shows "leaf_at m' toks = leaf_at m toks"
  unfolding leaf_at_def assms ..

lemma leaf_at_registered [simp]: "leaf_at (registered i b m) toks = leaf_at m toks"
  by (rule leaf_at_same) simp_all

lemma solo_register:
  assumes la: "leaf_at m1 toks = Some leaf" and \<mu>: "store \<mu> = m1" "live \<mu> = fmdom (clusters_by_id m1)"
    and b: "b = fresh_body (counter m1 + 1) (tick m1) now toks sfx (job_member j) (job_event j)"
    and rest: "solo now toks sfx j
      (if is_full leaf then Evict (counter m1 + 1) (ids leaf) None else Insert (counter m1 + 1),
       registered_mem (counter m1 + 1) b m1) c"
  shows "solo now toks sfx j (New, \<mu>) c"
proof -
  let ?i = "counter m1 + 1"
  define \<mu>1 where "\<mu>1 = \<mu>\<lparr>store := m1\<lparr>counter := ?i, tick := tick m1 + 1\<rparr>\<rparr>"
  have pub: "registered_mem ?i b m1 = publish ?i b \<mu>1"
    by (simp add: registered_mem_def registered_def publish_def write_body_def \<mu>1_def \<mu>)
  have la1: "leaf_at (store \<mu>1) toks = Some leaf"
    using la leaf_at_same [of "store \<mu>1" m1 toks] by (simp add: \<mu>1_def)
  have "solo now toks sfx j (Build ?i (tick m1), \<mu>1) c"
    using rest unfolding pub
    by (rule solo_next [rotated 2])
      (simp_all add: finished_def la1 b fresh_body_def opt_member_def publish_def map_owned_token Let_def)
  then have "solo now toks sfx j (Numbered ?i, \<mu>\<lparr>store := m1\<lparr>counter := ?i\<rparr>\<rparr>) c"
    by (rule solo_next [rotated 2]) (simp_all add: finished_def next_tick_def \<mu>1_def)
  then show ?thesis
    by (rule solo_next [rotated 2]) (simp_all add: finished_def \<mu> Let_def)
qed

lemma create_cluster_registered:
  assumes "i = counter m1 + 1" "b = fresh_body i (tick m1) now toks sfx mb ev"
  shows "create_cluster now n node keys leaf toks sfx mb ev m1 =
    (let (leaf1, m4) = evict_if_full leaf (registered i b m1)
     in (\<lparr>cluster_id = i, update = Created\<rparr>,
         m4\<lparr>shards := fmupd n \<lparr>root = write_leaf node keys (leaf_insert leaf1 i)\<rparr> (shards m4)\<rparr>))"
proof -
  have "(case mb of None \<Rightarrow> x | Some y \<Rightarrow> add_member y x) = opt_member mb x" for x
    by (simp add: opt_member_def)
  then show ?thesis
    by (simp add: create_cluster_def Let_def next_tick_def assms fresh_body_def registered_def map_owned_token)
qed

text \<open>The write to the leaf, and the eviction before it.\<close>

lemma solo_insert:
  assumes "leaf_at (store \<mu>) toks = Some leaf"
  shows "solo now toks sfx j (Insert i, \<mu>)
    (Finished \<lparr>cluster_id = i, update = Created\<rparr>,
     \<mu>\<lparr>store := set_leaf toks (leaf_insert leaf i) (store \<mu>)\<rparr>)"
  by (rule solo_next [OF _ _ rtranclp.rtrancl_refl]) (simp_all add: finished_def assms)

lemma solo_evict:
  assumes "leaf_at (store \<mu>) toks = Some leaf" "min_by_key (evict_key \<mu>) (ids leaf) = Some v"
    and rest: "solo now toks sfx j
      (Insert i, \<mu>\<lparr>store := set_leaf toks (leaf_remove leaf v) (store \<mu>), live := live \<mu> |-| {|v|}\<rparr>) c"
  shows "solo now toks sfx j (Evict i (ids leaf) None, \<mu>) c"
proof (rule solo_Evict)
  have "solo now toks sfx j (Evict i [] (Some (v, evict_key \<mu> v)), \<mu>) c"
    using rest by (rule solo_next [rotated 2]) (simp_all add: finished_def assms(1))
  then show "solo now toks sfx j (Evict i [] (fold (evict_one \<mu>) (ids leaf) None), \<mu>) c"
    by (simp add: fold_evict assms(2))
qed

text \<open>A leaf that is full and holds something is one that loses a cluster.\<close>

lemma solo_create_fits:
  assumes la: "leaf_at m1 toks = Some leaf" and fits: "\<not> (is_full leaf \<and> ids leaf \<noteq> [])"
    and shard: "fmlookup (shards m1) (length toks) = Some \<lparr>root = node\<rparr>"
  shows "\<exists>\<mu>'. solo now toks sfx j
      (if is_full leaf then Evict i (ids leaf) None else Insert i, registered_mem i b m1)
      (Finished \<lparr>cluster_id = i, update = Created\<rparr>, \<mu>') \<and>
    view \<mu>' = (registered i b m1)\<lparr>shards := fmupd (length toks)
      \<lparr>root = write_leaf node (descent_keys (options m1) toks) (leaf_insert leaf i)\<rparr> (shards m1)\<rparr>"
proof (intro exI conjI)
  let ?\<mu> = "registered_mem i b m1" and ?m = "registered i b m1"
  have ins: "solo now toks sfx j (Insert i, ?\<mu>) (Finished \<lparr>cluster_id = i, update = Created\<rparr>,
      ?\<mu>\<lparr>store := set_leaf toks (leaf_insert leaf i) ?m\<rparr>)"
    using solo_insert [of ?\<mu> toks leaf] la by simp
  moreover have "solo now toks sfx j (Evict i [] None, ?\<mu>) (Finished \<lparr>cluster_id = i, update = Created\<rparr>,
      ?\<mu>\<lparr>store := set_leaf toks (leaf_insert leaf i) ?m\<rparr>)"
    using ins by (rule solo_next [rotated 2]) (simp_all add: finished_def la)
  ultimately show "solo now toks sfx j (if is_full leaf then Evict i (ids leaf) None else Insert i, ?\<mu>)
      (Finished \<lparr>cluster_id = i, update = Created\<rparr>, ?\<mu>\<lparr>store := set_leaf toks (leaf_insert leaf i) ?m\<rparr>)"
    using fits by auto
  have "fmrestrict_fset (finsert i (fmdom (clusters_by_id m1))) (fmupd i b (clusters_by_id m1)) =
      fmupd i b (clusters_by_id m1)"
    by (rule fmap_ext) (auto simp: fmlookup_dom_iff)
  then show "view (?\<mu>\<lparr>store := set_leaf toks (leaf_insert leaf i) ?m\<rparr>) =
    ?m\<lparr>shards := fmupd (length toks)
      \<lparr>root = write_leaf node (descent_keys (options m1) toks) (leaf_insert leaf i)\<rparr> (shards m1)\<rparr>"
    using shard by (simp add: view_def set_leaf_def registered_def)
qed

lemma solo_create_evicts:
  assumes la: "leaf_at m1 toks = Some leaf" and full: "is_full leaf"
    and shard: "fmlookup (shards m1) (length toks) = Some \<lparr>root = node\<rparr>"
    and wl: "\<And>b. descend (write_leaf node (descent_keys (options m1) toks) b) (descent_keys (options m1) toks) = Some b"
    and v: "min_by_key (evict_key (registered_mem i b m1)) (ids leaf) = Some v"
  shows "\<exists>\<mu>'. solo now toks sfx j (Evict i (ids leaf) None, registered_mem i b m1)
      (Finished \<lparr>cluster_id = i, update = Created\<rparr>, \<mu>') \<and>
    view \<mu>' = (registered i b m1)\<lparr>clusters_by_id := fmdrop v (fmupd i b (clusters_by_id m1)),
      shards := fmupd (length toks) \<lparr>root = write_leaf node (descent_keys (options m1) toks)
        (leaf_insert (leaf_remove leaf v) i)\<rparr> (shards m1)\<rparr>"
proof (intro exI conjI)
  let ?m = "registered i b m1" and ?l1 = "leaf_remove leaf v" and ?keys = "descent_keys (options m1) toks"
  define \<mu>3 where "\<mu>3 = (registered_mem i b m1)\<lparr>store := set_leaf toks ?l1 ?m,
    live := finsert i (fmdom (clusters_by_id m1)) |-| {|v|}\<rparr>"
  have s3: "store \<mu>3 = ?m\<lparr>shards := fmupd (length toks) \<lparr>root = write_leaf node ?keys ?l1\<rparr> (shards m1)\<rparr>"
    using shard by (simp add: \<mu>3_def set_leaf_def)
  have la3: "leaf_at (store \<mu>3) toks = Some ?l1" by (simp add: s3 leaf_at_def wl)
  show "solo now toks sfx j (Evict i (ids leaf) None, registered_mem i b m1)
      (Finished \<lparr>cluster_id = i, update = Created\<rparr>,
       \<mu>3\<lparr>store := set_leaf toks (leaf_insert ?l1 i) (store \<mu>3)\<rparr>)"
    by (rule solo_evict [OF _ v]) (use la solo_insert [OF la3] in \<open>simp_all add: \<mu>3_def\<close>)
  have "fmrestrict_fset (finsert i (fmdom (clusters_by_id m1)) |-| {|v|})
        (fmupd i b (clusters_by_id m1)) = fmdrop v (fmupd i b (clusters_by_id m1))"
    by (rule fmap_ext) (auto simp: fmlookup_dom_iff)
  moreover have "fmupd (length toks) x (fmupd (length toks) y f) = fmupd (length toks) x f" for x y :: shard and f
    by (rule fmap_ext) simp
  ultimately show "view (\<mu>3\<lparr>store := set_leaf toks (leaf_insert ?l1 i) (store \<mu>3)\<rparr>) =
      ?m\<lparr>clusters_by_id := fmdrop v (fmupd i b (clusters_by_id m1)),
        shards := fmupd (length toks) \<lparr>root = write_leaf node ?keys (leaf_insert ?l1 i)\<rparr> (shards m1)\<rparr>"
    by (simp add: view_def s3 set_leaf_def write_leaf_twice) (simp add: \<mu>3_def registered_def)
qed

lemma solo_create:
  assumes leaf: "descend node (descent_keys (options m1) toks) = Some leaf"
    and shard: "fmlookup (shards m1) (length toks) = Some \<lparr>root = node\<rparr>"
    and wl: "\<And>b. descend (write_leaf node (descent_keys (options m1) toks) b) (descent_keys (options m1) toks) = Some b"
    and live: "live \<mu> = fmdom (clusters_by_id m1)" and \<mu>: "store \<mu> = m1"
    and ids: "counter m1 + 1 \<notin> set (ids leaf)" "\<forall>x \<in> set (ids leaf). body_of m1 x \<noteq> None"
  obtains r \<mu>' where "solo now toks sfx j (New, \<mu>) (Finished r, \<mu>')"
    "create_cluster now (length toks) node (descent_keys (options m1) toks) leaf toks sfx
      (job_member j) (job_event j) m1 = (r, view \<mu>')"
proof -
  let ?i = "counter m1 + 1"
  define b where "b = fresh_body ?i (tick m1) now toks sfx (job_member j) (job_event j)"
  let ?m = "registered ?i b m1" and ?\<mu> = "registered_mem ?i b m1"
  let ?r = "\<lparr>cluster_id = ?i, update = Created\<rparr>"
  have la: "leaf_at m1 toks = Some leaf" using leaf shard by (simp add: leaf_at_def)
  note start = solo_register [OF la \<mu> live b_def]
  note create = create_cluster_registered [OF refl b_def]
  show ?thesis
  proof (cases "is_full leaf \<and> ids leaf \<noteq> []")
    case False
    then have ev: "evict_if_full leaf ?m = (leaf, ?m)" by (auto simp: evict_if_full_def)
    obtain \<mu>' where "solo now toks sfx j
        (if is_full leaf then Evict ?i (ids leaf) None else Insert ?i, ?\<mu>)
        (Finished \<lparr>cluster_id = ?i, update = Created\<rparr>, \<mu>')"
      "view \<mu>' = ?m\<lparr>shards := fmupd (length toks)
        \<lparr>root = write_leaf node (descent_keys (options m1) toks) (leaf_insert leaf ?i)\<rparr> (shards m1)\<rparr>"
      using solo_create_fits [OF la False shard] by blast
    with start create show ?thesis by (intro that [of ?r \<mu>']) (simp_all add: ev)
  next
    case True
    then obtain v where v: "min_by_key (evict_key ?\<mu>) (ids leaf) = Some v"
      using min_by_key_None not_None_eq by metis
    have key: "evict_key ?\<mu> x = (case fmlookup (clusters_by_id ?m) x of Some a \<Rightarrow> recency a | None \<Rightarrow> 0)"
      if "x \<in> set (ids leaf)" for x
      using that ids by (auto simp: evict_key_def fmlookup_dom_iff split: option.splits)
    have ev: "evict_if_full leaf ?m = (leaf_remove leaf v, ?m\<lparr>clusters_by_id := fmdrop v (clusters_by_id ?m)\<rparr>)"
      using True v min_by_key_cong [of "ids leaf", OF key] by (simp add: evict_if_full_def)
    obtain \<mu>' where "solo now toks sfx j (Evict ?i (ids leaf) None, ?\<mu>)
        (Finished \<lparr>cluster_id = ?i, update = Created\<rparr>, \<mu>')"
      "view \<mu>' = ?m\<lparr>clusters_by_id := fmdrop v (fmupd ?i b (clusters_by_id m1)),
        shards := fmupd (length toks) \<lparr>root = write_leaf node (descent_keys (options m1) toks)
          (leaf_insert (leaf_remove leaf v) ?i)\<rparr> (shards m1)\<rparr>"
      using solo_create_evicts [OF la _ shard wl v] True by blast
    with start create True show ?thesis by (intro that [of ?r \<mu>']) (simp_all add: ev)
  qed
qed

section \<open>The two outcomes\<close>

text \<open>The state behind the creation of the shard, and the thread's way to the end of its first scan.\<close>

definition after_shard :: "'re miner \<Rightarrow> 're miner \<Rightarrow> 're memory" where
  "after_shard m m0 = \<lparr>store = m0, live = fmdom (clusters_by_id m)\<rparr>"

lemma after_shard_sel [simp]:
  "store (after_shard m m0) = m0" "live (after_shard m m0) = fmdom (clusters_by_id m)"
  by (simp_all add: after_shard_def)

lemma solo_scan:
  assumes inv: "miner_inv m" and sm: "shard_for (length toks) m = (s, m0)"
  shows "home m toks = leaf_ids (descend (root s) (descent_keys (options m) toks))"
    "scan_result (after_shard m m0) (scan_all (after_shard m m0) toks (home m toks) None) = winner m toks"
    "solo now toks sfx j
        (Read_scan [] (scan_all (after_shard m m0) toks (home m toks) None), after_shard m m0) c \<Longrightarrow>
      solo now toks sfx j (Ready, \<lparr>store = m, live = fmdom (clusters_by_id m)\<rparr>) c"
proof -
  note sf = shard_for_ok [OF miner_invD(2) [OF inv] sm]
  have m0: "clusters_by_id m0 = clusters_by_id m" "options m0 = options m" "bucket m0 = bucket m"
    using sf(2) by (simp_all add: same_index_def)
  show home: "home m toks = leaf_ids (descend (root s) (descent_keys (options m) toks))"
    using m0 bucket_lookup [OF sf(3), of "descent_keys (options m) toks"] by (simp add: home_def)
  show "scan_result (after_shard m m0) (scan_all (after_shard m m0) toks (home m toks) None) =
      winner m toks"
    by (rule scan_finds_winner [OF inv]) (use sf(2) in simp_all)
  show "solo now toks sfx j (Ready, \<lparr>store = m, live = fmdom (clusters_by_id m)\<rparr>) c"
    if "solo now toks sfx j
      (Read_scan [] (scan_all (after_shard m m0) toks (home m toks) None), after_shard m m0) c"
  proof -
    have "solo now toks sfx j (Wait_read, after_shard m m0) c"
      using solo_Read_scan [OF that]
      by (rule solo_next [rotated 2])
        (use sf(3) home in \<open>auto simp: m0 finished_def split: option.splits\<close>)
    then show ?thesis
      by (rule solo_next [rotated 2]) (simp_all add: finished_def after_shard_def sm)
  qed
qed

lemma solo_finds:
  assumes inv: "miner_inv m" and pre: "preprocess ra (options m) (job_line j) = (toks, sfx)"
    and sm: "shard_for (length toks) m = (s, m0)" and win: "winner m toks = Some i"
  shows "\<exists>r \<mu>. solo now toks sfx j (Ready, \<lparr>store = m, live = fmdom (clusters_by_id m)\<rparr>) (Finished r, \<mu>) \<and>
    add_inner ra now (job_line j) (job_member j) (job_event j) m = Some (r, view \<mu>)"
proof -
  note sf = shard_for_ok [OF miner_invD(2) [OF inv] sm]
  note home = solo_scan(1) [OF inv sm] and found = solo_scan(2) [OF inv sm]
    and start = solo_scan(3) [OF inv sm]
  have m0: "clusters_by_id m0 = clusters_by_id m" "options m0 = options m"
    using sf(2) by (simp_all add: same_index_def)
  let ?keys = "descent_keys (options m) toks" and ?live = "fmdom (clusters_by_id m)"
  define \<mu>0 where [simp]: "\<mu>0 = after_shard m m0"
  obtain b where b: "body_of m i = Some b"
    using winner_Some(1) [OF win] index_okD [OF inv] by (auto simp: home_def)
  obtain r \<mu>' where hit: "solo now toks sfx j (Hit i, \<mu>0) (Finished r, \<mu>')" "live \<mu>' = live \<mu>0"
    "apply_match now i b toks (job_member j) (job_event j) (store \<mu>0) = (r, store \<mu>')"
    by (rule solo_hit [of \<mu>0 i b now toks sfx j]) (use b in \<open>simp_all add: after_shard_def m0\<close>)
  have "solo now toks sfx j (Read_scan [] (scan_all \<mu>0 toks (home m toks) None), \<mu>0) (Finished r, \<mu>')"
    using hit(1) by (rule solo_next [rotated 2]) (simp_all add: found win finished_def)
  moreover have "add_inner ra now (job_line j) (job_member j) (job_event j) m = Some (r, store \<mu>')"
  proof -
    obtain leaf where leaf: "descend (root s) ?keys = Some leaf" "ids leaf = home m toks"
      using home winner_Some(1) [OF win] by (cases "descend (root s) ?keys") auto
    from above_threshold_best_match [OF inv leaf(2) sf(2)] win b hit(3) leaf(1) show ?thesis
      by (simp add: add_inner_def pre sm Let_def after_shard_def)
  qed
  moreover have "view \<mu>' = store \<mu>'"
  proof -
    have "clusters_by_id (store \<mu>') = fmupd i (hit_body (tick m0) now (wildcard (options m0)) toks
        (job_member j) (job_event j) b) (clusters_by_id m)"
      using hit(3) apply_match_eq [of b toks now i "job_member j" "job_event j" m0] m0(1)
        index_okD [OF inv, of i] winner_Some(1) [OF win] b
      by (auto simp: after_shard_def home_def placed_def)
    then have "fmrestrict_fset ?live (clusters_by_id (store \<mu>')) = clusters_by_id (store \<mu>')"
      using b by (intro fmap_ext) (auto simp: fmlookup_dom_iff)
    then show ?thesis by (simp add: view_def hit(2))
  qed
  ultimately show ?thesis using start [folded \<mu>0_def] by metis
qed

lemma solo_makes:
  assumes inv: "miner_inv m" and cnt: "counter m \<noteq> - 1"
    and pre: "preprocess ra (options m) (job_line j) = (toks, sfx)"
    and sm: "shard_for (length toks) m = (s, m0)" and win: "winner m toks = None"
  shows "\<exists>r \<mu>. solo now toks sfx j (Ready, \<lparr>store = m, live = fmdom (clusters_by_id m)\<rparr>) (Finished r, \<mu>) \<and>
    add_inner ra now (job_line j) (job_member j) (job_event j) m = Some (r, view \<mu>)"
proof -
  note sf = shard_for_ok [OF miner_invD(2) [OF inv] sm]
  note home = solo_scan(1) [OF inv sm] and found = solo_scan(2) [OF inv sm]
    and start = solo_scan(3) [OF inv sm]
  have m0: "clusters_by_id m0 = clusters_by_id m" "options m0 = options m" "bucket m0 = bucket m"
    using sf(2) by (simp_all add: same_index_def)
  let ?keys = "descent_keys (options m) toks" and ?live = "fmdom (clusters_by_id m)"
  define \<mu>0 where [simp]: "\<mu>0 = after_shard m m0"
  have keys: "length ?keys = min (prefix_len (options m0)) (length toks)" by (simp add: m0)
  obtain node leaf where node:
    "descend_or_create (root s) ?keys (max_clusters_per_leaf (options m)) = Some node"
    "descend node ?keys = Some leaf" "ids leaf = home m toks"
    "same_index m0 (m0\<lparr>shards := fmupd (length toks) \<lparr>root = node\<rparr> (shards m0)\<rparr>)"
    "\<And>b. descend (write_leaf node ?keys b) = (descend (root s))(?keys := Some b)"
    using grow_leaf [OF sf(1) sf(3) keys] m0 by (metis home_def)
  define m1 where "m1 = m0\<lparr>shards := fmupd (length toks) \<lparr>root = node\<rparr> (shards m0)\<rparr>"
  define \<mu>1 where "\<mu>1 = \<lparr>store = m1, live = ?live\<rparr>"
  have m1: "options m1 = options m" "clusters_by_id m1 = clusters_by_id m" "counter m1 = counter m"
    using m0 sf(4) by (simp_all add: m1_def)
  have si: "same_index m m1" using sf(2) node(4) by (simp add: m1_def same_index_def)
  have win1: "scan_result \<mu>1 (scan_all \<mu>1 toks (ids leaf) None) = None"
    using scan_finds_winner [OF inv, of \<mu>1 toks] si win node(3) by (simp add: \<mu>1_def)
  obtain r \<mu>' where create: "solo now toks sfx j (New, \<mu>1) (Finished r, \<mu>')"
    "create_cluster now (length toks) node (descent_keys (options m1) toks) leaf toks sfx
      (job_member j) (job_event j) m1 = (r, view \<mu>')"
  proof (rule solo_create)
    show "descend node (descent_keys (options m1) toks) = Some leaf" using node(2) m1(1) by simp
    show "fmlookup (shards m1) (length toks) = Some \<lparr>root = node\<rparr>" by (simp add: m1_def)
    show "descend (write_leaf node (descent_keys (options m1) toks) b)
        (descent_keys (options m1) toks) = Some b" for b
      using node(5) m1(1) by simp
    show "live \<mu>1 = fmdom (clusters_by_id m1)" "store \<mu>1 = m1" using m1 by (simp_all add: \<mu>1_def)
    show "counter m1 + 1 \<notin> set (ids leaf)"
      using fresh_id(2) [OF inv cnt] node(3) m1 by (simp add: home_def)
    show "\<forall>x \<in> set (ids leaf). body_of m1 x \<noteq> None"
      using index_okD [OF inv] node(3) m1 by (auto simp: home_def)
  qed
  have "solo now toks sfx j (Write_scan [] (scan_all \<mu>1 toks (ids leaf) None), \<mu>1) (Finished r, \<mu>')"
    using create(1) by (rule solo_next [rotated 2]) (simp_all add: win1 finished_def)
  from solo_Write_scan [OF this]
  have "solo now toks sfx j (Wait_write, \<mu>0) (Finished r, \<mu>')"
    by (rule solo_next [rotated 2])
      (use sf(3) node(1,2) in \<open>simp_all add: after_shard_def \<mu>1_def m1_def m0 Let_def finished_def\<close>)
  then have "solo now toks sfx j (Read_scan [] (scan_all \<mu>0 toks (home m toks) None), \<mu>0) (Finished r, \<mu>')"
    by (rule solo_next [rotated 2]) (simp_all add: found win finished_def)
  moreover have "add_inner ra now (job_line j) (job_member j) (job_event j) m = Some (r, view \<mu>')"
  proof -
    have none: "above_threshold m' (best_match m' l toks) = None"
      if "ids l = home m toks" "same_index m m'" for m' l
      using above_threshold_best_match [OF inv that] win by simp
    have "descend (root s) ?keys = Some l \<Longrightarrow> above_threshold m0 (best_match m0 l toks) = None" for l
      using none [OF _ sf(2)] home by simp
    with none [OF node(3) si] node(1,2) create(2) m1(1) show ?thesis
      by (simp add: add_inner_def pre sm Let_def m1_def split: option.splits)
  qed
  ultimately show ?thesis using start [folded \<mu>0_def] by metis
qed

section \<open>The refinement\<close>

text \<open>
  C8.  The concurrent model refines to the sequential one: a thread that runs alone finishes with
  the result of the sequential ingest, and leaves the miner that the ingest leaves.
\<close>

theorem solo_is_add_inner:
  assumes inv: "miner_inv m" and cnt: "counter m \<noteq> - 1"
  shows "\<exists>ks r \<mu>. set ks \<subseteq> {(0, now)} \<and>
    run_schedule ra [j] ks (launch m [j]) = Some \<lparr>mem = \<mu>, pcs = [Finished r]\<rparr> \<and>
    add_inner ra now (job_line j) (job_member j) (job_event j) m = Some (r, view \<mu>)"
proof -
  obtain toks sfx where pre: "preprocess ra (options m) (job_line j) = (toks, sfx)"
    by (cases "preprocess ra (options m) (job_line j)")
  obtain s m0 where sm: "shard_for (length toks) m = (s, m0)"
    by (cases "shard_for (length toks) m")
  let ?\<mu> = "\<lparr>store = m, live = fmdom (clusters_by_id m)\<rparr>"
  obtain r \<mu> where run: "solo now toks sfx j (Ready, ?\<mu>) (Finished r, \<mu>)"
    "add_inner ra now (job_line j) (job_member j) (job_event j) m = Some (r, view \<mu>)"
    using solo_finds [OF inv pre sm] solo_makes [OF inv cnt pre sm] by (cases "winner m toks") blast+
  have "launch m [j] = \<lparr>mem = ?\<mu>, pcs = [Ready]\<rparr>"
    by (simp add: launch_def)
  with solo_schedule [of now ra "options m" j Ready ?\<mu> "Finished r" \<mu>] run pre
  show ?thesis by (auto simp: job_toks_def job_suffix_def)
qed

end
