(* ===== verification/Concurrent_Races.thy ===== *)
theory Concurrent_Races
  imports Concurrent_Solo
begin

text \<open>
  Concrete interleavings: the witnesses of the properties of concurrent ingest, and an outcome that
  no order of the same calls has.
\<close>

section \<open>Evaluating a schedule\<close>

text \<open>A run with the token vectors of the jobs computed beforehand.\<close>

fun run_toks ::
    "token list list \<Rightarrow> rstr option list \<Rightarrow> job list \<Rightarrow> (nat \<times> systime) list \<Rightarrow> 're cstate \<Rightarrow>
     're cstate option" where
  "run_toks tt ss jobs [] st = Some st"
| "run_toks tt ss jobs ((k, now) # ks) st =
     (if k < length (pcs st) \<and>
         unblocked (length (tt ! k)) (map (\<lambda>l. (length (tt ! l), pcs st ! l)) [0..<length (pcs st)]) (pcs st ! k)
      then (case pc_next now (tt ! k) (ss ! k) (jobs ! k) (pcs st ! k) (mem st) of
              None \<Rightarrow> None
            | Some (p, mem') \<Rightarrow> run_toks tt ss jobs ks (st\<lparr>mem := mem', pcs := (pcs st)[k := p]\<rparr>))
      else None)"

lemma run_schedule_toks:
  assumes "map (job_toks ra opt) jobs = tt" "map (job_suffix ra opt) jobs = ss"
    "options (store (mem st)) = opt" "length (pcs st) = length jobs"
  shows "run_schedule ra jobs ks st = run_toks tt ss jobs ks st"
  using assms(3,4)
proof (induction ks arbitrary: st)
  case (Cons s ks)
  obtain k now where s: "s = (k, now)" by (cases s)
  have t: "toks_at ra jobs st l = tt ! l" "suffix_at ra jobs st l = ss ! l" if "l < length jobs" for l
    using that assms(1,2) Cons.prems(1) by (auto simp: toks_at_def suffix_at_def)
  have m: "map (\<lambda>l. (length (toks_at ra jobs st l), pcs st ! l)) [0..<length (pcs st)] =
      map (\<lambda>l. (length (tt ! l), pcs st ! l)) [0..<length (pcs st)]"
    using t Cons.prems(2) by simp
  show ?case
  proof (cases "k < length (pcs st)")
    case True
    then have k: "k < length jobs" using Cons.prems(2) by simp
    have ih: "run_schedule ra jobs ks (st\<lparr>mem := \<mu>, pcs := (pcs st)[k := p]\<rparr>) =
        run_toks tt ss jobs ks (st\<lparr>mem := \<mu>, pcs := (pcs st)[k := p]\<rparr>)"
      if "pc_next now (tt ! k) (ss ! k) (jobs ! k) (pcs st ! k) (mem st) = Some (p, \<mu>)" for p \<mu>
      using Cons.IH [of "st\<lparr>mem := \<mu>, pcs := (pcs st)[k := p]\<rparr>"] options_step [OF that] Cons.prems by simp
    from True ih show ?thesis
      by (simp add: s can_step_def thread_step_def m t [OF k] split: option.splits)
  qed (simp add: s can_step_def)
qed simp

definition plain_job :: "string \<Rightarrow> job" where
  "plain_job s = \<lparr>job_line = str s, job_member = None, job_event = None\<rparr>"

definition flat_options :: "nat \<Rightarrow> unit options" where
  "flat_options c = default_options\<lparr>depth := 2, max_clusters_per_leaf := c, sim_threshold := Fin 1\<rparr>"

lemma valid_flat_options: "0 < c \<Longrightarrow> valid_options (flat_options c)"
  using valid_default_options by (auto simp: valid_options_def flat_options_def)

lemma flat_tokens:
  "job_toks no_match (flat_options c) (plain_job ''a'') = [plain_token [97]]"
  "job_toks no_match (flat_options c) (plain_job ''c'') = [plain_token [99]]"
  "job_toks no_match (flat_options c) (plain_job ''e'') = [plain_token [101]]"
  "job_suffix no_match (flat_options c) (plain_job s) = None"
  by (simp_all add: job_toks_def job_suffix_def preprocess_def plain_job_def flat_options_def
      default_options_def apply_masks_def tokenize_with_def push_path_tokens_def split_whitespace_def
      is_whitespace_def plain_token_def active_path_delimiters_def Let_def)

section \<open>A hit that meets an eviction\<close>

text \<open>A miner with a full leaf: the cluster 1 of the line a, then the cluster 2 of the line c.\<close>

definition one_cluster :: "unit miner" where
  "one_cluster = snd (the (add no_match 0 (str ''a'') (from_options (flat_options 2))))"

definition two_clusters :: "unit miner" where
  "two_clusters = snd (the (add no_match 0 (str ''c'') one_cluster))"

lemma after_add:
  assumes "miner_inv m" "counter m \<noteq> - 1"
  shows "miner_inv (snd (the (add ra now line m))) \<and> options (snd (the (add ra now line m))) = options m"
  by (rule add_inner_inv [OF assms, of ra now line None None]) (simp add: add_def)

lemma cluster_counters: "counter one_cluster = 1" "counter two_clusters = 2"
  by code_simp+

lemma one_cluster_ok: "miner_inv one_cluster" "options one_cluster = flat_options 2"
  using after_add [OF miner_inv_from_options [OF valid_flat_options], of 2]
  by (simp_all add: one_cluster_def from_options_def)

lemma two_clusters_ok: "miner_inv two_clusters" "options two_clusters = flat_options 2"
  using after_add [OF one_cluster_ok(1)] by (simp_all add: cluster_counters one_cluster_ok two_clusters_def)

definition race_jobs :: "job list" where
  "race_jobs = [plain_job ''a'', plain_job ''e'']"

text \<open>The first thread finds its cluster, the second runs, and the first goes on.\<close>

definition race_schedule :: "(nat \<times> systime) list" where
  "race_schedule = map (\<lambda>k. (k, 0)) (replicate 5 0 @ replicate 16 1 @ replicate 5 0)"

definition race_run :: "unit cstate option" where
  "race_run = run_schedule no_match race_jobs race_schedule (launch two_clusters race_jobs)"

definition summary :: "unit cstate \<Rightarrow> pc list \<times> bool list \<times> u64 option list" where
  "summary st = (pcs st, map (\<lambda>i. i |\<in>| live (mem st)) [1, 2, 3],
     map (\<lambda>i. map_option hits (heap (mem st) i)) [1, 2, 3])"

lemma race_run_toks:
  "race_run = run_toks [[plain_token [97]], [plain_token [101]]] [None, None] race_jobs race_schedule
     (launch two_clusters race_jobs)"
  unfolding race_run_def
  by (rule run_schedule_toks [of _ "flat_options 2"])
    (simp_all add: race_jobs_def flat_tokens launch_def two_clusters_ok)

lemma race_summary:
  "map_option summary race_run =
     Some ([Finished \<lparr>cluster_id = 1, update = Unchanged\<rparr>, Finished \<lparr>cluster_id = 3, update = Created\<rparr>],
      [False, True, True], [Some 2, Some 1, Some 1])"
  unfolding race_run_toks by code_simp

definition race_state :: "unit cstate" where
  "race_state = the race_run"

lemma race_state:
  "run_schedule no_match race_jobs race_schedule (launch two_clusters race_jobs) = Some race_state"
  "pcs race_state =
     [Finished \<lparr>cluster_id = 1, update = Unchanged\<rparr>, Finished \<lparr>cluster_id = 3, update = Created\<rparr>]"
  "1 |\<notin>| live (mem race_state)" "2 |\<in>| live (mem race_state)" "3 |\<in>| live (mem race_state)"
  "map_option hits (heap (mem race_state) 1) = Some 2"
  using race_summary by (cases race_run; simp add: race_state_def race_run_def summary_def)+

lemma race_reachable: "reachable no_match race_jobs (launch two_clusters race_jobs) race_state"
  by (rule run_schedule_reachable [OF reachable.start race_state(1)])

lemma race_room: "unat (counter two_clusters) + length race_jobs < 2 ^ 64"
  by (simp add: cluster_counters race_jobs_def)

text \<open>Both orders of the two ingests, one after the other.\<close>

definition in_order :: "string \<Rightarrow> string \<Rightarrow> (add_result \<times> add_result \<times> bool list) option" where
  "in_order x y =
     (case add no_match 0 (str x) two_clusters of
        None \<Rightarrow> None
      | Some (r, m) \<Rightarrow>
          (case add no_match 0 (str y) m of
             None \<Rightarrow> None
           | Some (r', m') \<Rightarrow> Some (r, r', map (\<lambda>i. body_of m' i \<noteq> None) [1, 2, 3, 4])))"

lemma in_order_eval:
  "in_order ''a'' ''e'' = Some (\<lparr>cluster_id = 1, update = Unchanged\<rparr>,
     \<lparr>cluster_id = 3, update = Created\<rparr>, [True, False, True, False])"
  "in_order ''e'' ''a'' = Some (\<lparr>cluster_id = 3, update = Created\<rparr>,
     \<lparr>cluster_id = 4, update = Created\<rparr>, [False, False, True, True])"
  by code_simp+

section \<open>A cluster created again\<close>

definition again_jobs :: "job list" where
  "again_jobs = [plain_job ''a'', plain_job ''c'', plain_job ''a'']"

definition again_run :: "unit cstate option" where
  "again_run = run_schedule no_match again_jobs
     (map (\<lambda>k. (k, 0)) (replicate 9 0 @ replicate 13 1 @ replicate 13 2))
     (launch (from_options (flat_options 1)) again_jobs)"

lemma again_run_toks:
  "again_run = run_toks [[plain_token [97]], [plain_token [99]], [plain_token [97]]] [None, None, None]
     again_jobs (map (\<lambda>k. (k, 0)) (replicate 9 0 @ replicate 13 1 @ replicate 13 2))
     (launch (from_options (flat_options 1)) again_jobs)"
  unfolding again_run_def
  by (rule run_schedule_toks [of _ "flat_options 1"])
    (simp_all add: again_jobs_def flat_tokens launch_def from_options_def)

lemma again_summary:
  "map_option (\<lambda>st. pcs st) again_run =
     Some [Finished \<lparr>cluster_id = 1, update = Created\<rparr>, Finished \<lparr>cluster_id = 2, update = Created\<rparr>,
       Finished \<lparr>cluster_id = 3, update = Created\<rparr>]"
  unfolding again_run_toks by code_simp

definition again_state :: "unit cstate" where
  "again_state = the again_run"

lemma again_state:
  "reachable no_match again_jobs (launch (from_options (flat_options 1)) again_jobs) again_state"
  "pcs again_state = [Finished \<lparr>cluster_id = 1, update = Created\<rparr>,
     Finished \<lparr>cluster_id = 2, update = Created\<rparr>, Finished \<lparr>cluster_id = 3, update = Created\<rparr>]"
proof -
  obtain st where st: "again_run = Some st"
    using again_summary by (cases again_run) auto
  then show "reachable no_match again_jobs (launch (from_options (flat_options 1)) again_jobs) again_state"
    using run_schedule_reachable [OF reachable.start] by (simp add: again_state_def again_run_def)
  show "pcs again_state = [Finished \<lparr>cluster_id = 1, update = Created\<rparr>,
     Finished \<lparr>cluster_id = 2, update = Created\<rparr>, Finished \<lparr>cluster_id = 3, update = Created\<rparr>]"
    using again_summary unfolding again_state_def st by simp
qed

section \<open>Witnesses\<close>

theorem concurrent_safe_witness: "miner_inv (view (mem race_state))"
proof -
  have "pending_ids (pcs race_state) = {}"
    by (simp add: pending_ids_set race_state(2))
  with concurrent_safe [OF two_clusters_ok(1) race_room race_reachable] show ?thesis by simp
qed

theorem concurrent_terminates_witness:
  "length race_schedule \<le> 2 * (13 + 3 * 2) \<and> list_all finished (pcs race_state)"
  using concurrent_terminates [OF two_clusters_ok(1) race_room race_state(1)]
  by (simp add: race_jobs_def two_clusters_ok(2) flat_options_def race_state(2) finished_def)


theorem concurrent_result_covers_witness:
  "covers (store (mem race_state)) (toks_at no_match race_jobs race_state 0) 1"
  using concurrent_result_covers [OF two_clusters_ok(1) race_room race_reachable,
      of 0 "\<lparr>cluster_id = 1, update = Unchanged\<rparr>"]
  by (simp add: race_jobs_def race_state(2))

theorem concurrent_counts_witness:
  "(case heap (mem race_state) 3 of None \<Rightarrow> 0 | Some b \<Rightarrow> hits b) =
    (case body_of two_clusters 3 of None \<Rightarrow> 0 | Some b \<Rightarrow> hits b) + 1"
  using concurrent_counts [OF two_clusters_ok(1) race_room race_reachable,
      of "[\<lparr>cluster_id = 1, update = Unchanged\<rparr>, \<lparr>cluster_id = 3, update = Created\<rparr>]" 3]
  by (simp add: race_state(2))

theorem concurrent_no_duplicates_witness:
  "\<not> ((1 :: u64) |\<in>| live (mem again_state) \<and> 3 |\<in>| live (mem again_state))"
proof -
  have room: "unat (counter (from_options (flat_options 1))) + length again_jobs < 2 ^ 64"
    by (simp add: from_options_def again_jobs_def)
  have "toks_at no_match again_jobs again_state 0 = toks_at no_match again_jobs again_state 2"
    by (simp add: toks_at_def again_jobs_def)
  then show ?thesis
    using concurrent_no_duplicates [OF miner_inv_from_options room again_state(1), of 0 2 1 3]
      valid_flat_options [of 1]
    by (simp add: again_state(2) again_jobs_def)
qed

theorem solo_is_add_inner_witness:
  "\<exists>ks r \<mu>. run_schedule no_match [plain_job ''e''] ks (launch two_clusters [plain_job ''e'']) =
      Some \<lparr>mem = \<mu>, pcs = [Finished r]\<rparr> \<and>
    add_inner no_match 0 (str ''e'') None None two_clusters = Some (r, view \<mu>)"
  using solo_is_add_inner [OF two_clusters_ok(1), of 0 no_match "plain_job ''e''"]
  by (simp add: cluster_counters plain_job_def) blast

section \<open>Properties\<close>


end
