(* ===== verification/Restore_Any.thy ===== *)
theory Restore_Any
  imports Restore
begin

text \<open>
  Restoring a snapshot that need not fit the miner: the leaves may overflow, because the snapshot
  was taken under other options or while lines were being ingested.  Such a restore evicts, but
  keeps the miner's invariant.
\<close>

section \<open>Replaying a list of bodies into leaves that may be full\<close>

text \<open>A list of bodies that a snapshot may hold.\<close>

definition bodies_fit :: "u64 \<Rightarrow> cluster_inner list \<Rightarrow> bool" where
  "bodies_fit c bs \<longleftrightarrow> distinct (map body_id bs) \<and>
     list_all (\<lambda>b. 0 < body_id b \<and> body_id b \<le> c \<and> distinct (members b)) bs"

lemma bodies_fit_simps [simp]:
  "bodies_fit c []"
  "bodies_fit c (b # bs) \<longleftrightarrow> 0 < body_id b \<and> body_id b \<le> c \<and> distinct (members b) \<and>
     body_id b \<notin> body_id ` set bs \<and> bodies_fit c bs"
  by (auto simp: bodies_fit_def)

lemma admit_state_bucket:
  assumes "miner_inv m" "admit_state b m m'"
  shows "length (bucket m' n ks) =
    min (max_clusters_per_leaf (options m))
      (length (bucket m n ks) + of_bool (placed (options m) n ks b))"
proof (cases "placed (options m) n ks b")
  case True
  note shape = miner_invD(2) [OF assms(1)]
  let ?c = "max_clusters_per_leaf (options m)" and ?h = "home m (tokens b)"
  have pos: "0 < ?c" using miner_invD(1) [OF assms(1)] by (simp add: valid_options_def)
  have h: "bucket m n ks = ?h" "length ?h \<le> ?c" "distinct ?h"
    using True bucket_leaf_ok [OF shape] by (auto simp: home_def placed_def)
  have "length (kept m (tokens b)) = (if ?c \<le> length ?h then length ?h - 1 else length ?h)"
  proof (cases "lru m (tokens b)")
    case None
    then have "\<not> ?c \<le> length ?h" using pos by (auto simp: lru_def split: if_splits)
    with None show ?thesis by (simp add: kept_def)
  next
    case (Some v)
    then have "?c \<le> length ?h" by (auto simp: lru_def split: if_splits)
    with Some leaf_remove_length [of v "\<lparr>cap = ?c, ids = ?h\<rparr>"] lru_in_home [OF Some] show ?thesis
      by (simp add: kept_def)
  qed
  with assms(2) True h pos show ?thesis
    by (auto simp: admit_state_def placed_def)
next
  case False
  then show ?thesis
    using assms(2) bucket_leaf_ok(2) [OF miner_invD(2) [OF assms(1)], of n ks]
    by (auto simp: admit_state_def placed_def)
qed

lemma restore_loop_fits:
  assumes "miner_inv m" "bodies_fit (counter m) bs" "map cluster_of_wire css = bs"
    "\<forall>b \<in> set bs. body_of m (body_id b) = None"
  shows "\<exists>m'. restore_loop css m = Some m' \<and> miner_inv m' \<and> options m' = options m \<and>
    counter m' = counter m \<and> tick m' = tick m \<and>
    (\<forall>i b. body_of m' i = Some b \<longrightarrow> body_of m i = Some b \<or> b \<in> set bs) \<and>
    (\<forall>n ks. length (bucket m' n ks) = min (max_clusters_per_leaf (options m))
      (length (bucket m n ks) + length (filter (placed (options m) n ks) bs)))"
  using assms
proof (induction css arbitrary: m bs)
  case Nil
  then show ?case
    using bucket_leaf_ok(2) [OF miner_invD(2) [OF Nil(1)]] by (auto simp: min_absorb2)
next
  case (Cons cs css)
  then obtain b bs' where bs: "bs = b # bs'" "cluster_of_wire cs = b" "map cluster_of_wire css = bs'"
    by auto
  obtain m1 where m1: "insert_existing b m = Some m1" "admit_state b m m1"
    "counter m1 = counter m" "tick m1 = tick m"
    using insert_existing_admits [OF Cons.prems(1), of b] Cons.prems(4) bs(1) by auto
  have opt: "options m1 = options m" using m1(2) by (simp add: admit_state_def)
  have inv1: "miner_inv m1"
    using admit_state_inv [OF Cons.prems(1) _ m1(2)] Cons.prems(2,4) bs(1) m1(3) by simp
  have old: "body_of m1 i = Some x \<Longrightarrow> body_of m i = Some x \<or> i = body_id b \<and> x = b" for i x
    using m1(2) by (auto simp: admit_state_def split: if_splits)
  have "\<forall>c \<in> set bs'. body_of m1 (body_id c) = None"
    using Cons.prems(2,4) bs(1) old by (metis bodies_fit_simps(2) image_eqI insert_iff list.simps(15)
        not_None_eq)
  with Cons.IH [OF inv1 _ bs(3)] Cons.prems(2) bs(1) m1(3) obtain m' where m':
    "restore_loop css m1 = Some m'" "miner_inv m'" "options m' = options m1"
    "counter m' = counter m1" "tick m' = tick m1"
    "\<forall>i x. body_of m' i = Some x \<longrightarrow> body_of m1 i = Some x \<or> x \<in> set bs'"
    "\<forall>n ks. length (bucket m' n ks) = min (max_clusters_per_leaf (options m1))
      (length (bucket m1 n ks) + length (filter (placed (options m1) n ks) bs'))"
    by auto
  have "length (bucket m' n ks) = min (max_clusters_per_leaf (options m))
      (length (bucket m n ks) + length (filter (placed (options m) n ks) bs))" for n ks
    using m'(7) admit_state_bucket [OF Cons.prems(1) m1(2), of n ks] by (auto simp: opt bs(1))
  with m' m1 bs opt old show ?case by fastforce
qed

text \<open>What a miner snapshots fits.\<close>

lemma snapshot_fits:
  assumes "miner_inv m" "distinct order" "set order = fmdom' (clusters_by_id m)"
  shows "bodies_fit (sn_counter (snapshot_body order m))
    (map cluster_of_wire (sn_clusters (snapshot_body order m)))"
proof -
  have "map cluster_of_wire (sn_clusters (snapshot_body order m)) = bodies_in order m"
    using snapshot_clusters [of order m] assms(3) by simp
  moreover have "sn_counter (snapshot_body order m) = counter m"
    by (simp add: snapshot_body_def)
  ultimately show ?thesis
    using bodies_in_facts(1,2) [OF assms] assms(2) by (simp add: bodies_fit_def list_all_iff)
qed

lemma restore_fits:
  assumes "valid_options (options m)" "decode de3 de2 bytes = Inr (body\<lparr>sn_options := o'\<rparr>)"
    "bodies_fit (sn_counter body) (map cluster_of_wire (sn_clusters body))"
  shows "\<exists>m'. restore de3 de2 bytes m = Some (Inr (), m') \<and> miner_inv m' \<and>
    options m' = options m \<and> counter m' = sn_counter body \<and>
    fmran' (clusters_by_id m') \<subseteq> set (map cluster_of_wire (sn_clusters body)) \<and>
    (\<forall>n ks. length (bucket m' n ks) = min (max_clusters_per_leaf (options m))
      (length (filter (placed (options m) n ks) (map cluster_of_wire (sn_clusters body)))))"
proof -
  let ?bs = "map cluster_of_wire (sn_clusters body)"
  define m0 where "m0 = m\<lparr>shards := fmempty, clusters_by_id := fmempty, counter := sn_counter body\<rparr>"
  have inv: "miner_inv m0" and empty: "bucket m0 = (\<lambda>n ks. [])"
    using assms(1)
    by (auto simp: miner_inv_def shape_ok_def index_ok_def bodies_ok_def bucket_def m0_def fun_eq_iff)
  have c0: "counter m0 = sn_counter body" "clusters_by_id m0 = fmempty"
    by (simp_all add: m0_def)
  have "bodies_fit (counter m0) ?bs" using assms(3) c0(1) by simp
  from restore_loop_fits [OF inv this refl] obtain m' where
    "restore_loop (sn_clusters body) m0 = Some m'" "miner_inv m'" "options m' = options m0"
    "counter m' = counter m0" "\<forall>i b. body_of m' i = Some b \<longrightarrow> b \<in> set ?bs"
    "\<forall>n ks. length (bucket m' n ks) = min (max_clusters_per_leaf (options m0))
      (length (filter (placed (options m0) n ks) ?bs))"
    by (auto simp: c0(2) empty)
  then show ?thesis
    using assms(2) by (auto simp: restore_def m0_def fmlookup_ran'_iff)
qed

section \<open>Properties\<close>

text \<open>
  C23.  A restore keeps the invariant whatever the miner's options.  A snapshot whose clusters have
  distinct ids up to its counter, taken under any options, restores into a miner with any valid
  options: it never panics, the miner satisfies its invariant with the snapshot's counter, so no
  later ingest can reuse an id; its clusters are clusters of the snapshot; and of the clusters
  that share a leaf under the new options exactly those beyond its capacity are evicted.
\<close>

theorem restore_any_options:
  assumes "valid_options (options m)" "decode de3 de2 bytes = Inr body"
    "bodies_fit (sn_counter body) (map cluster_of_wire (sn_clusters body))"
  shows "\<exists>m'. restore de3 de2 bytes m = Some (Inr (), m') \<and> miner_inv m' \<and>
    options m' = options m \<and> counter m' = sn_counter body \<and>
    fmran' (clusters_by_id m') \<subseteq> set (map cluster_of_wire (sn_clusters body)) \<and>
    (\<forall>n ks. length (bucket m' n ks) = min (max_clusters_per_leaf (options m))
      (length (filter (placed (options m) n ks) (map cluster_of_wire (sn_clusters body)))))"
  using restore_fits [OF assms(1) _ assms(3), of de3 de2 bytes "sn_options body"] assms(2) by simp

theorem restore_any_options_witness:
  "\<exists>m'. restore (\<lambda>_. Inr (snapshot_body [2, 1] tie_miner)) (\<lambda>_. Inl [])
      (snapshot (\<lambda>_. [0]) [2, 1] tie_miner)
      (from_options (tie_options\<lparr>max_clusters_per_leaf := 1\<rparr>)) = Some (Inr (), m') \<and>
    miner_inv m' \<and> length (bucket m' 2 []) \<le> 1"
proof -
  let ?m = "from_options (tie_options\<lparr>max_clusters_per_leaf := 1\<rparr>)"
  have "valid_options (options ?m)"
    using valid_tie_options by (simp add: valid_options_def)
  moreover have "decode (\<lambda>_. Inr (snapshot_body [2, 1] tie_miner)) (\<lambda>_. Inl [])
      (snapshot (\<lambda>_. [0]) [2, 1] tie_miner) = Inr (snapshot_body [2, 1] tie_miner)"
    by (simp add: snapshot_def encode_def decode_header)
  moreover have "bodies_fit (sn_counter (snapshot_body [2, 1] tie_miner))
      (map cluster_of_wire (sn_clusters (snapshot_body [2, 1] tie_miner)))"
    using snapshot_fits [OF tie_miner_ok(1), of "[2, 1]"] tie_miner_clusters by auto
  ultimately obtain m' where "restore (\<lambda>_. Inr (snapshot_body [2, 1] tie_miner)) (\<lambda>_. Inl [])
      (snapshot (\<lambda>_. [0]) [2, 1] tie_miner) ?m = Some (Inr (), m')" "miner_inv m'"
    "length (bucket m' 2 []) = min (max_clusters_per_leaf (options ?m))
      (length (filter (placed (options ?m) 2 [])
        (map cluster_of_wire (sn_clusters (snapshot_body [2, 1] tie_miner)))))"
    using restore_any_options [of ?m "\<lambda>_. Inr (snapshot_body [2, 1] tie_miner)" "\<lambda>_. Inl []"
        "snapshot (\<lambda>_. [0]) [2, 1] tie_miner" "snapshot_body [2, 1] tie_miner"] by blast
  then show ?thesis by auto
qed

end
