(* ===== verification/Concurrent_Snapshot.thy ===== *)
theory Concurrent_Snapshot
  imports Concurrent_Props Restore_Any
begin

text \<open>
  A snapshot taken while threads ingest.  \<^verbatim>\<open>Miner::snapshot\<close> iterates over the id
  map, holds the read lock of one body at a time while it copies it, loads the atomic fields one by
  one, and loads the id counter when the iteration is over.  The iteration is only known to meet an
  entry at most once and while it is in the map, so the model lets it meet any live id next and
  stop at any time; the iterations of the library are among these.
\<close>

section \<open>The steps of a snapshot\<close>

datatype body_field = Size | Updated | Event_first | Event_last

fun load_field :: "body_field \<Rightarrow> cluster_inner \<Rightarrow> cluster_inner \<Rightarrow> cluster_inner" where
  "load_field Size cur b = b\<lparr>hits := hits cur\<rparr>"
| "load_field Updated cur b = b\<lparr>updated_at_ms := updated_at_ms cur\<rparr>"
| "load_field Event_first cur b = b\<lparr>event_first_ms := event_first_ms cur\<rparr>"
| "load_field Event_last cur b = b\<lparr>event_last_ms := event_last_ms cur\<rparr>"

text \<open>
  Behind the clusters copied so far, the body being copied (the fields that its lock protects as
  they were when it was taken) with the atomic fields still to load.
\<close>

datatype 're snap_pc =
    Gathering "cluster_snapshot list"
  | Reading u64 cluster_inner "body_field list" "cluster_snapshot list"
  | Taken "'re snapshot_v1"

fun snap_reads :: "u64 \<Rightarrow> 're snap_pc \<Rightarrow> bool" where
  "snap_reads i (Reading k b fs acc) = (k = i)"
| "snap_reads i _ = False"

text \<open>
  The next step; the choice is the entry that the iteration meets, or its end.  \<open>None\<close>: there is
  no such step.
\<close>

fun snap_next :: "u64 option \<Rightarrow> 're memory \<Rightarrow> 're snap_pc \<Rightarrow> 're snap_pc option" where
  "snap_next (Some i) \<mu> (Gathering acc) =
     (if i |\<in>| live \<mu> \<and> i \<notin> cs_id ` set acc
      then map_option (\<lambda>b. Reading i b [Size, Updated, Event_first, Event_last] acc) (heap \<mu> i)
      else None)"
| "snap_next None \<mu> (Gathering acc) =
     Some (Taken \<lparr>sn_options = options (store \<mu>), sn_counter = counter (store \<mu>),
       sn_clusters = acc\<rparr>)"
| "snap_next None \<mu> (Reading i b (f # fs) acc) =
     map_option (\<lambda>cur. Reading i (load_field f cur b) fs acc) (heap \<mu> i)"
| "snap_next None \<mu> (Reading i b [] acc) = Some (Gathering (acc @ [cluster_to_wire b]))"
| "snap_next _ _ _ = None"

text \<open>
  Ingesting threads and the snapshot take turns; a thread that wants to change a body's template
  or members waits for the snapshot that reads it.
\<close>

inductive snap_cstep ::
    "('re \<Rightarrow> rstr \<Rightarrow> rstr \<Rightarrow> cow) \<Rightarrow> job list \<Rightarrow> 're cstate \<times> 're snap_pc \<Rightarrow>
     're cstate \<times> 're snap_pc \<Rightarrow> bool"
  for ra jobs where
  ingest: "can_step ra jobs st k \<Longrightarrow> (\<nexists>i needs. pcs st ! k = Change i needs \<and> snap_reads i sp) \<Longrightarrow>
     thread_step ra jobs k now st = Some st' \<Longrightarrow> snap_cstep ra jobs (st, sp) (st', sp)"
| collect: "snap_next choice (mem st) sp = Some sp' \<Longrightarrow> snap_cstep ra jobs (st, sp) (st, sp')"

definition snap_reachable ::
    "('re \<Rightarrow> rstr \<Rightarrow> rstr \<Rightarrow> cow) \<Rightarrow> job list \<Rightarrow> 're cstate \<times> 're snap_pc \<Rightarrow>
     're cstate \<times> 're snap_pc \<Rightarrow> bool" where
  "snap_reachable ra jobs = (snap_cstep ra jobs)\<^sup>*\<^sup>*"

section \<open>A snapshot alone is the sequential one\<close>

lemma snap_reads_body:
  assumes "heap (mem st) i = Some b"
  shows "snap_reachable ra jobs (st, Reading i b [Size, Updated, Event_first, Event_last] acc)
    (st, Gathering (acc @ [cluster_to_wire b]))"
proof -
  have load: "load_field f b b = b" for f by (cases f) simp_all
  have step: "snap_cstep ra jobs (st, Reading i b (f # fs) acc) (st, Reading i b fs acc)"
    for f fs
    by (rule snap_cstep.collect [of None]) (simp add: assms load)
  have "snap_cstep ra jobs (st, Reading i b [] acc) (st, Gathering (acc @ [cluster_to_wire b]))"
    by (rule snap_cstep.collect [of None]) simp
  with step show ?thesis
    unfolding snap_reachable_def by (meson converse_rtranclp_into_rtranclp rtranclp.rtrancl_refl)
qed

lemma snap_gathers:
  assumes "set order \<subseteq> fset (live (mem st))" "distinct order" "cs_id ` set acc \<inter> set order = {}"
    "\<And>i. i |\<in>| live (mem st) \<Longrightarrow> \<exists>b. heap (mem st) i = Some b \<and> body_id b = i"
  shows "snap_reachable ra jobs (st, Gathering acc) (st, Gathering
    (acc @ List.map_filter (\<lambda>i. map_option cluster_to_wire (heap (mem st) i)) order))"
  using assms(1-3)
proof (induction order arbitrary: acc)
  case Nil
  then show ?case by (simp add: snap_reachable_def List.map_filter_simps)
next
  case (Cons i order)
  obtain b where b: "heap (mem st) i = Some b" "body_id b = i" using assms(4) Cons.prems(1) by auto
  have "snap_cstep ra jobs (st, Gathering acc)
      (st, Reading i b [Size, Updated, Event_first, Event_last] acc)"
    by (rule snap_cstep.collect [of "Some i"]) (use b Cons.prems in auto)
  moreover note snap_reads_body [OF b(1), of ra jobs acc]
  moreover have "snap_reachable ra jobs (st, Gathering (acc @ [cluster_to_wire b])) (st, Gathering
      ((acc @ [cluster_to_wire b]) @
        List.map_filter (\<lambda>i. map_option cluster_to_wire (heap (mem st) i)) order))"
    using Cons.prems b(2) by (intro Cons.IH) (auto simp: cluster_to_wire_def)
  ultimately show ?case
    unfolding snap_reachable_def using b(1)
    by (auto simp: List.map_filter_simps intro: converse_rtranclp_into_rtranclp rtranclp_trans)
qed

lemma snapshot_alone:
  assumes "miner_inv m" "distinct order" "set order = fmdom' (clusters_by_id m)"
  shows "snap_reachable ra jobs (launch m jobs, Gathering [])
    (launch m jobs, Taken (snapshot_body order m))"
proof -
  let ?st = "launch m jobs"
  have live: "live (mem ?st) = fmdom (clusters_by_id m)" "store (mem ?st) = m"
    by (simp_all add: launch_def)
  have "snap_reachable ra jobs (?st, Gathering []) (?st, Gathering
      ([] @ List.map_filter (\<lambda>i. map_option cluster_to_wire (heap (mem ?st) i)) order))"
    using assms bodies_okD [OF assms(1)]
    by (intro snap_gathers) (fastforce simp: live fmdom'_alt_def [symmetric] fmlookup_dom'_iff)+
  moreover have "snap_cstep ra jobs (?st, Gathering (sn_clusters (snapshot_body order m)))
      (?st, Taken (snapshot_body order m))"
    by (rule snap_cstep.collect [of None]) (simp add: snapshot_body_def live)
  ultimately show ?thesis
    by (simp add: snap_reachable_def snapshot_body_def live rtranclp.rtrancl_into_rtrancl)
qed

section \<open>The invariant of a snapshot\<close>

text \<open>A copied cluster belongs to a body of the memory, which has only grown since.\<close>

definition wire_ok :: "'re memory \<Rightarrow> cluster_snapshot \<Rightarrow> bool" where
  "wire_ok \<mu> cs \<longleftrightarrow>
     0 < cs_id cs \<and> cs_id cs \<le> counter (store \<mu>) \<and> distinct (cs_members cs) \<and>
     (\<exists>b. heap \<mu> (cs_id cs) = Some b \<and> grows (options (store \<mu>)) (cluster_of_wire cs) b)"

fun snap_ok :: "'re memory \<Rightarrow> 're snap_pc \<Rightarrow> bool" where
  "snap_ok \<mu> (Gathering acc) = (distinct (map cs_id acc) \<and> list_all (wire_ok \<mu>) acc)"
| "snap_ok \<mu> (Reading i b fs acc) =
     (distinct (map cs_id acc) \<and> list_all (wire_ok \<mu>) acc \<and> i \<notin> cs_id ` set acc \<and>
      body_id b = i \<and> wire_ok \<mu> (cluster_to_wire b))"
| "snap_ok \<mu> (Taken s) =
     (distinct (map cs_id (sn_clusters s)) \<and> list_all (wire_ok \<mu>) (sn_clusters s) \<and>
      list_all (\<lambda>cs. cs_id cs \<le> sn_counter s) (sn_clusters s))"

lemma wire_sel [simp]:
  "cs_id (cluster_to_wire b) = body_id b" "cs_members (cluster_to_wire b) = members b"
  "body_id (cluster_of_wire cs) = cs_id cs" "members (cluster_of_wire cs) = cs_members cs"
  by (simp_all add: cluster_to_wire_def cluster_of_wire_def)

lemma load_field_sel [simp]:
  "body_id (load_field f cur b) = body_id b" "tokens (load_field f cur b) = tokens b"
  "members (load_field f cur b) = members b"
  by (cases f; simp)+

lemma wire_ok_body:
  "wire_ok \<mu> (cluster_to_wire b) \<longleftrightarrow>
     0 < body_id b \<and> body_id b \<le> counter (store \<mu>) \<and> distinct (members b) \<and>
     (\<exists>b'. heap \<mu> (body_id b) = Some b' \<and> grows (options (store \<mu>)) b b')"
  by (simp add: wire_ok_def cluster_wire grows_def)

lemma wire_ok_load [simp]:
  "wire_ok \<mu> (cluster_to_wire (load_field f cur b)) = wire_ok \<mu> (cluster_to_wire b)"
  by (simp add: wire_ok_body grows_def)

lemma wire_ok_evolves:
  assumes "wire_ok \<mu> cs" "evolves w x \<mu> \<mu>'"
  shows "wire_ok \<mu>' cs"
proof -
  from assms(1) obtain b where b: "heap \<mu> (cs_id cs) = Some b"
    "grows (options (store \<mu>)) (cluster_of_wire cs) b" by (auto simp: wire_ok_def)
  from evolvesD(3) [OF assms(2) b(1)] obtain b' where b': "heap \<mu>' (cs_id cs) = Some b'"
    "grows (options (store \<mu>)) b b'" by blast
  from assms(1) evolvesD(2) [OF assms(2)] have "cs_id cs \<le> counter (store \<mu>')"
    by (auto simp: wire_ok_def)
  with assms(1) b' grows_trans [OF b(2) b'(2)] show ?thesis
    by (simp add: wire_ok_def evolvesD(1) [OF assms(2)])
qed

lemma snap_ok_evolves:
  assumes "snap_ok \<mu> sp" "evolves w x \<mu> \<mu>'"
  shows "snap_ok \<mu>' sp"
  using assms(1) wire_ok_evolves [OF _ assms(2)]
  by (cases sp) (auto simp: list_all_iff)

lemma snap_ok_next:
  assumes "bodies_ok (store \<mu>)" "snap_ok \<mu> sp" "snap_next choice \<mu> sp = Some sp'"
  shows "snap_ok \<mu> sp'"
proof (cases sp)
  case (Gathering acc)
  show ?thesis
  proof (cases choice)
    case None
    with Gathering assms(2,3) show ?thesis by (auto simp: list_all_iff wire_ok_def)
  next
    case (Some i)
    with Gathering assms show ?thesis
      by (auto simp: wire_ok_body bodies_ok_def split: if_splits)
  qed
next
  case (Reading i b fs acc)
  with assms(2,3) show ?thesis by (cases choice; cases fs) auto
qed (use assms(3) in auto)

lemma thread_step_evolves:
  assumes "cinv ra jobs st" "k < length (pcs st)" "thread_step ra jobs k now st = Some st'"
  obtains w x where "evolves w x (mem st) (mem st')"
proof -
  obtain p' \<mu>' where "thread_step ra jobs k now st = Some (st\<lparr>mem := \<mu>', pcs := (pcs st)[k := p']\<rparr>)"
    "good_step (toks_at ra jobs st k) (others_pending (pcs st) k) (pcs st ! k) (mem st) p' \<mu>'"
    by (rule thread_step_ok [OF assms(1,2), of now])
  with assms(3) that show ?thesis by (auto simp: good_step_def)
qed

lemma snap_reachable_inv:
  assumes "snap_reachable ra jobs (st0, sp0) (st, sp)" "cinv ra jobs st0" "snap_ok (mem st0) sp0"
  shows "cinv ra jobs st \<and> snap_ok (mem st) sp"
  using assms(1) unfolding snap_reachable_def
proof (induction "(st, sp)" arbitrary: st sp rule: rtranclp_induct)
  case base
  with assms(2,3) show ?case by simp
next
  case (step c)
  obtain st1 sp1 where c: "c = (st1, sp1)" by (cases c)
  with step.hyps(3) have inv: "cinv ra jobs st1" "snap_ok (mem st1) sp1" by simp_all
  from step.hyps(2) [unfolded c] show ?case
  proof (cases rule: snap_cstep.cases)
    case (ingest k now)
    have "k < length (pcs st1)" using ingest(2) by (simp add: can_step_def)
    then obtain w x where "evolves w x (mem st1) (mem st)"
      by (rule thread_step_evolves [OF inv(1) _ ingest(4)])
    with snap_ok_evolves [OF inv(2)] cinv_step [OF inv(1) ingest(2,4)] ingest(1) show ?thesis by simp
  next
    case (collect choice)
    with inv snap_ok_next [of "mem st1"] mem_okD(3) [OF cinvD(2) [OF inv(1)]] show ?thesis by auto
  qed
qed

section \<open>Properties\<close>



end
