(* ===== verification/Concurrent_Query.thy ===== *)
theory Concurrent_Query
  imports Concurrent_Count
begin

text \<open>
  Queries beside concurrent ingest: \<^verbatim>\<open>Miner::match_only\<close> and
  \<^verbatim>\<open>Miner::extract\<close>, cut at their accesses to shared state, and run by any number of
  threads while others ingest.  A query changes nothing.  It takes the read lock of its shard for
  the scan, so it waits for a writer and a writer waits for it; \<^verbatim>\<open>extract\<close> looks the
  cluster up again after that lock is released.
\<close>

section \<open>The steps of a query\<close>

datatype query = Match rstr | Extract rstr

fun query_line :: "query \<Rightarrow> rstr" where
  "query_line (Match line) = line"
| "query_line (Extract line) = line"

definition query_toks :: "('re \<Rightarrow> rstr \<Rightarrow> rstr \<Rightarrow> cow) \<Rightarrow> 're options \<Rightarrow> query \<Rightarrow> token list" where
  "query_toks replace_all opt q =
     tokens_for_query opt (cow_str (apply_masks replace_all (query_line q) (masks opt)))"

datatype query_pc =
    Asked
  | Shard_got
  | Query_scan "u64 list" "(u64 \<times> f64) option"
  | Looked_up u64
  | Body_got u64
  | Matched "u64 option"
  | Extracted "(u64 \<times> rstr list) option"

text \<open>What follows the result of \<^verbatim>\<open>match_only\<close>.\<close>

definition matched_pc :: "query \<Rightarrow> u64 option \<Rightarrow> query_pc" where
  "matched_pc q r =
     (case q of
        Match line \<Rightarrow> Matched r
      | Extract line \<Rightarrow> (case r of None \<Rightarrow> Extracted None | Some i \<Rightarrow> Looked_up i))"

text \<open>The next step of a query; \<open>None\<close> when it has its answer.\<close>

fun query_next :: "token list \<Rightarrow> query \<Rightarrow> query_pc \<Rightarrow> 're memory \<Rightarrow> query_pc option" where
  "query_next toks q Asked \<mu> =
     (case fmlookup (shards (store \<mu>)) (length toks) of
        None \<Rightarrow> Some (matched_pc q None)
      | Some s \<Rightarrow> Some Shard_got)"
| "query_next toks q Shard_got \<mu> =
     (case fmlookup (shards (store \<mu>)) (length toks) of
        None \<Rightarrow> None
      | Some s \<Rightarrow>
          (case descend (root s) (descent_keys (options (store \<mu>)) toks) of
             None \<Rightarrow> Some (matched_pc q None)
           | Some leaf \<Rightarrow> Some (Query_scan (ids leaf) None)))"
| "query_next toks q (Query_scan (i # is) best) \<mu> = Some (Query_scan is (scan_one \<mu> toks i best))"
| "query_next toks q (Query_scan [] best) \<mu> = Some (matched_pc q (scan_result \<mu> best))"
| "query_next toks q (Looked_up i) \<mu> =
     (if i |\<in>| live \<mu> then Some (Body_got i) else Some (Extracted None))"
| "query_next toks q (Body_got i) \<mu> =
     (case heap \<mu> i of
        None \<Rightarrow> None
      | Some b \<Rightarrow> Some (Extracted (Some (i, extract_loop (wildcard (options (store \<mu>))) (tokens b) toks))))"
| "query_next toks q (Matched r) \<mu> = None"
| "query_next toks q (Extracted r) \<mu> = None"

fun query_reads :: "query_pc \<Rightarrow> bool" where
  "query_reads (Query_scan is best) = True"
| "query_reads _ = False"

fun answered :: "query_pc \<Rightarrow> bool" where
  "answered (Matched r) = True"
| "answered (Extracted r) = True"
| "answered _ = False"

section \<open>Interleaving\<close>

definition query_at ::
    "('re \<Rightarrow> rstr \<Rightarrow> rstr \<Rightarrow> cow) \<Rightarrow> query list \<Rightarrow> 're cstate \<Rightarrow> nat \<Rightarrow> token list" where
  "query_at ra queries st l = query_toks ra (options (store (mem st))) (queries ! l)"

text \<open>An ingesting thread that wants the write lock waits for the queries of its shard.\<close>

definition ingest_free ::
    "('re \<Rightarrow> rstr \<Rightarrow> rstr \<Rightarrow> cow) \<Rightarrow> job list \<Rightarrow> query list \<Rightarrow> 're cstate \<Rightarrow> query_pc list \<Rightarrow> nat \<Rightarrow> bool" where
  "ingest_free ra jobs queries st qs k \<longleftrightarrow>
     (pcs st ! k = Wait_write \<longrightarrow>
       list_all (\<lambda>l. query_reads (qs ! l) \<longrightarrow>
          length (query_at ra queries st l) \<noteq> length (toks_at ra jobs st k)) [0..<length qs])"

text \<open>A query that wants the read lock waits for the writer of its shard.\<close>

definition query_free ::
    "('re \<Rightarrow> rstr \<Rightarrow> rstr \<Rightarrow> cow) \<Rightarrow> job list \<Rightarrow> query list \<Rightarrow> 're cstate \<Rightarrow> query_pc list \<Rightarrow> nat \<Rightarrow> bool" where
  "query_free ra jobs queries st qs l \<longleftrightarrow>
     (qs ! l = Shard_got \<longrightarrow>
       list_all (\<lambda>k. holds_write (pcs st ! k) \<longrightarrow>
          length (toks_at ra jobs st k) \<noteq> length (query_at ra queries st l)) [0..<length (pcs st)])"

text \<open>A step is one of a thread, with its clock, or one of a query.\<close>

fun mixed_next ::
    "('re \<Rightarrow> rstr \<Rightarrow> rstr \<Rightarrow> cow) \<Rightarrow> job list \<Rightarrow> query list \<Rightarrow> nat \<times> systime + nat \<Rightarrow>
     're cstate \<times> query_pc list \<Rightarrow> ('re cstate \<times> query_pc list) option" where
  "mixed_next ra jobs queries (Inl (k, now)) (st, qs) =
     (if can_step ra jobs st k \<and> ingest_free ra jobs queries st qs k
      then map_option (\<lambda>st'. (st', qs)) (thread_step ra jobs k now st) else None)"
| "mixed_next ra jobs queries (Inr l) (st, qs) =
     (if l < length qs \<and> query_free ra jobs queries st qs l
      then map_option (\<lambda>q. (st, qs[l := q])) (query_next (query_at ra queries st l) (queries ! l) (qs ! l) (mem st))
      else None)"

fun run_mixed ::
    "('re \<Rightarrow> rstr \<Rightarrow> rstr \<Rightarrow> cow) \<Rightarrow> job list \<Rightarrow> query list \<Rightarrow> (nat \<times> systime + nat) list \<Rightarrow>
     're cstate \<times> query_pc list \<Rightarrow> ('re cstate \<times> query_pc list) option" where
  "run_mixed ra jobs queries [] c = Some c"
| "run_mixed ra jobs queries (s # ss) c =
     (case mixed_next ra jobs queries s c of
        None \<Rightarrow> None
      | Some c' \<Rightarrow> run_mixed ra jobs queries ss c')"

definition launch_mixed :: "'re miner \<Rightarrow> job list \<Rightarrow> query list \<Rightarrow> 're cstate \<times> query_pc list" where
  "launch_mixed m jobs queries = (launch m jobs, replicate (length queries) Asked)"

section \<open>Scores only rise\<close>

lemma count_matches_mono:
  assumes "length ts = length us"
    "\<And>k. k < length ts \<Longrightarrow> k < length toks \<Longrightarrow> tok_text (ts ! k) = w \<or> tok_text (ts ! k) = tok_text (toks ! k) \<Longrightarrow>
       tok_text (us ! k) = w \<or> tok_text (us ! k) = tok_text (toks ! k)"
  shows "count_matches ts toks w \<le> count_matches us toks w"
  using assms
proof (induction ts us arbitrary: toks rule: list_induct2)
  case (Cons t ts u us)
  show ?case
  proof (cases toks)
    case toks: (Cons tok rest)
    have "count_matches ts rest w \<le> count_matches us rest w"
    proof (rule Cons.IH)
      fix k
      assume "k < length ts" "k < length rest"
        "tok_text (ts ! k) = w \<or> tok_text (ts ! k) = tok_text (rest ! k)"
      with Cons.prems [of "Suc k"] show "tok_text (us ! k) = w \<or> tok_text (us ! k) = tok_text (rest ! k)"
        by (simp add: toks)
    qed
    with Cons.prems [of 0] show ?thesis by (auto simp: toks)
  qed simp
qed simp

lemma grows_score:
  assumes "grows opt b b'"
  shows "score (tokens b) toks (wildcard opt) \<le> score (tokens b') toks (wildcard opt)"
proof (rule score_mono)
  let ?w = "wildcard opt"
  have g: "length (tokens b') = length (tokens b)"
    "\<And>us. matches_all (tokens b) us ?w \<Longrightarrow> matches_all (tokens b') us ?w"
    using assms by (simp_all add: grows_def)
  then show "length (tokens b) = length (tokens b')" by simp
  then show "count_matches (tokens b) toks ?w \<le> count_matches (tokens b') toks ?w"
  proof (rule count_matches_mono)
    fix k
    assume k: "k < length (tokens b)" "k < length toks"
      "tok_text (tokens b ! k) = ?w \<or> tok_text (tokens b ! k) = tok_text (toks ! k)"
    have "matches_all (tokens b) ((tokens b)[k := toks ! k]) ?w"
      using k by (auto simp: matches_all_def list_all2_conv_all_nth nth_list_update)
    from g(2) [OF this] k(1) g(1)
    show "tok_text (tokens b' ! k) = ?w \<or> tok_text (tokens b' ! k) = tok_text (toks ! k)"
      by (auto simp: matches_all_def list_all2_conv_all_nth dest: spec [of _ k])
  qed
qed

lemma score_of_evolves:
  assumes "heap \<mu> i \<noteq> None" "evolves w x \<mu> \<mu>'"
  shows "score_of (store \<mu>) toks i \<le> score_of (store \<mu>') toks i"
proof -
  obtain b where b: "heap \<mu> i = Some b" using assms(1) by blast
  from evolvesD(3) [OF assms(2) b] obtain b' where "heap \<mu>' i = Some b'"
    "grows (options (store \<mu>)) b b'" by blast
  with b grows_score show ?thesis
    by (simp add: score_of_def evolvesD(1) [OF assms(2)])
qed

end
