(* ===== verification/Concurrent_Query_Inv.thy ===== *)
theory Concurrent_Query_Inv
  imports Concurrent_Query
begin

text \<open>
  The invariant of queries beside ingest: what each query has seen is still true of the shared
  memory, because bodies only grow, scores only rise, and nobody changes a leaf that is scanned;
  and a scan does not miss a cluster that stays live.
\<close>

section \<open>What a query has seen\<close>

definition found :: "'re memory \<Rightarrow> token list \<Rightarrow> u64 \<Rightarrow> bool" where
  "found \<mu> toks i \<longleftrightarrow>
     held (store \<mu>) toks i \<and> passes (options (store \<mu>)) (score_of (store \<mu>) toks i)"

definition read_back :: "'re memory \<Rightarrow> token list \<Rightarrow> u64 \<Rightarrow> rstr list \<Rightarrow> bool" where
  "read_back \<mu> toks i ps \<longleftrightarrow>
     (\<exists>b b'. heap \<mu> i = Some b' \<and> grows (options (store \<mu>)) b b' \<and> length (tokens b) = length toks \<and>
       passes (options (store \<mu>)) (score (tokens b) toks (wildcard (options (store \<mu>)))) \<and>
       ps = extract_loop (wildcard (options (store \<mu>))) (tokens b) toks)"

fun query_ok :: "'re memory \<Rightarrow> token list \<Rightarrow> query_pc \<Rightarrow> bool" where
  "query_ok \<mu> toks Asked = True"
| "query_ok \<mu> toks Shard_got = has_shard (store \<mu>) toks"
| "query_ok \<mu> toks (Query_scan is best) =
     (has_shard (store \<mu>) toks \<and> set is \<subseteq> set (home (store \<mu>) toks) \<and>
      (\<forall>i s. best = Some (i, s) \<longrightarrow> i \<in> set (home (store \<mu>) toks) \<and>
         (\<exists>r. s = Fin r \<and> r \<le> score_of (store \<mu>) toks i)))"
| "query_ok \<mu> toks (Looked_up i) = found \<mu> toks i"
| "query_ok \<mu> toks (Body_got i) = found \<mu> toks i"
| "query_ok \<mu> toks (Matched r) = (case r of None \<Rightarrow> True | Some i \<Rightarrow> found \<mu> toks i)"
| "query_ok \<mu> toks (Extracted r) = (case r of None \<Rightarrow> True | Some (i, ps) \<Rightarrow> read_back \<mu> toks i ps)"

lemma found_evolves:
  assumes "found \<mu> toks i" "evolves w x \<mu> \<mu>'"
  shows "found \<mu>' toks i"
proof -
  have "heap \<mu> i \<noteq> None" using assms(1) by (auto simp: found_def held_def)
  from score_of_evolves [OF this assms(2)] held_evolves [OF _ assms(2)] assms(1) show ?thesis
    by (auto simp: found_def evolvesD(1) [OF assms(2)] intro: passes_mono)
qed

lemma read_back_evolves:
  assumes "read_back \<mu> toks i ps" "evolves w x \<mu> \<mu>'"
  shows "read_back \<mu>' toks i ps"
proof -
  from assms(1) obtain b b' where b: "heap \<mu> i = Some b'" "grows (options (store \<mu>)) b b'"
    "length (tokens b) = length toks"
    "passes (options (store \<mu>)) (score (tokens b) toks (wildcard (options (store \<mu>))))"
    "ps = extract_loop (wildcard (options (store \<mu>))) (tokens b) toks"
    by (auto simp: read_back_def)
  from evolvesD(3) [OF assms(2) b(1)] obtain b'' where b'': "heap \<mu>' i = Some b''"
    "grows (options (store \<mu>)) b' b''" by blast
  from b''(1) grows_trans [OF b(2) b''(2)] b(3-5) show ?thesis
    unfolding read_back_def evolvesD(1) [OF assms(2)] by blast
qed

lemma query_ok_evolves:
  assumes mem: "mem_ok \<mu> P" and ok: "query_ok \<mu> toks p" and ev: "evolves w x \<mu> \<mu>'"
    and w: "query_reads p \<Longrightarrow> w \<noteq> Some (length toks)"
  shows "query_ok \<mu>' toks p"
proof (cases p)
  case (Query_scan "is" best)
  with ok have s: "has_shard (store \<mu>) toks" by simp
  have h: "home (store \<mu>') toks = home (store \<mu>) toks"
    by (rule locked_evolves(2) [OF ev s]) (use w Query_scan in simp)
  have up: "score_of (store \<mu>) toks i \<le> score_of (store \<mu>') toks i" if "i \<in> set (home (store \<mu>) toks)" for i
    using home_held(1) [OF mem that] score_of_evolves [OF _ ev] by (auto simp: held_def)
  show ?thesis
    using ok has_shard_evolves(1) [OF ev s] order_trans [OF _ up]
    by (auto simp: Query_scan h)
qed (use ok has_shard_evolves(1) [OF ev] found_evolves [OF _ ev] read_back_evolves [OF _ ev]
      in \<open>auto split: option.splits\<close>)

section \<open>A step of a query\<close>

lemma scan_one_score:
  assumes "mem_ok \<mu> P" "i \<in> set (home (store \<mu>) toks)"
  shows "scan_one \<mu> toks i best =
    (case best of
       None \<Rightarrow> Some (i, Fin (score_of (store \<mu>) toks i))
     | Some (k, b) \<Rightarrow> if f64_lt b (Fin (score_of (store \<mu>) toks i))
         then Some (i, Fin (score_of (store \<mu>) toks i)) else best)"
proof -
  obtain b where "heap \<mu> i = Some b" "i |\<in>| live \<mu>"
    using home_held [OF assms] by (auto simp: held_def)
  then show ?thesis by (simp add: scan_one_def score_of_def similarity_score Let_def split: option.split)
qed

lemma query_ok_matched:
  "\<lbrakk>\<And>i. r = Some i \<Longrightarrow> found \<mu> toks i\<rbrakk> \<Longrightarrow> query_ok \<mu> toks (matched_pc q r)"
  by (auto simp: matched_pc_def split: query.splits option.splits)

lemma query_next_ok:
  assumes mem: "mem_ok \<mu> P" and ok: "query_ok \<mu> toks p" and p: "\<not> answered p"
  shows "\<exists>p'. query_next toks q p \<mu> = Some p' \<and> query_ok \<mu> toks p'"
proof (cases p)
  case Asked
  have "query_ok \<mu> toks (matched_pc q None)" by (rule query_ok_matched) simp
  with Asked show ?thesis by (auto simp: has_shard_def split: option.splits)
next
  case Shard_got
  have "query_ok \<mu> toks (matched_pc q None)" by (rule query_ok_matched) simp
  with Shard_got ok show ?thesis
    by (auto simp: has_shard_def home_def bucket_lookup leaf_ids_def split: option.splits)
next
  case (Query_scan "is" best)
  show ?thesis
  proof (cases "is")
    case Nil
    have "found \<mu> toks i" if "scan_result \<mu> best = Some i" for i
    proof -
      from that obtain sc where sc: "best = Some (i, sc)" "f64_le (sim_threshold (options (store \<mu>))) sc"
        by (auto simp: scan_result_def split: option.splits if_splits)
      with ok Query_scan obtain r where "sc = Fin r" "r \<le> score_of (store \<mu>) toks i"
          "i \<in> set (home (store \<mu>) toks)" by auto
      moreover from this(1) sc(2) have "passes (options (store \<mu>)) r" by (simp add: passes_def)
      ultimately have "i \<in> set (home (store \<mu>) toks)" "passes (options (store \<mu>)) (score_of (store \<mu>) toks i)"
        using passes_mono by blast+
      with home_held(1) [OF mem] show ?thesis by (auto simp: found_def intro: passes_mono)
    qed
    with Query_scan Nil show ?thesis by (simp add: query_ok_matched)
  next
    case (Cons i js)
    with ok Query_scan have "i \<in> set (home (store \<mu>) toks)" by simp
    note s = scan_one_score [OF mem this, of best]
    from ok Query_scan Cons show ?thesis by (auto simp: s split: option.splits if_splits)
  qed
next
  case (Looked_up i)
  with ok show ?thesis by simp
next
  case (Body_got i)
  with ok obtain b where b: "heap \<mu> i = Some b" "length (tokens b) = length toks"
    "passes (options (store \<mu>)) (score (tokens b) toks (wildcard (options (store \<mu>))))"
    by (auto simp: found_def held_def placed_def score_of_def)
  then have "read_back \<mu> toks i (extract_loop (wildcard (options (store \<mu>))) (tokens b) toks)"
    using grows_refl unfolding read_back_def by blast
  with Body_got b(1) show ?thesis by simp
qed (use p in simp_all)

section \<open>A cluster that stays live is not missed\<close>

text \<open>The scan has the cluster still before it, or has a match already.\<close>

fun tracks :: "'re memory \<Rightarrow> u64 \<Rightarrow> query_pc \<Rightarrow> bool" where
  "tracks \<mu> j (Query_scan is best) = (j \<in> set is \<or> scan_result \<mu> best \<noteq> None)"
| "tracks \<mu> j (Matched r) = (r \<noteq> None)"
| "tracks \<mu> j _ = True"

lemma tracks_matched: "r \<noteq> None \<Longrightarrow> tracks \<mu> j (matched_pc q r)"
  by (auto simp: matched_pc_def split: query.splits option.splits)

lemma tracks_evolves:
  assumes "evolves w x \<mu> \<mu>'"
  shows "tracks \<mu>' j p = tracks \<mu> j p"
proof -
  have "scan_result \<mu>' best = scan_result \<mu> best" for best
    unfolding scan_result_def evolvesD(1) [OF assms] ..
  then show ?thesis by (cases p) simp_all
qed

lemma tracks_next:
  assumes mem: "mem_ok \<mu> P" and ok: "query_ok \<mu> toks p" and t: "tracks \<mu> j p"
    and j: "found \<mu> toks j" "j |\<in>| live \<mu>" "j \<notin> P"
    and step: "query_next toks q p \<mu> = Some p'"
  shows "tracks \<mu> j p'"
proof -
  have home: "j \<in> set (home (store \<mu>) toks)"
    using mem_okD(5) [OF mem, of j] j by (auto simp: home_def found_def held_def)
  show ?thesis
  proof (cases p)
    case Asked
    have "fmlookup (shards (store \<mu>)) (length toks) \<noteq> None"
    proof
      assume "fmlookup (shards (store \<mu>)) (length toks) = None"
      with home show False by (simp add: home_def bucket_def)
    qed
    with Asked step show ?thesis by auto
  next
    case Shard_got
    with home step show ?thesis
      by (auto simp: home_def bucket_lookup leaf_ids_def split: option.splits)
  next
    case (Query_scan "is" best)
    show ?thesis
    proof (cases "is")
      case Nil
      with Query_scan step t show ?thesis by (auto simp: tracks_matched)
    next
      case (Cons i js)
      with ok Query_scan have i: "i \<in> set (home (store \<mu>) toks)" by simp
      note s = scan_one_score [OF mem this, of best]
      consider "j \<in> set js" | "j = i" | "scan_result \<mu> best \<noteq> None" using t Query_scan Cons by auto
      then show ?thesis
      proof cases
        case 2
        with j(1) have "passes (options (store \<mu>)) (score_of (store \<mu>) toks i)" by (simp add: found_def)
        then have "scan_result \<mu> (scan_one \<mu> toks i best) \<noteq> None"
          using ok Query_scan passes_mono [of "options (store \<mu>)" "score_of (store \<mu>) toks i"]
          by (fastforce simp: s scan_result_def passes_def split: option.splits if_splits)
        with Query_scan Cons step show ?thesis by auto
      qed (use Query_scan Cons step scan_one_keeps [of \<mu> best toks i] in auto)
    qed
  qed (use step in \<open>auto split: if_splits option.splits\<close>)
qed

end
