(* ===== verification/Concurrent_Query_Run.thy ===== *)
theory Concurrent_Query_Run
  imports Concurrent_Query_Inv
begin

text \<open>
  Properties of queries beside concurrent ingest: they never panic or deadlock, an answer names a
  cluster that reaches the threshold, and a cluster that stays live is found.
\<close>

section \<open>The invariant of a mixed run\<close>

definition query_locks ::
    "('re \<Rightarrow> rstr \<Rightarrow> rstr \<Rightarrow> cow) \<Rightarrow> job list \<Rightarrow> query list \<Rightarrow> 're cstate \<Rightarrow> query_pc list \<Rightarrow> bool" where
  "query_locks ra jobs queries st qs \<longleftrightarrow>
     (\<forall>l < length qs. \<forall>k < length (pcs st). query_reads (qs ! l) \<longrightarrow> holds_write (pcs st ! k) \<longrightarrow>
        length (toks_at ra jobs st k) \<noteq> length (query_at ra queries st l))"

definition mixed_inv ::
    "('re \<Rightarrow> rstr \<Rightarrow> rstr \<Rightarrow> cow) \<Rightarrow> job list \<Rightarrow> query list \<Rightarrow> 're cstate \<times> query_pc list \<Rightarrow> bool" where
  "mixed_inv ra jobs queries c \<longleftrightarrow>
     (case c of (st, qs) \<Rightarrow>
        cinv ra jobs st \<and> length qs = length queries \<and>
        (\<forall>l < length qs. query_ok (mem st) (query_at ra queries st l) (qs ! l)) \<and>
        query_locks ra jobs queries st qs)"

text \<open>The cluster \<open>j\<close> reaches the threshold for the query \<open>l\<close>, which does not miss it.\<close>

definition watches ::
    "('re \<Rightarrow> rstr \<Rightarrow> rstr \<Rightarrow> cow) \<Rightarrow> query list \<Rightarrow> nat \<Rightarrow> u64 \<Rightarrow> 're cstate \<times> query_pc list \<Rightarrow> bool" where
  "watches ra queries l j c \<longleftrightarrow>
     (case c of (st, qs) \<Rightarrow>
        found (mem st) (query_at ra queries st l) j \<and> (\<forall>p \<in> set (pcs st). new_id p \<noteq> Some j) \<and>
        (j |\<in>| live (mem st) \<longrightarrow> tracks (mem st) j (qs ! l)))"

lemma ingest_step_facts:
  assumes inv: "cinv ra jobs st" and can: "can_step ra jobs st k"
    and step: "thread_step ra jobs k now st = Some st'"
  obtains p' where "pcs st' = (pcs st)[k := p']" "k < length (pcs st)"
    "evolves (if holds_write (pcs st ! k) \<or> holds_write p' then Some (length (toks_at ra jobs st k)) else None)
       (new_id (pcs st ! k)) (mem st) (mem st')"
    "options (store (mem st')) = options (store (mem st))"
    "holds_write p' \<Longrightarrow> holds_write (pcs st ! k) \<or> pcs st ! k = Wait_write"
    "\<And>j. j \<le> counter (store (mem st)) \<Longrightarrow> new_id (pcs st ! k) \<noteq> Some j \<Longrightarrow> new_id p' \<noteq> Some j"
    "\<And>j. j |\<in>| live (mem st') \<Longrightarrow> new_id (pcs st ! k) \<noteq> Some j \<Longrightarrow> j |\<in>| live (mem st)"
proof -
  have k: "k < length (pcs st)" using can by (simp add: can_step_def)
  obtain p' \<mu>' where s: "thread_step ra jobs k now st = Some (st\<lparr>mem := \<mu>', pcs := (pcs st)[k := p']\<rparr>)"
    and good: "good_step (toks_at ra jobs st k) (others_pending (pcs st) k) (pcs st ! k) (mem st) p' \<mu>'"
    and nxt: "pc_next now (toks_at ra jobs st k) (suffix_at ra jobs st k) (jobs ! k) (pcs st ! k) (mem st) =
       Some (p', \<mu>')"
    by (rule thread_step_ok [OF inv k, of now])
  from s step have st': "st' = st\<lparr>mem := \<mu>', pcs := (pcs st)[k := p']\<rparr>" by simp
  have "new_id p' \<noteq> Some j" if j: "j \<le> counter (store (mem st))" "new_id (pcs st ! k) \<noteq> Some j" for j
  proof
    assume "new_id p' = Some j"
    with good j(2) have new: "pcs st ! k = New" "j = counter (store (mem st)) + 1"
      by (auto simp: good_step_def)
    have "counter (store (mem st)) \<noteq> - 1"
      using room_not_max [OF cinvD(6) [OF inv] k] new(1) by simp
    with u64_succ_fresh(1) [OF _ order_refl] j(1) new(2) show False by (metis leD)
  qed
  moreover have "j |\<in>| live (mem st)" if "j |\<in>| live \<mu>'" "new_id (pcs st ! k) \<noteq> Some j" for j
    using live_step [OF nxt] that by (auto split: option.splits)
  moreover have "options (store \<mu>') = options (store (mem st))"
    using good evolvesD(1) by (auto simp: good_step_def)
  ultimately show ?thesis
    using that [of p'] good k by (simp add: st' good_step_def)
qed

lemma query_at_same:
  "options (store (mem st')) = options (store (mem st)) \<Longrightarrow> query_at ra queries st' l = query_at ra queries st l"
  by (simp add: query_at_def)

lemma toks_at_same:
  "options (store (mem st')) = options (store (mem st)) \<Longrightarrow> toks_at ra jobs st' l = toks_at ra jobs st l"
  by (simp add: toks_at_def)

text \<open>A step of an ingesting thread.\<close>

lemma mixed_ingest:
  assumes inv: "mixed_inv ra jobs queries (st, qs)" and can: "can_step ra jobs st k"
    and free: "ingest_free ra jobs queries st qs k" and step: "thread_step ra jobs k now st = Some st'"
  shows "mixed_inv ra jobs queries (st', qs)"
    "l < length qs \<Longrightarrow> watches ra queries l j (st, qs) \<Longrightarrow> watches ra queries l j (st', qs)"
proof -
  from inv have c: "cinv ra jobs st" and len: "length qs = length queries"
    and ok: "\<And>l. l < length qs \<Longrightarrow> query_ok (mem st) (query_at ra queries st l) (qs ! l)"
    and locks: "query_locks ra jobs queries st qs" by (auto simp: mixed_inv_def)
  obtain p' where f: "pcs st' = (pcs st)[k := p']" "k < length (pcs st)"
    "evolves (if holds_write (pcs st ! k) \<or> holds_write p' then Some (length (toks_at ra jobs st k)) else None)
       (new_id (pcs st ! k)) (mem st) (mem st')"
    "options (store (mem st')) = options (store (mem st))"
    "holds_write p' \<Longrightarrow> holds_write (pcs st ! k) \<or> pcs st ! k = Wait_write"
    "\<And>j. j \<le> counter (store (mem st)) \<Longrightarrow> new_id (pcs st ! k) \<noteq> Some j \<Longrightarrow> new_id p' \<noteq> Some j"
    "\<And>j. j |\<in>| live (mem st') \<Longrightarrow> new_id (pcs st ! k) \<noteq> Some j \<Longrightarrow> j |\<in>| live (mem st)"
    by (rule ingest_step_facts [OF c can step]) blast
  note q = query_at_same [OF f(4), of ra queries] and t = toks_at_same [OF f(4), of ra jobs]
  have apart: "length (toks_at ra jobs st k) \<noteq> length (query_at ra queries st l)"
    if "l < length qs" "query_reads (qs ! l)" "holds_write (pcs st ! k) \<or> holds_write p'" for l
  proof -
    have "holds_write (pcs st ! k) \<or> pcs st ! k = Wait_write" using that(3) f(5) by blast
    then show ?thesis
    proof
      assume "holds_write (pcs st ! k)"
      with locks f(2) that(1,2) show ?thesis by (simp add: query_locks_def)
    next
      assume "pcs st ! k = Wait_write"
      with free that(1,2) show ?thesis by (auto simp: ingest_free_def list_all_iff)
    qed
  qed
  have "query_ok (mem st') (query_at ra queries st l) (qs ! l)" if "l < length qs" for l
  proof (rule query_ok_evolves [OF cinvD(2) [OF c] ok [OF that] f(3)])
    assume "query_reads (qs ! l)"
    from apart [OF that this]
    show "(if holds_write (pcs st ! k) \<or> holds_write p' then Some (length (toks_at ra jobs st k)) else None) \<noteq>
        Some (length (query_at ra queries st l))"
      by (simp split: if_split)
  qed
  moreover have "query_locks ra jobs queries st' qs"
    unfolding query_locks_def f(1) q t length_list_update
  proof (intro allI impI)
    fix l a
    assume la: "l < length qs" "a < length (pcs st)" "query_reads (qs ! l)"
      "holds_write ((pcs st)[k := p'] ! a)"
    show "length (toks_at ra jobs st a) \<noteq> length (query_at ra queries st l)"
    proof (cases "a = k")
      case True
      with apart [OF la(1,3)] la(2,4) show ?thesis by simp
    next
      case False
      with locks la show ?thesis by (simp add: query_locks_def)
    qed
  qed
  ultimately show "mixed_inv ra jobs queries (st', qs)"
    using cinv_step [OF c can step] len by (simp add: mixed_inv_def q)
  assume w: "watches ra queries l j (st, qs)"
  then have fd: "found (mem st) (query_at ra queries st l) j" "\<And>p. p \<in> set (pcs st) \<Longrightarrow> new_id p \<noteq> Some j"
    by (auto simp: watches_def)
  then have j: "j \<le> counter (store (mem st))" "new_id (pcs st ! k) \<noteq> Some j"
    using mem_okD(3) [OF cinvD(2) [OF c]] f(2) by (auto simp: found_def held_def bodies_ok_def)
  note new = f(6) [OF j] f(7) [OF _ j(2)]
  have "new_id p \<noteq> Some j" if "p \<in> set (pcs st')" for p
    using that new(1) fd(2) set_update_subset_insert [of "pcs st" k p'] by (auto simp: f(1))
  with new(2) w found_evolves [OF fd(1) f(3)] tracks_evolves [OF f(3)]
  show "watches ra queries l j (st', qs)"
    by (auto simp: watches_def q)
qed

text \<open>A step of a query.\<close>

lemma mixed_query:
  assumes inv: "mixed_inv ra jobs queries (st, qs)" and a: "a < length qs"
    and free: "query_free ra jobs queries st qs a"
    and step: "query_next (query_at ra queries st a) (queries ! a) (qs ! a) (mem st) = Some p'"
  shows "mixed_inv ra jobs queries (st, qs[a := p'])"
    "l < length qs \<Longrightarrow> watches ra queries l j (st, qs) \<Longrightarrow> watches ra queries l j (st, qs[a := p'])"
proof -
  from inv have c: "cinv ra jobs st" and len: "length qs = length queries"
    and ok: "\<And>l. l < length qs \<Longrightarrow> query_ok (mem st) (query_at ra queries st l) (qs ! l)"
    and locks: "query_locks ra jobs queries st qs" by (auto simp: mixed_inv_def)
  note mem = cinvD(2) [OF c]
  have "\<not> answered (qs ! a)" using step by (cases "qs ! a") auto
  from query_next_ok [OF mem ok [OF a] this, of "queries ! a"] step
  have "query_ok (mem st) (query_at ra queries st a) p'" by auto
  moreover have reads: "query_reads (qs ! a) \<or> qs ! a = Shard_got" if "query_reads p'"
    using step that by (cases "qs ! a") (auto simp: matched_pc_def split: option.splits query.splits if_splits)
  have "query_locks ra jobs queries st (qs[a := p'])"
    unfolding query_locks_def length_list_update
  proof (intro allI impI)
    fix l k
    assume lk: "l < length qs" "k < length (pcs st)" "query_reads (qs[a := p'] ! l)" "holds_write (pcs st ! k)"
    show "length (toks_at ra jobs st k) \<noteq> length (query_at ra queries st l)"
    proof (cases "l = a \<and> qs ! a = Shard_got")
      case True
      with free lk(2,4) show ?thesis by (auto simp: query_free_def list_all_iff)
    next
      case False
      with lk(1,3) reads have "query_reads (qs ! l)" by (cases "l = a") auto
      with lk locks show ?thesis by (simp add: query_locks_def)
    qed
  qed
  ultimately show "mixed_inv ra jobs queries (st, qs[a := p'])"
    using c len ok a by (auto simp: mixed_inv_def nth_list_update)
  assume l: "l < length qs" and w: "watches ra queries l j (st, qs)"
  have "tracks (mem st) j p'" if "l = a" "j |\<in>| live (mem st)"
  proof (rule tracks_next [OF mem ok [OF a] _ _ that(2) _ step])
    show "j \<notin> pending_ids (pcs st)"
      using w by (auto simp: watches_def pending_ids_set dest: pending_new_id)
  qed (use w that in \<open>auto simp: watches_def\<close>)
  with w l show "watches ra queries l j (st, qs[a := p'])"
    by (cases "l = a") (auto simp: watches_def)
qed

section \<open>Runs\<close>

lemma mixed_next_inv:
  assumes "mixed_inv ra jobs queries c" "mixed_next ra jobs queries s c = Some c'"
  shows "mixed_inv ra jobs queries c'"
    "l < length queries \<Longrightarrow> watches ra queries l j c \<Longrightarrow> watches ra queries l j c'"
proof -
  obtain st qs where c: "c = (st, qs)" by (cases c)
  have len: "length qs = length queries" using assms(1) by (simp add: c mixed_inv_def)
  have "mixed_inv ra jobs queries c' \<and>
      (l < length queries \<longrightarrow> watches ra queries l j c \<longrightarrow> watches ra queries l j c')" for l j
  proof (cases s)
    case (Inl kn)
    obtain k now where "kn = (k, now)" by (cases kn)
    with assms(2) Inl obtain st' where st': "can_step ra jobs st k" "ingest_free ra jobs queries st qs k"
      "thread_step ra jobs k now st = Some st'" "c' = (st', qs)"
      by (auto simp: c split: if_splits)
    with mixed_ingest [OF assms(1) [unfolded c] st'(1-3)] show ?thesis by (simp add: c len)
  next
    case (Inr a)
    with assms(2) obtain p' where p': "a < length qs" "query_free ra jobs queries st qs a"
      "query_next (query_at ra queries st a) (queries ! a) (qs ! a) (mem st) = Some p'"
      "c' = (st, qs[a := p'])"
      by (auto simp: c split: if_splits)
    with mixed_query [OF assms(1) [unfolded c] p'(1-3)] show ?thesis by (simp add: c len)
  qed
  then show "mixed_inv ra jobs queries c'"
    "l < length queries \<Longrightarrow> watches ra queries l j c \<Longrightarrow> watches ra queries l j c'" by blast+
qed

lemma run_mixed_inv:
  assumes "mixed_inv ra jobs queries c" "run_mixed ra jobs queries ss c = Some c'"
  shows "mixed_inv ra jobs queries c'"
    "l < length queries \<Longrightarrow> watches ra queries l j c \<Longrightarrow> watches ra queries l j c'"
proof -
  have "mixed_inv ra jobs queries c' \<and>
      (l < length queries \<longrightarrow> watches ra queries l j c \<longrightarrow> watches ra queries l j c')" for l j
    using assms
  proof (induction ss arbitrary: c)
    case (Cons s ss)
    then obtain c1 where c1: "mixed_next ra jobs queries s c = Some c1" "run_mixed ra jobs queries ss c1 = Some c'"
      by (auto split: option.splits)
    with Cons.IH [of c1] mixed_next_inv [OF Cons.prems(1) c1(1)] show ?case by blast
  qed simp
  then show "mixed_inv ra jobs queries c'"
    "l < length queries \<Longrightarrow> watches ra queries l j c \<Longrightarrow> watches ra queries l j c'" by blast+
qed

lemma run_mixed_options:
  assumes "mixed_inv ra jobs queries c" "run_mixed ra jobs queries ss c = Some c'"
  shows "options (store (mem (fst c'))) = options (store (mem (fst c)))"
  using assms
proof (induction ss arbitrary: c)
  case (Cons s ss)
  then obtain c1 where c1: "mixed_next ra jobs queries s c = Some c1" "run_mixed ra jobs queries ss c1 = Some c'"
    by (auto split: option.splits)
  obtain st qs where c: "c = (st, qs)" by (cases c)
  have "cinv ra jobs st" using Cons.prems(1) by (simp add: c mixed_inv_def)
  from total_rank_step(2) [OF this] c1(1) have "options (store (mem (fst c1))) = options (store (mem (fst c)))"
    by (cases s) (auto simp: c split: if_splits)
  with Cons.IH [OF mixed_next_inv(1) [OF Cons.prems(1) c1(1)] c1(2)] show ?case by simp
qed simp

lemma mixed_inv_launch:
  assumes "miner_inv m" "unat (counter m) + length jobs < 2 ^ 64"
  shows "mixed_inv ra jobs queries (launch_mixed m jobs queries)"
  using cinv_launch [OF assms] by (simp add: mixed_inv_def launch_mixed_def query_locks_def)

text \<open>A cluster of the leaf that reaches the threshold when the run starts is watched.\<close>

lemma watches_launch:
  assumes "miner_inv m" "l < length queries"
    "body_of m j = Some b" "placed (options m) (length toks) (descent_keys (options m) toks) b"
    "passes (options m) (score (tokens b) toks (wildcard (options m)))"
    "toks = query_toks ra (options m) (queries ! l)"
  shows "watches ra queries l j (launch_mixed m jobs queries)"
  using assms
  by (auto simp: watches_def launch_mixed_def launch_def query_at_def found_def held_def score_of_def)

section \<open>Ranks and progress\<close>

fun query_rank :: "nat \<Rightarrow> query_pc \<Rightarrow> nat" where
  "query_rank c Asked = 5 + c"
| "query_rank c Shard_got = 4 + c"
| "query_rank c (Query_scan is best) = 3 + length is"
| "query_rank c (Looked_up i) = 2"
| "query_rank c (Body_got i) = 1"
| "query_rank c (Matched r) = 0"
| "query_rank c (Extracted r) = 0"

lemma query_rank_matched: "query_rank c (matched_pc q r) \<le> 2"
  by (auto simp: matched_pc_def split: query.splits option.splits)

lemma query_rank_step:
  assumes "shape_ok (store \<mu>)" "query_next toks q p \<mu> = Some p'"
    "c = max_clusters_per_leaf (options (store \<mu>))"
  shows "query_rank c p' < query_rank c p"
proof -
  note le = query_rank_matched [of c q] le_less_trans [OF query_rank_matched [of c q]]
  show ?thesis
  proof (cases p)
    case Asked
    with assms(2) show ?thesis by (auto simp: le split: option.splits)
  next
    case Shard_got
    have "length (home (store \<mu>) toks) \<le> c"
      using bucket_leaf_ok(2) [OF assms(1)] by (simp add: home_def assms(3))
    with Shard_got assms(2) show ?thesis
      by (auto simp: le home_def bucket_lookup leaf_ids_def split: option.splits)
  next
    case (Query_scan "is" best)
    with assms(2) show ?thesis by (cases "is") (auto simp: le)
  qed (use assms(2) in \<open>auto split: if_splits option.splits\<close>)
qed

definition mixed_rank :: "'re cstate \<times> query_pc list \<Rightarrow> nat" where
  "mixed_rank c =
     (case c of (st, qs) \<Rightarrow> total_rank st +
        sum_list (map (query_rank (max_clusters_per_leaf (options (store (mem st))))) qs))"

lemma mixed_rank_step:
  assumes "mixed_inv ra jobs queries c" "mixed_next ra jobs queries s c = Some c'"
  shows "mixed_rank c' < mixed_rank c"
proof -
  obtain st qs where c: "c = (st, qs)" by (cases c)
  have inv: "cinv ra jobs st" using assms(1) by (simp add: c mixed_inv_def)
  show ?thesis
  proof (cases s)
    case (Inl kn)
    obtain k now where kn: "kn = (k, now)" by (cases kn)
    with assms(2) Inl obtain st' where "can_step ra jobs st k" "thread_step ra jobs k now st = Some st'"
      "c' = (st', qs)" by (auto simp: c split: if_splits)
    with total_rank_step [OF inv] show ?thesis by (simp add: c mixed_rank_def)
  next
    case (Inr a)
    with assms(2) obtain p' where p': "a < length qs" "c' = (st, qs[a := p'])"
      "query_next (query_at ra queries st a) (queries ! a) (qs ! a) (mem st) = Some p'"
      by (auto simp: c split: if_splits)
    from query_rank_step [OF mem_okD(2) [OF cinvD(2) [OF inv]] p'(3) refl]
    show ?thesis by (simp add: c p'(2) mixed_rank_def sum_list_update_less [OF p'(1)])
  qed
qed

text \<open>A writer is never blocked; without one no query is; without readers the threads are alone.\<close>

lemma mixed_progress:
  assumes inv: "mixed_inv ra jobs queries (st, qs)"
    and some: "\<not> list_all finished (pcs st) \<or> \<not> list_all answered qs"
  shows "\<exists>s c'. mixed_next ra jobs queries s (st, qs) = Some c'"
proof -
  from inv have c: "cinv ra jobs st"
    and ok: "\<And>l. l < length qs \<Longrightarrow> query_ok (mem st) (query_at ra queries st l) (qs ! l)"
    by (auto simp: mixed_inv_def)
  have ingest: "\<exists>s c'. mixed_next ra jobs queries s (st, qs) = Some c'"
    if "can_step ra jobs st k" "ingest_free ra jobs queries st qs k" for k
  proof -
    have "k < length (pcs st)" using that(1) by (simp add: can_step_def)
    then obtain st' where "thread_step ra jobs k 0 st = Some st'" by (rule thread_step_ok [OF c, of k 0])
    with that show ?thesis by (intro exI [of _ "Inl (k, 0)"]) simp
  qed
  show ?thesis
  proof (cases "\<exists>k < length (pcs st). holds_write (pcs st ! k)")
    case True
    then obtain k where k: "k < length (pcs st)" "holds_write (pcs st ! k)" by blast
    then have "unblocked n ps (pcs st ! k)" "pcs st ! k \<noteq> Wait_write" for n ps
      by (cases "pcs st ! k"; simp)+
    with k(1) ingest [of k] show ?thesis by (simp add: can_step_def ingest_free_def)
  next
    case no_writer: False
    show ?thesis
    proof (cases "list_all answered qs")
      case False
      then obtain l where l: "l < length qs" "\<not> answered (qs ! l)" by (auto simp: list_all_length)
      have "query_free ra jobs queries st qs l" using no_writer by (auto simp: query_free_def list_all_iff)
      moreover obtain p' where
        "query_next (query_at ra queries st l) (queries ! l) (qs ! l) (mem st) = Some p'"
        using query_next_ok [OF cinvD(2) [OF c] ok [OF l(1)] l(2)] by blast
      ultimately show ?thesis using l(1) by (intro exI [of _ "Inr l"]) simp
    next
      case True
      then have "\<not> query_reads (qs ! l)" if "l < length qs" for l
        using that by (cases "qs ! l") (auto simp: list_all_length dest: spec [of _ l])
      then have "ingest_free ra jobs queries st qs k" for k
        by (auto simp: ingest_free_def list_all_iff)
      moreover obtain k where "can_step ra jobs st k" using no_deadlock some True by blast
      ultimately show ?thesis using ingest by blast
    qed
  qed
qed

lemma run_mixed_bound:
  assumes "mixed_inv ra jobs queries c" "run_mixed ra jobs queries ss c = Some c'"
  shows "length ss + mixed_rank c' \<le> mixed_rank c"
  using assms
proof (induction ss arbitrary: c)
  case (Cons s ss)
  then obtain c1 where c1: "mixed_next ra jobs queries s c = Some c1" "run_mixed ra jobs queries ss c1 = Some c'"
    by (auto split: option.splits)
  from Cons.IH [OF mixed_next_inv(1) [OF Cons.prems(1) c1(1)] c1(2)]
    mixed_rank_step [OF Cons.prems(1) c1(1)] show ?case by simp
qed simp

lemma mixed_rank_launch:
  "mixed_rank (launch_mixed m jobs queries) =
     length jobs * (13 + 3 * max_clusters_per_leaf (options m)) +
     length queries * (5 + max_clusters_per_leaf (options m))"
  by (simp add: mixed_rank_def launch_mixed_def total_rank_def launch_def sum_list_replicate)

end
