(* ===== verification/Concurrent_Query_Props.thy ===== *)
theory Concurrent_Query_Props
  imports Concurrent_Query_Run Concurrent_Races
begin

text \<open>
  Properties of queries beside concurrent ingest: they never panic or deadlock, an answer names a
  cluster that reaches the threshold, a cluster that stays live is found, and a query alone is the
  sequential one.
\<close>

section \<open>A query that runs alone\<close>

definition alone ::
    "('re \<Rightarrow> rstr \<Rightarrow> rstr \<Rightarrow> cow) \<Rightarrow> job list \<Rightarrow> query \<Rightarrow> 're cstate \<Rightarrow> query_pc \<Rightarrow> query_pc \<Rightarrow> bool" where
  "alone ra jobs q st p p' \<longleftrightarrow> (\<exists>ss. run_mixed ra jobs [q] ss (st, [p]) = Some (st, [p']))"

lemma alone_refl: "alone ra jobs q st p p"
  unfolding alone_def by (intro exI [of _ "[]"]) simp

lemma alone_step:
  assumes "list_all (\<lambda>p. \<not> holds_write p) (pcs st)"
    "query_next (query_toks ra (options (store (mem st))) q) q p (mem st) = Some p1"
    "alone ra jobs q st p1 p'"
  shows "alone ra jobs q st p p'"
proof -
  have "query_free ra jobs [q] st [p] 0"
    using assms(1) by (auto simp: query_free_def list_all_length)
  then have "mixed_next ra jobs [q] (Inr 0) (st, [p]) = Some (st, [p1])"
    using assms(2) by (simp add: query_at_def)
  moreover obtain ss where "run_mixed ra jobs [q] ss (st, [p1]) = Some (st, [p'])"
    using assms(3) by (auto simp: alone_def)
  ultimately show ?thesis unfolding alone_def by (intro exI [of _ "Inr 0 # ss"]) simp
qed

lemma alone_scan:
  assumes "list_all (\<lambda>p. \<not> holds_write p) (pcs st)" "toks = query_toks ra (options (store (mem st))) q"
    "alone ra jobs q st (matched_pc q (scan_result (mem st) (scan_all (mem st) toks is best))) p'"
  shows "alone ra jobs q st (Query_scan is best) p'"
  using assms(3)
proof (induction "is" arbitrary: best)
  case Nil
  show ?case
    by (rule alone_step [OF assms(1)]) (use Nil in \<open>simp_all add: scan_all_def\<close>)
next
  case (Cons i js)
  have "alone ra jobs q st (Query_scan js (scan_one (mem st) toks i best)) p'"
    using Cons.prems by (intro Cons.IH) (simp add: scan_all_def)
  from alone_step [OF assms(1) _ this] show ?case by (simp add: assms(2))
qed

definition query_answer :: "('re \<Rightarrow> rstr \<Rightarrow> rstr \<Rightarrow> cow) \<Rightarrow> query \<Rightarrow> 're miner \<Rightarrow> query_pc" where
  "query_answer ra q m =
     (case q of
        Match line \<Rightarrow> Matched (match_only ra line m)
      | Extract line \<Rightarrow> Extracted (miner_extract ra line m))"

lemma query_alone_run:
  assumes inv: "miner_inv m"
  shows "alone ra jobs q (launch m jobs) Asked (query_answer ra q m)"
proof -
  let ?st = "launch m jobs" and ?toks = "line_tokens ra (options m) (query_line q)"
  have st: "mem ?st = \<lparr>store = m, live = fmdom (clusters_by_id m)\<rparr>" by (simp add: launch_def)
  have free: "list_all (\<lambda>p. \<not> holds_write p) (pcs ?st)" by (simp add: launch_def list_all_iff)
  have toks: "query_toks ra (options (store (mem ?st))) q = ?toks"
    by (simp add: st query_toks_def tokens_for_query_eq)
  note step = alone_step [OF free, where q = q and ra = ra, unfolded toks]
  have mo: "match_only ra (query_line q) m = winner m ?toks" by (rule match_only_winner [OF inv])
  have matched: "alone ra jobs q ?st (matched_pc q (winner m ?toks)) (query_answer ra q m)"
  proof (cases q)
    case (Match line)
    then show ?thesis using mo alone_refl by (simp add: matched_pc_def query_answer_def)
  next
    case (Extract line)
    show ?thesis
    proof (cases "winner m ?toks")
      case None
      with Extract mo show ?thesis
        using alone_refl by (simp add: matched_pc_def query_answer_def miner_extract_def)
    next
      case (Some i)
      then obtain b where b: "body_of m i = Some b"
        using winner_Some(1) index_okD [OF inv] by (fastforce simp: home_def)
      have a: "query_answer ra q m = Extracted (Some (i, extract_loop (wildcard (options m)) (tokens b) ?toks))"
        using Extract mo Some b
        by (simp add: query_answer_def miner_extract_def Let_def tokens_for_query_eq)
      have "alone ra jobs q ?st (Looked_up i) (query_answer ra q m)"
        by (rule step [where ?p1.0 = "Body_got i"], simp add: st fmdomI [OF b], rule step)
          (simp add: st b, simp add: a alone_refl)
      with Extract Some show ?thesis by (simp add: matched_pc_def)
    qed
  qed
  show ?thesis
  proof (cases "fmlookup (shards m) (length ?toks)")
    case None
    then have none: "winner m ?toks = None" by (simp add: winner_def home_def bucket_def)
    show ?thesis
      by (rule step [where ?p1.0 = "matched_pc q None"]) (use matched None none in \<open>simp_all add: st\<close>)
  next
    case s: (Some s)
    have home: "home m ?toks = leaf_ids (descend (root s) (descent_keys (options m) ?toks))"
      using s by (simp add: home_def bucket_lookup)
    have got: "alone ra jobs q ?st Shard_got (query_answer ra q m)"
    proof (cases "descend (root s) (descent_keys (options m) ?toks)")
      case None
      then have none: "winner m ?toks = None" by (simp add: winner_def home)
      show ?thesis
        by (rule step [where ?p1.0 = "matched_pc q None"]) (use matched None none s in \<open>simp_all add: st\<close>)
    next
      case (Some leaf)
      have "scan_result (mem ?st) (scan_all (mem ?st) ?toks (ids leaf) None) = winner m ?toks"
        using scan_finds_winner [OF inv, of "mem ?st" ?toks] Some by (simp add: st home same_index_refl)
      then have scan: "alone ra jobs q ?st (Query_scan (ids leaf) None) (query_answer ra q m)"
        using matched by (intro alone_scan [OF free toks [symmetric]]) simp
      show ?thesis
        by (rule step [where ?p1.0 = "Query_scan (ids leaf) None"]) (use scan Some s in \<open>simp_all add: st\<close>)
    qed
    show ?thesis by (rule step [where ?p1.0 = Shard_got]) (use got s in \<open>simp_all add: st\<close>)
  qed
qed

lemma read_back_fill:
  assumes "read_back \<mu> toks i ps" "options (store \<mu>) = opt"
  shows "\<exists>b b'. heap \<mu> i = Some b' \<and> grows opt b b' \<and> passes opt (score (tokens b) toks (wildcard opt)) \<and>
    ps = extract_loop (wildcard opt) (tokens b) toks \<and>
    (matches_all (tokens b) toks (wildcard opt) \<longrightarrow> fill (wildcard opt) (tokens b) ps = map tok_text toks)"
  using assms fill_extract_loop unfolding read_back_def by blast

section \<open>Properties\<close>

text \<open>
  C12.  Queries and ingest together never panic, deadlock or run on.  Every schedule of ingesting
  threads and queries makes at most \<open>13 + 3 * max_clusters_per_leaf\<close> steps per thread and
  \<open>5 + max_clusters_per_leaf\<close> per query; in every state it reaches the next access of each
  thread and of each query without an answer succeeds; and as long as one of them is unfinished
  one of them can go on.
\<close>

theorem queries_beside_ingest_terminate:
  assumes "miner_inv m" "unat (counter m) + length jobs < 2 ^ 64"
    "run_mixed ra jobs queries ss (launch_mixed m jobs queries) = Some (st, qs)"
  shows "length ss \<le> length jobs * (13 + 3 * max_clusters_per_leaf (options m)) +
      length queries * (5 + max_clusters_per_leaf (options m)) \<and>
    (\<nexists>k now. k < length jobs \<and> thread_step ra jobs k now st = None) \<and>
    (\<nexists>l. l < length queries \<and> \<not> answered (qs ! l) \<and>
      query_next (query_at ra queries st l) (queries ! l) (qs ! l) (mem st) = None) \<and>
    (list_all finished (pcs st) \<and> list_all answered qs \<or>
      (\<exists>s c. mixed_next ra jobs queries s (st, qs) = Some c))"
proof -
  note start = mixed_inv_launch [OF assms(1,2), of ra queries]
  note inv = run_mixed_inv(1) [OF start assms(3)]
  then have c: "cinv ra jobs st" and len: "length qs = length queries"
    and ok: "\<And>l. l < length qs \<Longrightarrow> query_ok (mem st) (query_at ra queries st l) (qs ! l)"
    by (auto simp: mixed_inv_def)
  have "thread_step ra jobs k now st \<noteq> None" if "k < length jobs" for k now
    by (rule thread_step_ok [OF c, of k now]) (use that cinvD(1) [OF c] in auto)
  moreover have "query_next (query_at ra queries st l) (queries ! l) (qs ! l) (mem st) \<noteq> None"
    if "l < length queries" "\<not> answered (qs ! l)" for l
    using query_next_ok [OF cinvD(2) [OF c] ok that(2), of "queries ! l"] that(1) len by auto
  ultimately show ?thesis
    using run_mixed_bound [OF start assms(3)] mixed_progress [OF inv] by (auto simp: mixed_rank_launch)
qed

text \<open>The query for the line a, beside the two threads of the race, which have not begun.\<close>

lemma two_clusters_match: "match_only no_match (str ''a'') two_clusters = Some 1"
  by code_simp

lemma query_two_clusters:
  "\<exists>ss. run_mixed no_match race_jobs [Match (str ''a'')] ss
     (launch_mixed two_clusters race_jobs [Match (str ''a'')]) =
     Some (launch two_clusters race_jobs, [Matched (Some 1)])"
  using query_alone_run [OF two_clusters_ok(1), of no_match race_jobs "Match (str ''a'')"] two_clusters_match
  by (simp add: alone_def launch_mixed_def query_answer_def)

theorem queries_beside_ingest_terminate_witness:
  "\<exists>ss st qs. run_mixed no_match race_jobs [Match (str ''a'')] ss
      (launch_mixed two_clusters race_jobs [Match (str ''a'')]) = Some (st, qs) \<and>
    length ss \<le> 45 \<and> (\<exists>s c. mixed_next no_match race_jobs [Match (str ''a'')] s (st, qs) = Some c)"
proof -
  obtain ss where ss: "run_mixed no_match race_jobs [Match (str ''a'')] ss
      (launch_mixed two_clusters race_jobs [Match (str ''a'')]) =
      Some (launch two_clusters race_jobs, [Matched (Some 1)])"
    using query_two_clusters by blast
  have "\<not> list_all finished (pcs (launch two_clusters race_jobs))"
    by (simp add: launch_def race_jobs_def finished_def)
  then have "\<exists>s c. mixed_next no_match race_jobs [Match (str ''a'')] s
      (launch two_clusters race_jobs, [Matched (Some 1)]) = Some c"
    using queries_beside_ingest_terminate [OF two_clusters_ok(1) race_room ss] by blast
  moreover have "length ss \<le> 45"
    using queries_beside_ingest_terminate [OF two_clusters_ok(1) race_room ss]
    by (simp add: two_clusters_ok(2) flat_options_def race_jobs_def)
  ultimately show ?thesis using ss by blast
qed



text \<open>
  C16.  A query that runs alone is the sequential one: beside threads that have not begun, it
  can be run to its end, leaves the state as it is, and answers what
  \<^verbatim>\<open>match_only\<close> or \<^verbatim>\<open>extract\<close> of the sequential model answers.
\<close>

theorem query_alone_is_sequential:
  assumes "miner_inv m"
  shows "\<exists>ss. run_mixed ra jobs [q] ss (launch_mixed m jobs [q]) =
    Some (launch m jobs,
      [case q of Match line \<Rightarrow> Matched (match_only ra line m) | Extract line \<Rightarrow> Extracted (miner_extract ra line m)])"
  using query_alone_run [OF assms, of ra jobs q]
  by (auto simp: alone_def launch_mixed_def query_answer_def split: query.splits)

theorem query_alone_is_sequential_witness:
  "\<exists>ss. run_mixed no_match race_jobs [Extract (str ''a'')] ss
     (launch_mixed two_clusters race_jobs [Extract (str ''a'')]) =
     Some (launch two_clusters race_jobs, [Extracted (miner_extract no_match (str ''a'') two_clusters)])"
  using query_alone_is_sequential [OF two_clusters_ok(1), of no_match race_jobs "Extract (str ''a'')"]
  by simp

end
