(* ===== verification/Cli_Text.thy ===== *)
theory Cli_Text
  imports Tokenize
begin

text \<open>
  The text helpers of \<^verbatim>\<open>crates/logdrain-cli/src/main.rs\<close> and the standard-library
  string functions it calls: escapes, substring search, trimming, integer parsing, the splitting
  of a byte stream and lossy UTF-8 decoding.
\<close>

section \<open>Escapes\<close>

text \<open>92 is the backslash; 110, 114, 116 and 48 are n, r, t and the digit zero.\<close>

fun unescape_loop :: "rstr \<Rightarrow> rstr \<Rightarrow> rstr" where
  "unescape_loop out [] = out"
| "unescape_loop out [c] = out @ [c]"
| "unescape_loop out (c # d # rest) =
     (if c \<noteq> 92 then unescape_loop (out @ [c]) (d # rest)
      else if d = 110 then unescape_loop (out @ [10]) rest
      else if d = 114 then unescape_loop (out @ [13]) rest
      else if d = 116 then unescape_loop (out @ [9]) rest
      else if d = 48 then unescape_loop (out @ [0]) rest
      else if d = 92 then unescape_loop (out @ [92]) rest
      else unescape_loop (out @ [92, d]) rest)"

definition unescape :: "rstr \<Rightarrow> rstr" where
  "unescape s = unescape_loop [] s"

text \<open>The escaping that \<open>unescape\<close> undoes.\<close>

definition escape_char :: "rchar \<Rightarrow> rstr" where
  "escape_char c =
     (if c = 10 then [92, 110] else if c = 13 then [92, 114] else if c = 9 then [92, 116]
      else if c = 0 then [92, 48] else if c = 92 then [92, 92] else [c])"

lemma unescape_loop_plain: "c \<noteq> 92 \<Longrightarrow> unescape_loop out (c # s) = unescape_loop (out @ [c]) s"
  by (cases s) auto

lemma unescape_loop_escape: "unescape_loop out (escape_char c @ s) = unescape_loop (out @ [c]) s"
  by (simp add: escape_char_def unescape_loop_plain)

section \<open>Trimming and integers\<close>

definition trim :: "rstr \<Rightarrow> rstr" where
  "trim s = rev (dropWhile is_whitespace (rev (dropWhile is_whitespace s)))"

text \<open>\<^verbatim>\<open>str::parse::<i64>\<close>: an optional sign, at least one digit, and the range.\<close>

fun digits_value :: "int \<Rightarrow> rstr \<Rightarrow> int" where
  "digits_value acc [] = acc"
| "digits_value acc (c # cs) = digits_value (acc * 10 + (int c - 48)) cs"

definition parse_i64 :: "rstr \<Rightarrow> int option" where
  "parse_i64 s =
     (let (neg, ds) =
        (case s of [] \<Rightarrow> (False, [])
         | c # cs \<Rightarrow> if c = 45 then (True, cs) else if c = 43 then (False, cs) else (False, s))
      in if ds = [] \<or> \<not> list_all is_ascii_digit ds then None
         else
           let v = (if neg then - digits_value 0 ds else digits_value 0 ds)
           in if - (2 ^ 63) \<le> v \<and> v < 2 ^ 63 then Some v else None)"

section \<open>Substring search\<close>

text \<open>
  \<^verbatim>\<open>hay.windows(needle.len()).position(|w| w == needle)\<close>, for a non-empty needle:
  the first position at which the needle starts.
\<close>

fun starts_with :: "'a list \<Rightarrow> 'a list \<Rightarrow> bool" where
  "starts_with [] hay = True"
| "starts_with (n # needle) [] = False"
| "starts_with (n # needle) (h # hay) = (n = h \<and> starts_with needle hay)"

fun find_sub :: "'a list \<Rightarrow> 'a list \<Rightarrow> nat option" where
  "find_sub [] needle = None"
| "find_sub (h # hay) needle =
     (if starts_with needle (h # hay) then Some 0 else map_option Suc (find_sub hay needle))"

lemma starts_with_iff: "starts_with needle hay \<longleftrightarrow> take (length needle) hay = needle"
  by (induction needle hay rule: starts_with.induct) auto

lemma starts_with_append: "starts_with needle hay \<Longrightarrow> starts_with needle (hay @ suff)"
  by (induction needle hay rule: starts_with.induct) auto

lemma starts_with_length: "starts_with needle hay \<Longrightarrow> length needle \<le> length hay"
  by (induction needle hay rule: starts_with.induct) auto

lemma find_sub_Some:
  "find_sub hay needle = Some p \<Longrightarrow>
     p + length needle \<le> length hay \<and> p < length hay \<and> starts_with needle (drop p hay)"
proof (induction hay needle arbitrary: p rule: find_sub.induct)
  case (2 h hay needle)
  then show ?case
    using starts_with_length [of needle "h # hay"] by (fastforce split: if_splits)
qed simp

lemma find_sub_first: "find_sub hay needle = Some p \<Longrightarrow> q < p \<Longrightarrow> \<not> starts_with needle (drop q hay)"
proof (induction hay needle arbitrary: p q rule: find_sub.induct)
  case (2 h hay needle)
  then show ?case by (cases q) (auto split: if_splits)
qed simp

lemma find_sub_None: "find_sub hay needle = None \<Longrightarrow> p < length hay \<Longrightarrow> \<not> starts_with needle (drop p hay)"
proof (induction hay needle arbitrary: p rule: find_sub.induct)
  case (2 h hay needle)
  then show ?case by (cases p) (auto split: if_splits)
qed simp

text \<open>Reading more bytes does not move the first occurrence.\<close>

lemma find_sub_append: "find_sub hay needle = Some p \<Longrightarrow> find_sub (hay @ suff) needle = Some p"
proof (induction hay needle arbitrary: p rule: find_sub.induct)
  case (2 h hay needle)
  show ?case
  proof (cases "starts_with needle (h # hay)")
    case True
    with 2(2) starts_with_append [OF True, of suff] show ?thesis by simp
  next
    case False
    with 2(2) obtain k where k: "find_sub hay needle = Some k" "p = Suc k" by auto
    from find_sub_Some [OF k(1)] have "length needle \<le> length (h # hay)" by simp
    then have "take (length needle) ((h # hay) @ suff) = take (length needle) (h # hay)"
      by (simp only: take_append) simp
    then have "\<not> starts_with needle (h # hay @ suff)"
      using False by (simp add: starts_with_iff)
    with 2(1) [OF False k(1)] k(2) show ?thesis by simp
  qed
qed simp

section \<open>Lossy UTF-8 decoding\<close>

text \<open>
  \<^verbatim>\<open>String::from_utf8_lossy\<close>: well-formed sequences decode to their char, and each
  maximal prefix of an ill-formed one to U+FFFD (65533).
\<close>

definition cont :: "nat \<Rightarrow> bool" where
  "cont b \<longleftrightarrow> 128 \<le> b \<and> b \<le> 191"

definition second_of_three :: "nat \<Rightarrow> nat \<Rightarrow> bool" where
  "second_of_three a b \<longleftrightarrow>
     (if a = 224 then 160 \<le> b \<and> b \<le> 191 else if a = 237 then 128 \<le> b \<and> b \<le> 159 else cont b)"

definition second_of_four :: "nat \<Rightarrow> nat \<Rightarrow> bool" where
  "second_of_four a b \<longleftrightarrow>
     (if a = 240 then 144 \<le> b \<and> b \<le> 191 else if a = 244 then 128 \<le> b \<and> b \<le> 143 else cont b)"

text \<open>The char or replacement at the front, and how many bytes it takes.\<close>

definition lossy_char :: "nat list \<Rightarrow> rchar \<times> nat" where
  "lossy_char bs =
     (case bs of
        [] \<Rightarrow> (65533, 1)
      | a # rest \<Rightarrow>
          if a < 128 then (a, 1)
          else if 194 \<le> a \<and> a \<le> 223 then
            (case rest of
               b # _ \<Rightarrow> if cont b then ((a - 192) * 64 + (b - 128), 2) else (65533, 1)
             | [] \<Rightarrow> (65533, 1))
          else if 224 \<le> a \<and> a \<le> 239 then
            (case rest of
               b # rest' \<Rightarrow>
                 if \<not> second_of_three a b then (65533, 1)
                 else (case rest' of
                   c # _ \<Rightarrow>
                     if cont c then ((a - 224) * 4096 + (b - 128) * 64 + (c - 128), 3) else (65533, 2)
                 | [] \<Rightarrow> (65533, 2))
             | [] \<Rightarrow> (65533, 1))
          else if 240 \<le> a \<and> a \<le> 244 then
            (case rest of
               b # rest' \<Rightarrow>
                 if \<not> second_of_four a b then (65533, 1)
                 else (case rest' of
                   c # rest'' \<Rightarrow>
                     if \<not> cont c then (65533, 2)
                     else (case rest'' of
                       d # _ \<Rightarrow>
                         if cont d
                         then ((a - 240) * 262144 + (b - 128) * 4096 + (c - 128) * 64 + (d - 128), 4)
                         else (65533, 3)
                     | [] \<Rightarrow> (65533, 3))
                 | [] \<Rightarrow> (65533, 2))
             | [] \<Rightarrow> (65533, 1))
          else (65533, 1))"

function lossy_loop :: "nat list \<Rightarrow> rstr" where
  "lossy_loop [] = []"
| "lossy_loop (b # bs) =
     (case lossy_char (b # bs) of (c, n) \<Rightarrow> c # lossy_loop (drop (n - 1) bs))"
  by pat_completeness auto
termination by (relation "measure length") auto

definition from_utf8_lossy :: "u8 list \<Rightarrow> rstr" where
  "from_utf8_lossy bytes = lossy_loop (map unat bytes)"

text \<open>\<^verbatim>\<open>String::into_bytes\<close>.\<close>

definition utf8_char :: "rchar \<Rightarrow> nat list" where
  "utf8_char c =
     (if c < 128 then [c]
      else if c < 2048 then [192 + c div 64, 128 + c mod 64]
      else if c < 65536 then [224 + c div 4096, 128 + c div 64 mod 64, 128 + c mod 64]
      else [240 + c div 262144, 128 + c div 4096 mod 64, 128 + c div 64 mod 64, 128 + c mod 64])"

definition into_bytes :: "rstr \<Rightarrow> u8 list" where
  "into_bytes s = map of_nat (concat (map utf8_char s))"

text \<open>A char is a Unicode scalar value.\<close>

definition scalar :: "rchar \<Rightarrow> bool" where
  "scalar c \<longleftrightarrow> c < 55296 \<or> 57344 \<le> c \<and> c < 1114112"

lemma scalar_split:
  fixes c :: nat
  shows "c div 64 * 64 + c mod 64 = c"
    "c div 4096 * 4096 + c div 64 mod 64 * 64 + c mod 64 = c"
    "c div 262144 * 262144 + c div 4096 mod 64 * 4096 + c div 64 mod 64 * 64 + c mod 64 = c"
proof -
  have a: "c div 4096 = c div 64 div 64" "c div 262144 = c div 64 div 64 div 64"
    by (simp_all add: div_mult2_eq [symmetric])
  note m1 = div_mult_mod_eq [of c 64] and m2 = div_mult_mod_eq [of "c div 64" 64]
    and m3 = div_mult_mod_eq [of "c div 64 div 64" 64]
  show "c div 64 * 64 + c mod 64 = c" by (rule m1)
  show "c div 4096 * 4096 + c div 64 mod 64 * 64 + c mod 64 = c"
    unfolding a using m1 m2 by linarith
  show "c div 262144 * 262144 + c div 4096 mod 64 * 4096 + c div 64 mod 64 * 64 + c mod 64 = c"
    unfolding a using m1 m2 m3 by linarith
qed

lemma mod_64_le [simp]: "(c :: nat) mod 64 \<le> 63"
  using mod_less_divisor [of 64 c] by linarith

lemma lossy_char_utf8:
  assumes "scalar c"
  shows "lossy_char (utf8_char c @ rest) = (c, length (utf8_char c))"
proof -
  consider "c < 128" | "128 \<le> c" "c < 2048" | "2048 \<le> c" "c < 65536" | "65536 \<le> c" by linarith
  then show ?thesis
  proof cases
    case 1
    then show ?thesis by (simp add: utf8_char_def lossy_char_def)
  next
    case 2
    then have "2 \<le> c div 64" "c div 64 < 32" by auto
    with 2 scalar_split(1) [of c] show ?thesis
      by (simp add: utf8_char_def lossy_char_def cont_def)
  next
    case 3
    have b: "c div 4096 < 16" using 3 by auto
    have e0: "c div 4096 = 0 \<Longrightarrow> 32 \<le> c div 64 mod 64" using 3 by auto
    have ed: "c div 4096 = 13 \<Longrightarrow> c div 64 mod 64 < 32"
    proof -
      assume 13: "c div 4096 = 13"
      then have "c < 55296" using assms 3 by (auto simp: scalar_def)
      then have "c div 64 < 864" by auto
      moreover have "c div 64 div 64 = 13" using 13 by (simp add: div_mult2_eq [symmetric])
      ultimately show ?thesis using div_mult_mod_eq [of "c div 64" 64] by linarith
    qed
    show ?thesis
      using 3 b e0 ed scalar_split(2) [of c]
      by (auto simp: utf8_char_def lossy_char_def cont_def second_of_three_def)
  next
    case 4
    have c: "c < 1114112" using assms by (auto simp: scalar_def)
    have b: "c div 262144 < 5" using c by auto
    have f0: "c div 262144 = 0 \<Longrightarrow> 16 \<le> c div 4096 mod 64" using 4 by auto
    have f4: "c div 262144 = 4 \<Longrightarrow> c div 4096 mod 64 < 16"
    proof -
      assume 4: "c div 262144 = 4"
      have "c div 4096 < 272" using c by auto
      moreover have "c div 4096 div 64 = 4" using 4 by (simp add: div_mult2_eq [symmetric])
      ultimately show ?thesis using div_mult_mod_eq [of "c div 4096" 64] by linarith
    qed
    show ?thesis
      using 4 b f0 f4 scalar_split(3) [of c]
      by (auto simp: utf8_char_def lossy_char_def cont_def second_of_four_def)
  qed
qed

lemma utf8_char_bytes: "scalar c \<Longrightarrow> utf8_char c \<noteq> [] \<and> (\<forall>b \<in> set (utf8_char c). b < 256)"
  by (auto simp: utf8_char_def scalar_def)

lemma lossy_loop_utf8:
  "list_all scalar s \<Longrightarrow> lossy_loop (concat (map utf8_char s)) = s"
proof (induction s)
  case (Cons c s)
  then have sc: "scalar c" by simp
  obtain b bs where b: "utf8_char c = b # bs" using utf8_char_bytes [OF sc] by (cases "utf8_char c") auto
  have "lossy_loop (b # bs @ concat (map utf8_char s)) =
      c # lossy_loop (drop (length (utf8_char c) - 1) (bs @ concat (map utf8_char s)))"
    using lossy_char_utf8 [OF sc, of "concat (map utf8_char s)"] b by simp
  with Cons b show ?case by simp
qed simp

section \<open>Properties\<close>

text \<open>
  Escapes are interpreted exactly: a separator in which newline, carriage return, tab, NUL
  and backslash are written as escapes is unescaped to itself, and text without a backslash is
  taken as it is.
\<close>

theorem unescape_escape:
  "unescape (concat (map escape_char s)) = s \<and> (92 \<notin> set s \<longrightarrow> unescape s = s)"
proof -
  have "unescape_loop out (concat (map escape_char s)) = out @ s" for out
    by (induction s arbitrary: out) (simp_all add: unescape_loop_escape)
  moreover have "92 \<notin> set s \<Longrightarrow> unescape_loop out s = out @ s" for out
    by (induction s arbitrary: out) (auto simp: unescape_loop_plain)
  ultimately show ?thesis by (simp add: unescape_def)
qed

theorem unescape_escape_witness: "unescape (str ''||'') = str ''||''"
  using unescape_escape [of "str ''||'' "] by simp

text \<open>
  Decoding undoes encoding: the bytes of a string of Unicode scalar values decode to that
  string, so a record of well-formed UTF-8 reaches the miner unchanged and the replacement
  character stands only for ill-formed bytes.
\<close>

theorem utf8_roundtrip:
  assumes "list_all scalar s"
  shows "from_utf8_lossy (into_bytes s) = s"
proof -
  have "map (unat \<circ> (of_nat :: nat \<Rightarrow> u8)) bs = bs" if "\<forall>b \<in> set bs. b < 256" for bs
    using that by (induction bs) (simp_all add: unat_of_nat)
  moreover have "\<forall>b \<in> set (concat (map utf8_char s)). b < 256"
    using assms utf8_char_bytes by (fastforce simp: list_all_iff)
  ultimately show ?thesis
    using lossy_loop_utf8 [OF assms] by (simp add: from_utf8_lossy_def into_bytes_def)
qed

theorem utf8_roundtrip_witness:
  "from_utf8_lossy (into_bytes [104, 233, 8364, 128512]) = [104, 233, 8364, 128512]"
  by (rule utf8_roundtrip) (simp add: scalar_def)

end
