(* ===== verification/Cli_Ingest.thy ===== *)
theory Cli_Ingest
  imports Cli_Text Ingest
begin

text \<open>
  Model of the ingest half of \<^verbatim>\<open>crates/logdrain-cli/src/main.rs\<close> and of
  \<^verbatim>\<open>crates/logdrain-cli/src/input.rs\<close>: pulling the message and the event time out of
  a record, feeding the miner, and the three ways of assembling records from a stream.

  The crates \<^verbatim>\<open>serde_json\<close> and \<^verbatim>\<open>chrono\<close> and the start expression of
  \<^verbatim>\<open>--multiline-start\<close> are parameters.  A reader is the list of the results of
  its \<^verbatim>\<open>lines()\<close> or \<^verbatim>\<open>read()\<close> calls, an I/O error being its
  message.  \<open>None\<close> is a panic.
\<close>

section \<open>Extracting a field\<close>

text \<open>What the sources use of a \<^verbatim>\<open>serde_json::Value\<close>.\<close>

record 'v json_lib =
  from_str :: "rstr \<Rightarrow> 'v option"
  get_key :: "'v \<Rightarrow> rstr \<Rightarrow> 'v option"
  as_string :: "'v \<Rightarrow> rstr option"
  is_null :: "'v \<Rightarrow> bool"
  to_compact :: "'v \<Rightarrow> rstr"

fun walk_path :: "'v json_lib \<Rightarrow> 'v \<Rightarrow> rstr list \<Rightarrow> 'v option" where
  "walk_path js cur [] = Some cur"
| "walk_path js cur (k # ks) =
     (case get_key js cur k of None \<Rightarrow> None | Some next \<Rightarrow> walk_path js next ks)"

text \<open>46 is the full stop.\<close>

definition extract_field :: "'v json_lib \<Rightarrow> rstr \<Rightarrow> rstr \<Rightarrow> rstr option" where
  "extract_field js line path =
     (case from_str js line of
        None \<Rightarrow> None
      | Some doc \<Rightarrow>
          (case walk_path js doc (split_on (\<lambda>c. c = 46) path) of
             None \<Rightarrow> None
           | Some cur \<Rightarrow>
               (case as_string js cur of
                  Some s \<Rightarrow> Some s
                | None \<Rightarrow> if is_null js cur then None else Some (to_compact js cur))))"

section \<open>Event times\<close>

text \<open>The three parsers of \<^verbatim>\<open>chrono\<close>, as \<^verbatim>\<open>timestamp_millis\<close> of their result.\<close>

record chrono_lib =
  parse_offset :: "rstr \<Rightarrow> rstr \<Rightarrow> int option"
  parse_naive_utc :: "rstr \<Rightarrow> rstr \<Rightarrow> int option"
  parse_rfc3339 :: "rstr \<Rightarrow> int option"

definition u64_try_from :: "int \<Rightarrow> u64 option" where
  "u64_try_from n = (if n < 0 then None else Some (word_of_int n))"

definition scale_epoch :: "int \<Rightarrow> u64 option" where
  "scale_epoch i =
     (case u64_try_from i of
        None \<Rightarrow> None
      | Some n \<Rightarrow>
          Some (if n < 100000000000 then n * 1000
                else if n < 100000000000000 then n
                else if n < 100000000000000000 then n div 1000
                else n div 1000000))"

definition parse_event_ms :: "chrono_lib \<Rightarrow> rstr \<Rightarrow> rstr option \<Rightarrow> u64 option" where
  "parse_event_ms ch val0 format =
     (let val = trim val0 in
      case format of
        Some fmt \<Rightarrow>
          (case parse_offset ch val fmt of
             Some ms \<Rightarrow> u64_try_from ms
           | None \<Rightarrow>
               (case parse_naive_utc ch val fmt of None \<Rightarrow> None | Some ms \<Rightarrow> u64_try_from ms))
      | None \<Rightarrow>
          (case parse_i64 val of
             Some n \<Rightarrow> scale_epoch n
           | None \<Rightarrow> (case parse_rfc3339 ch val of None \<Rightarrow> None | Some ms \<Rightarrow> u64_try_from ms)))"

section \<open>The ingestor\<close>

record ingestor =
  msg_key :: "rstr option"
  time_key :: "rstr option"
  time_format :: "rstr option"

text \<open>
  What stays fixed during a run: the regular expressions, the two libraries, the clock (the
  reading of the ingest that draws a tick) and the configuration.
\<close>

record ('re, 'v) cli_env =
  env_replace :: "'re \<Rightarrow> rstr \<Rightarrow> rstr \<Rightarrow> cow"
  env_json :: "'v json_lib"
  env_chrono :: chrono_lib
  env_clock :: "u64 \<Rightarrow> systime"
  env_ing :: ingestor

record 're ingest_state =
  st_miner :: "'re miner"
  time_parse_failures :: u64

definition event_ms :: "('re, 'v) cli_env \<Rightarrow> rstr \<Rightarrow> 're ingest_state \<Rightarrow> u64 option \<times> 're ingest_state" where
  "event_ms env line st =
     (case time_key (env_ing env) of
        None \<Rightarrow> (None, st)
      | Some tk \<Rightarrow>
          let parsed =
            (case extract_field (env_json env) line tk of
               None \<Rightarrow> None
             | Some v \<Rightarrow> parse_event_ms (env_chrono env) v (time_format (env_ing env)))
          in (parsed,
              if parsed = None then st\<lparr>time_parse_failures := time_parse_failures st + 1\<rparr> else st))"

definition ing_add ::
    "('re, 'v) cli_env \<Rightarrow> rstr \<Rightarrow> u64 option \<Rightarrow> 're ingest_state \<Rightarrow> 're ingest_state option" where
  "ing_add env msg ev st =
     (let m = st_miner st; now = env_clock env (tick m) in
      map_option (\<lambda>(_, m'). st\<lparr>st_miner := m'\<rparr>)
        (case ev of
           Some ms \<Rightarrow> add_at (env_replace env) now msg ms m
         | None \<Rightarrow> add (env_replace env) now msg m))"

definition feed :: "('re, 'v) cli_env \<Rightarrow> rstr \<Rightarrow> 're ingest_state \<Rightarrow> 're ingest_state option" where
  "feed env line st =
     (let (ev, st1) = event_ms env line st in
      case msg_key (env_ing env) of
        Some k \<Rightarrow>
          (case extract_field (env_json env) line k of
             Some msg \<Rightarrow> ing_add env msg ev st1
           | None \<Rightarrow> Some st1)
      | None \<Rightarrow> if trim line \<noteq> [] then ing_add env line ev st1 else Some st1)"

section \<open>Record assembly\<close>

fun ingest_reader ::
    "('re, 'v) cli_env \<Rightarrow> (rstr + rstr) list \<Rightarrow> 're ingest_state \<Rightarrow>
     ((rstr + unit) \<times> 're ingest_state) option" where
  "ingest_reader env [] st = Some (Inr (), st)"
| "ingest_reader env (Inl e # ls) st = Some (Inl e, st)"
| "ingest_reader env (Inr line # ls) st =
     (case feed env line st of None \<Rightarrow> None | Some st' \<Rightarrow> ingest_reader env ls st')"

fun multiline_loop ::
    "('re, 'v) cli_env \<Rightarrow> (rstr \<Rightarrow> bool) \<Rightarrow> (rstr + rstr) list \<Rightarrow> rstr \<Rightarrow> 're ingest_state \<Rightarrow>
     ((rstr + unit) \<times> 're ingest_state) option" where
  "multiline_loop env is_match [] rec st =
     (if rec \<noteq> [] then map_option (Pair (Inr ())) (feed env rec st) else Some (Inr (), st))"
| "multiline_loop env is_match (Inl e # ls) rec st = Some (Inl e, st)"
| "multiline_loop env is_match (Inr line # ls) rec st =
     (case (if is_match line \<and> rec \<noteq> [] then map_option (Pair []) (feed env rec st)
            else Some (rec, st)) of
        None \<Rightarrow> None
      | Some (rec1, st1) \<Rightarrow>
          let rec2 = (if rec1 \<noteq> [] then rec1 @ [10] else rec1)
          in multiline_loop env is_match ls (rec2 @ line) st1)"

definition ingest_multiline_start ::
    "('re, 'v) cli_env \<Rightarrow> (rstr \<Rightarrow> bool) \<Rightarrow> (rstr + rstr) list \<Rightarrow> 're ingest_state \<Rightarrow>
     ((rstr + unit) \<times> 're ingest_state) option" where
  "ingest_multiline_start env is_match ls st = multiline_loop env is_match ls [] st"

text \<open>The inner loop of \<^verbatim>\<open>ingest_separated\<close>; \<^verbatim>\<open>windows(0)\<close> panics.\<close>

function drain_loop ::
    "('re, 'v) cli_env \<Rightarrow> u8 list \<Rightarrow> u8 list \<Rightarrow> 're ingest_state \<Rightarrow>
     (u8 list \<times> 're ingest_state) option" where
  "drain_loop env sep buf st =
     (if sep = [] then None
      else case find_sub buf sep of
        None \<Rightarrow> Some (buf, st)
      | Some pos \<Rightarrow>
          (case feed env (from_utf8_lossy (take pos buf)) st of
             None \<Rightarrow> None
           | Some st' \<Rightarrow> drain_loop env sep (drop (pos + length sep) buf) st'))"
  by pat_completeness auto
termination
  by (relation "measure (\<lambda>(env, sep, buf, st). length buf)")
    (auto dest!: find_sub_Some simp flip: length_greater_0_conv)

declare drain_loop.simps [simp del]

text \<open>A read of no bytes is the end of the input.\<close>

fun separated_loop ::
    "('re, 'v) cli_env \<Rightarrow> u8 list \<Rightarrow> (rstr + u8 list) list \<Rightarrow> u8 list \<Rightarrow> 're ingest_state \<Rightarrow>
     ((rstr + unit) \<times> 're ingest_state) option" where
  "separated_loop env sep [] buf st =
     (if buf \<noteq> [] then map_option (Pair (Inr ())) (feed env (from_utf8_lossy buf) st)
      else Some (Inr (), st))"
| "separated_loop env sep (Inl e # reads) buf st = Some (Inl e, st)"
| "separated_loop env sep (Inr chunk # reads) buf st =
     (if chunk = [] then separated_loop env sep [] buf st
      else
        (case drain_loop env sep (buf @ chunk) st of
           None \<Rightarrow> None
         | Some (buf', st') \<Rightarrow> separated_loop env sep reads buf' st'))"

definition ingest_separated ::
    "('re, 'v) cli_env \<Rightarrow> u8 list \<Rightarrow> (rstr + u8 list) list \<Rightarrow> 're ingest_state \<Rightarrow>
     ((rstr + unit) \<times> 're ingest_state) option" where
  "ingest_separated env sep reads st = separated_loop env sep reads [] st"

text \<open>An input source, as the strategy that reads it sees it.\<close>

record source =
  src_lines :: "(rstr + rstr) list"
  src_reads :: "(rstr + u8 list) list"

definition ingest_source ::
    "('re, 'v) cli_env \<Rightarrow> source \<Rightarrow> u8 list option \<Rightarrow> (rstr \<Rightarrow> bool) option \<Rightarrow> 're ingest_state \<Rightarrow>
     ((rstr + unit) \<times> 're ingest_state) option" where
  "ingest_source env src sep start st =
     (case (sep, start) of
        (Some s, _) \<Rightarrow> ingest_separated env s (src_reads src) st
      | (None, Some re) \<Rightarrow> ingest_multiline_start env re (src_lines src) st
      | (None, None) \<Rightarrow> ingest_reader env (src_lines src) st)"

section \<open>Reference splitting\<close>

text \<open>Feeding a list of records.\<close>

fun feed_all :: "('re, 'v) cli_env \<Rightarrow> rstr list \<Rightarrow> 're ingest_state \<Rightarrow> 're ingest_state option" where
  "feed_all env [] st = Some st"
| "feed_all env (r # rs) st =
     (case feed env r st of None \<Rightarrow> None | Some st' \<Rightarrow> feed_all env rs st')"

lemma feed_all_append:
  "feed_all env (rs @ ss) st =
     (case feed_all env rs st of None \<Rightarrow> None | Some st' \<Rightarrow> feed_all env ss st')"
  by (induction rs arbitrary: st) (auto split: option.splits)

text \<open>The records of a whole byte string: the pieces before each separator, and the rest.\<close>

function split_sep :: "'a list \<Rightarrow> 'a list \<Rightarrow> 'a list list \<times> 'a list" where
  "split_sep sep buf =
     (if sep = [] then ([], buf)
      else case find_sub buf sep of
        None \<Rightarrow> ([], buf)
      | Some pos \<Rightarrow>
          (case split_sep sep (drop (pos + length sep) buf) of
             (rs, rest) \<Rightarrow> (take pos buf # rs, rest)))"
  by pat_completeness auto
termination
  by (relation "measure (\<lambda>(sep, buf). length buf)")
    (auto dest!: find_sub_Some simp flip: length_greater_0_conv)

declare split_sep.simps [simp del]

lemma split_sep_None: "find_sub buf sep = None \<Longrightarrow> split_sep sep buf = ([], buf)"
  by (simp add: split_sep.simps)

lemma split_sep_Some:
  "sep \<noteq> [] \<Longrightarrow> find_sub buf sep = Some pos \<Longrightarrow>
     split_sep sep buf =
       (take pos buf # fst (split_sep sep (drop (pos + length sep) buf)),
        snd (split_sep sep (drop (pos + length sep) buf)))"
  by (simp add: split_sep.simps [of sep buf] split_beta)

definition split_records :: "'a list \<Rightarrow> 'a list \<Rightarrow> 'a list list" where
  "split_records sep data =
     (case split_sep sep data of (rs, rest) \<Rightarrow> if rest = [] then rs else rs @ [rest])"

lemma split_sep_rest: "sep \<noteq> [] \<Longrightarrow> find_sub (snd (split_sep sep buf)) sep = None"
proof (induction sep buf rule: split_sep.induct)
  case (1 sep buf)
  show ?case
  proof (cases "find_sub buf sep")
    case (Some pos)
    with 1 show ?thesis by (simp add: split_sep_Some)
  qed (simp add: split_sep_None)
qed

lemma drain_loop_split:
  assumes "sep \<noteq> []"
  shows "drain_loop env sep buf st =
    map_option (\<lambda>st'. (snd (split_sep sep buf), st'))
      (feed_all env (map from_utf8_lossy (fst (split_sep sep buf))) st)"
  using assms
proof (induction sep buf arbitrary: st rule: split_sep.induct)
  case (1 sep buf)
  show ?case
  proof (cases "find_sub buf sep")
    case None
    then show ?thesis using 1(2) by (simp add: drain_loop.simps split_sep_None)
  next
    case (Some pos)
    show ?thesis
      using 1(1) [OF 1(2) Some] 1(2)
      by (simp add: drain_loop.simps [of env sep buf] Some split_sep_Some [OF 1(2) Some]
          split: option.splits)
  qed
qed

text \<open>Splitting in two steps: the first records do not change when more bytes arrive.\<close>

lemma split_sep_append:
  assumes "sep \<noteq> []"
  shows "split_sep sep (buf @ suff) =
    (fst (split_sep sep buf) @ fst (split_sep sep (snd (split_sep sep buf) @ suff)),
     snd (split_sep sep (snd (split_sep sep buf) @ suff)))"
  using assms
proof (induction sep buf rule: split_sep.induct)
  case (1 sep buf)
  show ?case
  proof (cases "find_sub buf sep")
    case None
    then show ?thesis by (simp add: split_sep_None)
  next
    case (Some pos)
    have le: "pos + length sep \<le> length buf" using find_sub_Some [OF Some] by simp
    note app = find_sub_append [OF Some, of suff]
    show ?thesis
      using 1(1) [OF 1(2) Some 1(2)] le
      by (simp add: split_sep_Some [OF 1(2) Some] split_sep_Some [OF 1(2) app])
  qed
qed

lemma separated_loop_split:
  assumes "sep \<noteq> []" "[] \<notin> set chunks" "find_sub buf sep = None"
  shows "separated_loop env sep (map Inr chunks) buf st =
    map_option (Pair (Inr ()))
      (feed_all env (map from_utf8_lossy (split_records sep (buf @ concat chunks))) st)"
  using assms(2,3)
proof (induction chunks arbitrary: buf st)
  case Nil
  then show ?case by (auto simp: split_records_def split_sep_None split: option.splits)
next
  case (Cons c chunks)
  obtain rs rest where sp: "split_sep sep (buf @ c) = (rs, rest)"
    by (cases "split_sep sep (buf @ c)")
  have rest: "find_sub rest sep = None"
    using split_sep_rest [OF assms(1), of "buf @ c"] sp by simp
  have "split_sep sep (buf @ c @ concat chunks) =
      (rs @ fst (split_sep sep (rest @ concat chunks)), snd (split_sep sep (rest @ concat chunks)))"
    using split_sep_append [OF assms(1), of "buf @ c" "concat chunks"] sp by simp
  then have rec: "split_records sep (buf @ c @ concat chunks) = rs @ split_records sep (rest @ concat chunks)"
    by (simp add: split_records_def split_beta)
  from Cons.prems Cons.IH [of rest] rest show ?case
    by (auto simp: drain_loop_split [OF assms(1)] sp rec feed_all_append split: option.splits)
qed

end
