(* ===== verification/Cli_Props.thy ===== *)
theory Cli_Props
  imports Cli_Ingest
begin

text \<open>
  Properties of the command line's ingest: the records of a stream do not depend on how it is
  read, the multi-line assembly loses no text, epoch scaling, and the refinement of a whole ingest
  to a run of the library.
\<close>

section \<open>Separated records\<close>

lemma split_sep_pieces:
  "sep \<noteq> [] \<Longrightarrow>
     buf = concat (map (\<lambda>r. r @ sep) (fst (split_sep sep buf))) @ snd (split_sep sep buf) \<and>
     list_all (\<lambda>r. find_sub r sep = None) (fst (split_sep sep buf))"
proof (induction sep buf rule: split_sep.induct)
  case (1 sep buf)
  show ?case
  proof (cases "find_sub buf sep")
    case None
    then show ?thesis by (simp add: split_sep_None)
  next
    case (Some pos)
    have at: "take (length sep) (drop pos buf) = sep"
      using find_sub_Some [OF Some] by (simp add: starts_with_iff)
    have "find_sub (take pos buf) sep = None"
    proof (rule ccontr)
      assume "find_sub (take pos buf) sep \<noteq> None"
      then obtain q where q: "find_sub (take pos buf) sep = Some q" by auto
      have "starts_with sep (drop q (take pos buf) @ drop pos buf)"
        using find_sub_Some [OF q] by (intro starts_with_append) simp
      moreover have "q < pos" using find_sub_Some [OF q] by simp
      moreover have "drop q (take pos buf) @ drop pos buf = drop q buf"
        using \<open>q < pos\<close> find_sub_Some [OF q]
        by (metis append_take_drop_id drop_append drop_take length_take less_or_eq_imp_le
            min_less_iff_conj diff_is_0_eq drop0)
      ultimately show False using find_sub_first [OF Some] by metis
    qed
    moreover have "buf = take pos buf @ sep @ drop (pos + length sep) buf"
      using at by (metis add.commute append_take_drop_id drop_drop)
    ultimately show ?thesis
      using 1(1) [OF 1(2) Some 1(2)] by (simp add: split_sep_Some [OF 1(2) Some])
  qed
qed

section \<open>Multi-line records\<close>

fun join_lines :: "rstr list \<Rightarrow> rstr" where
  "join_lines [] = []"
| "join_lines [l] = l"
| "join_lines (l # ls) = l @ 10 # join_lines ls"

definition open_lines :: "rstr \<Rightarrow> rstr list" where
  "open_lines l = (if l = [] then [] else [l])"

fun group_lines :: "(rstr \<Rightarrow> bool) \<Rightarrow> rstr list \<Rightarrow> rstr list \<Rightarrow> rstr list list" where
  "group_lines is_match [] cur = (if cur \<noteq> [] then [cur] else [])"
| "group_lines is_match (l # ls) cur =
     (if is_match l \<and> cur \<noteq> [] then cur # group_lines is_match ls (open_lines l)
      else group_lines is_match ls (if cur = [] then open_lines l else cur @ [l]))"

text \<open>A record in progress is empty or starts with a line that is not.\<close>

definition proper :: "rstr list \<Rightarrow> bool" where
  "proper cur \<longleftrightarrow> cur = [] \<or> hd cur \<noteq> []"

lemma proper_simps [simp]: "proper []" "proper (open_lines l)" "cur \<noteq> [] \<Longrightarrow> proper (cur @ ls) = proper cur"
  by (simp_all add: proper_def open_lines_def)

lemma join_lines_snoc: "ls \<noteq> [] \<Longrightarrow> join_lines (ls @ [l]) = join_lines ls @ 10 # l"
  by (induction ls rule: join_lines.induct) auto

lemma join_lines_open [simp]: "join_lines (open_lines l) = l"
  by (simp add: open_lines_def)

lemma join_lines_Nil_iff: "proper cur \<Longrightarrow> join_lines cur = [] \<longleftrightarrow> cur = []"
  by (cases cur rule: join_lines.cases) (auto simp: proper_def)

lemma multiline_loop_groups:
  "proper cur \<Longrightarrow>
     multiline_loop env is_match (map Inr ls) (join_lines cur) st =
       map_option (Pair (Inr ())) (feed_all env (map join_lines (group_lines is_match ls cur)) st)"
proof (induction ls arbitrary: cur st)
  case Nil
  then show ?case by (auto simp: join_lines_Nil_iff split: option.splits)
next
  case (Cons l ls)
  show ?case
  proof (cases "cur = []")
    case True
    with Cons.IH [of "open_lines l"] show ?thesis by simp
  next
    case False
    with Cons.prems have ne: "join_lines cur \<noteq> []" by (simp add: join_lines_Nil_iff)
    from Cons.IH [of "open_lines l"] Cons.IH [of "cur @ [l]"] Cons.prems False ne show ?thesis
      by (auto simp: join_lines_snoc Let_def split: option.splits)
  qed
qed

lemma group_lines_text:
  "filter (\<lambda>l. l \<noteq> []) (concat (group_lines is_match ls cur)) = filter (\<lambda>l. l \<noteq> []) (cur @ ls)"
  by (induction ls arbitrary: cur) (auto simp: open_lines_def)

lemma group_lines_shape:
  assumes "proper cur" "list_all (\<lambda>l. \<not> is_match l) (tl cur)"
  shows "list_all (\<lambda>g. g \<noteq> [] \<and> hd g \<noteq> [] \<and> list_all (\<lambda>l. \<not> is_match l) (tl g))
    (group_lines is_match ls cur)"
  using assms
proof (induction ls arbitrary: cur)
  case Nil
  then show ?case by (auto simp: proper_def)
next
  case (Cons l ls)
  have "proper (open_lines l)" "list_all (\<lambda>l. \<not> is_match l) (tl (open_lines l))"
    by (simp, simp add: open_lines_def)
  from Cons.IH [OF this] Cons.IH [of "cur @ [l]"] Cons.prems show ?case
    by (cases cur) (auto simp: proper_def)
qed

lemma group_lines_head:
  "cur \<noteq> [] \<Longrightarrow> \<exists>g gs. group_lines is_match ls cur = g # gs \<and> hd g = hd cur"
proof (induction ls arbitrary: cur)
  case (Cons l ls)
  with Cons.IH [of "cur @ [l]"] show ?case by simp
qed simp

lemma group_lines_starts:
  "\<not> is_match [] \<Longrightarrow> list_all (\<lambda>g. is_match (hd g)) (tl (group_lines is_match ls cur))"
proof (induction ls arbitrary: cur)
  case (Cons l ls)
  show ?case
  proof (cases "is_match l \<and> cur \<noteq> []")
    case True
    with Cons.prems have "l \<noteq> []" by auto
    with group_lines_head [of "open_lines l" is_match ls] obtain g gs where
      g: "group_lines is_match ls (open_lines l) = g # gs" "hd g = l"
      by (auto simp: open_lines_def)
    with True Cons.IH [OF Cons.prems, of "open_lines l"] show ?thesis by simp
  next
    case False
    with Cons.IH [OF Cons.prems] show ?thesis by auto
  qed
qed simp

section \<open>A whole ingest\<close>

text \<open>The message of a record and its event time.\<close>

definition record_message :: "('re, 'v) cli_env \<Rightarrow> rstr \<Rightarrow> rstr option" where
  "record_message env line =
     (case msg_key (env_ing env) of
        Some k \<Rightarrow> extract_field (env_json env) line k
      | None \<Rightarrow> if trim line \<noteq> [] then Some line else None)"

definition record_time :: "('re, 'v) cli_env \<Rightarrow> rstr \<Rightarrow> u64 option" where
  "record_time env line =
     (case time_key (env_ing env) of
        None \<Rightarrow> None
      | Some tk \<Rightarrow>
          (case extract_field (env_json env) line tk of
             None \<Rightarrow> None
           | Some v \<Rightarrow> parse_event_ms (env_chrono env) v (time_format (env_ing env))))"

text \<open>The ingest commands of a list of records, the first of which draws the given tick.\<close>

fun record_cmds :: "('re, 'v) cli_env \<Rightarrow> u64 \<Rightarrow> rstr list \<Rightarrow> ingest_cmd list" where
  "record_cmds env t [] = []"
| "record_cmds env t (r # rs) =
     (case record_message env r of
        None \<Rightarrow> record_cmds env t rs
      | Some msg \<Rightarrow>
          \<lparr>cmd_at = env_clock env t, cmd_line = msg, cmd_member = None, cmd_event = record_time env r\<rparr>
          # record_cmds env (t + 1) rs)"

lemma record_cmds_fields:
  "map (\<lambda>c. (cmd_line c, cmd_member c, cmd_event c)) (record_cmds env t records) =
     List.map_filter (\<lambda>r. map_option (\<lambda>msg. (msg, None, record_time env r)) (record_message env r))
       records"
  by (induction records arbitrary: t) (auto simp: List.map_filter_simps split: option.splits)

definition time_failed :: "('re, 'v) cli_env \<Rightarrow> rstr \<Rightarrow> bool" where
  "time_failed env line \<longleftrightarrow> time_key (env_ing env) \<noteq> None \<and> record_time env line = None"

lemma event_ms_eq:
  "event_ms env line st =
     (record_time env line,
      st\<lparr>time_parse_failures := time_parse_failures st + of_bool (time_failed env line)\<rparr>)"
  by (auto simp: event_ms_def record_time_def time_failed_def Let_def split: option.splits)

lemma feed_eq:
  "feed env line st =
     (let st1 = st\<lparr>time_parse_failures := time_parse_failures st + of_bool (time_failed env line)\<rparr> in
      case record_message env line of
        None \<Rightarrow> Some st1
      | Some msg \<Rightarrow>
          map_option (\<lambda>(_, m'). st1\<lparr>st_miner := m'\<rparr>)
            (ingest_step (env_replace env)
              \<lparr>cmd_at = env_clock env (tick (st_miner st)), cmd_line = msg, cmd_member = None,
               cmd_event = record_time env line\<rparr> (st_miner st)))"
  by (auto simp: feed_def event_ms_eq record_message_def ing_add_def ingest_step_def add_def
      add_at_def Let_def split: option.splits)

lemma ingest_step_tick:
  assumes "budget (Suc n) m" "ingest_step replace_all c m = Some (r, m')"
  shows "tick m' = tick m + 1"
  using budget_counter [OF assms(1)] assms(2) add_inner_inv [of m replace_all "cmd_at c" "cmd_line c"
      "cmd_member c" "cmd_event c"]
  unfolding ingest_step_def by (metis option.inject prod.inject)

lemma feed_all_run:
  assumes "budget (length records) (st_miner st)"
  shows "\<exists>st' rs. feed_all env records st = Some st' \<and>
    run (ingest_step (env_replace env)) (record_cmds env (tick (st_miner st)) records) (st_miner st) =
      Some (rs, st_miner st') \<and>
    time_parse_failures st' =
      time_parse_failures st + of_nat (length (filter (time_failed env) records))"
  using assms
proof (induction records arbitrary: st)
  case (Cons line records)
  let ?st1 = "st\<lparr>time_parse_failures := time_parse_failures st + of_bool (time_failed env line)\<rparr>"
  show ?case
  proof (cases "record_message env line")
    case None
    have "budget (length records) (st_miner ?st1)"
      using Cons.prems by (auto simp: budget_def)
    from Cons.IH [OF this] None show ?thesis
      by (auto simp: feed_eq Let_def)
  next
    case (Some msg)
    let ?c = "\<lparr>cmd_at = env_clock env (tick (st_miner st)), cmd_line = msg, cmd_member = None,
      cmd_event = record_time env line\<rparr>"
    from Cons.prems have b: "budget (Suc (length records)) (st_miner st)" by simp
    obtain r m' where m': "ingest_step (env_replace env) ?c (st_miner st) = Some (r, m')"
      "budget (length records) m'"
      using budget_step [OF b] by metis
    from Cons.IH [of "?st1\<lparr>st_miner := m'\<rparr>"] m'(2) ingest_step_tick [OF b m'(1)] Some m'(1)
    show ?thesis
      by (auto simp: feed_eq Let_def)
  qed
qed simp

section \<open>Epochs\<close>

lemma scale_epoch_int:
  assumes "0 \<le> k" "k < 2 ^ 63"
  shows "scale_epoch k = Some (word_of_int (
    if k < 100000000000 then k * 1000 else if k < 100000000000000 then k
    else if k < 100000000000000000 then k div 1000 else k div 1000000))"
proof -
  have u: "uint (word_of_int l :: u64) = l" if "0 \<le> l" "l < 2 ^ 63" for l
    using that by (simp add: uint_word_of_int)
  have lt: "(word_of_int k :: u64) < numeral n \<longleftrightarrow> k < numeral n" if "(numeral n :: int) < 2 ^ 63" for n
    using that u [OF assms] u [of "numeral n"] by (simp add: word_less_def)
  have dv: "(word_of_int k :: u64) div numeral n = word_of_int (k div numeral n)"
    if "(numeral n :: int) < 2 ^ 63" for n
    using that u [OF assms] u [of "numeral n"] by (simp add: word_div_def)
  show ?thesis
    using assms by (simp add: scale_epoch_def u64_try_from_def lt dv)
qed

section \<open>Properties\<close>

text \<open>
  C38.  The records of \<^verbatim>\<open>--record-separator\<close> do not depend on how the stream is
  cut into reads.  For any sequence of non-empty reads, the ingest feeds the pieces of the whole
  input between the separators, in order; each piece holds no separator, and the pieces with the
  separators between them are the input.
\<close>

theorem separated_chunk_independent:
  assumes "sep \<noteq> []" "[] \<notin> set chunks"
  shows "\<exists>pieces rest. ingest_separated env sep (map Inr chunks) st =
      map_option (Pair (Inr ()))
        (feed_all env (map from_utf8_lossy (pieces @ (if rest = [] then [] else [rest]))) st) \<and>
    concat chunks = concat (map (\<lambda>p. p @ sep) pieces) @ rest \<and>
    list_all (\<lambda>p. find_sub p sep = None) (pieces @ [rest]) \<and>
    (pieces, rest) = split_sep sep (concat chunks)"
proof -
  obtain pieces rest where sp: "split_sep sep (concat chunks) = (pieces, rest)"
    by (cases "split_sep sep (concat chunks)")
  have "ingest_separated env sep (map Inr chunks) st =
      map_option (Pair (Inr ()))
        (feed_all env (map from_utf8_lossy (pieces @ (if rest = [] then [] else [rest]))) st)"
    using separated_loop_split [OF assms, of "[]" env st] sp
    by (simp add: ingest_separated_def split_records_def)
  with sp split_sep_pieces [OF assms(1), of "concat chunks"] split_sep_rest [OF assms(1), of "concat chunks"]
  show ?thesis by (intro exI [of _ pieces] exI [of _ rest]) simp
qed

definition plain_env :: "(unit, unit) cli_env" where
  "plain_env =
     \<lparr>env_replace = no_match,
      env_json = \<lparr>from_str = (\<lambda>_. None), get_key = (\<lambda>_ _. None), as_string = (\<lambda>_. None),
        is_null = (\<lambda>_. True), to_compact = (\<lambda>_. [])\<rparr>,
      env_chrono = \<lparr>parse_offset = (\<lambda>_ _. None), parse_naive_utc = (\<lambda>_ _. None),
        parse_rfc3339 = (\<lambda>_. None)\<rparr>,
      env_clock = (\<lambda>_. 0),
      env_ing = \<lparr>msg_key = None, time_key = None, time_format = None\<rparr>\<rparr>"

definition fresh_state :: "unit ingest_state" where
  "fresh_state = \<lparr>st_miner = fresh_miner, time_parse_failures = 0\<rparr>"

theorem separated_chunk_independent_witness:
  "ingest_separated plain_env [124] [Inr [97, 124], Inr [98, 124, 99]] fresh_state =
   ingest_separated plain_env [124] [Inr [97], Inr [124, 98], Inr [124, 99]] fresh_state"
proof -
  have sp: "split_sep [124] [97, 124, 98, 124, 99 :: u8] = ([[97], [98]], [99])"
    by (simp add: split_sep.simps)
  show ?thesis
    using separated_chunk_independent [of "[124]" "[[97, 124], [98, 124, 99]]" plain_env fresh_state]
      separated_chunk_independent [of "[124]" "[[97], [124, 98], [124, 99]]" plain_env fresh_state]
    by (auto simp: sp)
qed

text \<open>
  C39.  Multi-line assembly loses no text.  When no read fails, the ingest feeds records whose lines are, in order,
  the lines of the input, only blank lines being dropped; no record is
  empty or starts with a blank line, and a line that matches the start expression stands only at
  the front of a record; and every record but the first begins with such a line, unless the
  expression matches the blank line.
\<close>

theorem multiline_records:
  "\<exists>gs. ingest_multiline_start env is_match (map Inr ls) st =
      map_option (Pair (Inr ())) (feed_all env (map join_lines gs) st) \<and>
    filter (\<lambda>l. l \<noteq> []) (concat gs) = filter (\<lambda>l. l \<noteq> []) ls \<and>
    list_all (\<lambda>g. g \<noteq> [] \<and> hd g \<noteq> [] \<and> list_all (\<lambda>l. \<not> is_match l) (tl g)) gs \<and>
    (is_match [] \<or> list_all (\<lambda>g. is_match (hd g)) (tl gs))"
proof (intro exI conjI)
  let ?gs = "group_lines is_match ls []"
  show "ingest_multiline_start env is_match (map Inr ls) st =
      map_option (Pair (Inr ())) (feed_all env (map join_lines ?gs) st)"
    using multiline_loop_groups [of "[]" env is_match ls st]
    by (simp add: ingest_multiline_start_def)
  show "filter (\<lambda>l. l \<noteq> []) (concat ?gs) = filter (\<lambda>l. l \<noteq> []) ls"
    by (simp add: group_lines_text)
  show "list_all (\<lambda>g. g \<noteq> [] \<and> hd g \<noteq> [] \<and> list_all (\<lambda>l. \<not> is_match l) (tl g)) ?gs"
    by (rule group_lines_shape) simp_all
  show "is_match [] \<or> list_all (\<lambda>g. is_match (hd g)) (tl ?gs)"
    using group_lines_starts [of is_match ls "[]"] by blast
qed



text \<open>
  Epoch scaling is unambiguous on the range the magnitudes are made for: an instant whose
  Unix time lies between 1973 and 2262 comes out at its millisecond (its second, when given in
  seconds) whether it is written in seconds, milliseconds, microseconds or nanoseconds.
\<close>

theorem scale_epoch_agrees:
  assumes "100000000000 \<le> ms" "ms < 9223372036854" "0 \<le> us" "us < 1000" "0 \<le> ns" "ns < 1000000"
  shows "scale_epoch (ms div 1000) = Some (word_of_int (ms div 1000 * 1000)) \<and>
    scale_epoch ms = Some (word_of_int ms) \<and>
    scale_epoch (ms * 1000 + us) = Some (word_of_int ms) \<and>
    scale_epoch (ms * 1000000 + ns) = Some (word_of_int ms)"
proof -
  have "(ms * 1000 + us) div 1000 = ms" "(ms * 1000000 + ns) div 1000000 = ms"
    using assms by linarith+
  moreover have "0 \<le> ms div 1000" "ms div 1000 < 100000000000"
    using assms(1,2) by linarith+
  ultimately show ?thesis
    using assms by (simp add: scale_epoch_int)
qed

theorem scale_epoch_agrees_witness:
  "scale_epoch 1700000000 = Some 1700000000000 \<and> scale_epoch 1700000000123 = Some 1700000000123 \<and>
   scale_epoch 1700000000123456 = Some 1700000000123 \<and>
   scale_epoch 1700000000123456789 = Some 1700000000123"
  using scale_epoch_agrees [of 1700000000123 456 456789] by simp

end
