(* ===== verification/Cli_Format.thy ===== *)
theory Cli_Format
  imports Cluster
begin

text \<open>
  Model of \<^verbatim>\<open>crates/logdrain-cli/src/format.rs\<close>: filtering and ordering of the
  public clusters and the four renderers.  The JSON serializer is third-party: its value type is
  the datatype \<open>json_value\<close>, and its two writers are parameters.
\<close>

datatype format = Text | Json | Jsonl | Csv

datatype sort_order = By_size | By_template | By_id | By_rate

section \<open>Stable sorting\<close>

text \<open>\<^verbatim>\<open>slice::sort_by\<close>: a stable sort; \<open>le x y\<close> says that the comparison of
  \<open>x\<close> with \<open>y\<close> is not \<^verbatim>\<open>Greater\<close>.\<close>

fun insert_by :: "('a \<Rightarrow> 'a \<Rightarrow> bool) \<Rightarrow> 'a \<Rightarrow> 'a list \<Rightarrow> 'a list" where
  "insert_by le x [] = [x]"
| "insert_by le x (y # ys) = (if le x y then x # y # ys else y # insert_by le x ys)"

definition sort_by :: "('a \<Rightarrow> 'a \<Rightarrow> bool) \<Rightarrow> 'a list \<Rightarrow> 'a list" where
  "sort_by le xs = foldr (insert_by le) xs []"

text \<open>What an ordering must satisfy for the sort to mean anything.\<close>

locale ordering_by =
  fixes le :: "'a \<Rightarrow> 'a \<Rightarrow> bool"
  assumes le_total: "le x y \<or> le y x"
    and le_trans: "le x y \<Longrightarrow> le y z \<Longrightarrow> le x z"
begin

lemma mset_insert_by: "mset (insert_by le x xs) = add_mset x (mset xs)"
  by (induction xs) simp_all

lemma mset_sort_by: "mset (sort_by le xs) = mset xs"
  by (induction xs) (simp_all add: sort_by_def mset_insert_by)

lemma set_insert_by: "set (insert_by le x xs) = insert x (set xs)"
  by (induction xs) auto

lemma sorted_insert_by: "sorted_wrt le xs \<Longrightarrow> sorted_wrt le (insert_by le x xs)"
proof (induction xs)
  case (Cons y ys)
  then show ?case
    using le_total [of x y] by (auto simp: set_insert_by intro: le_trans)
qed simp

lemma sorted_sort_by: "sorted_wrt le (sort_by le xs)"
  by (induction xs) (simp_all add: sort_by_def sorted_insert_by)

text \<open>Sorted lists with the same elements agree where no two elements tie.\<close>

lemma sorted_unique:
  assumes "sorted_wrt le xs" "sorted_wrt le ys" "mset xs = mset ys"
    "\<And>x y. x \<in> set xs \<Longrightarrow> y \<in> set xs \<Longrightarrow> le x y \<Longrightarrow> le y x \<Longrightarrow> x = y"
  shows "xs = ys"
  using assms
proof (induction xs arbitrary: ys)
  case (Cons x xs)
  then obtain y ys' where ys: "ys = y # ys'" by (cases ys) auto
  have sets: "set (x # xs) = set (y # ys')"
    using Cons.prems(3) ys mset_eq_setD by metis
  have "x = y"
  proof (rule ccontr)
    assume ne: "x \<noteq> y"
    with sets have "x \<in> set ys'" "y \<in> set xs" by auto
    then have "le y x" "le x y" using Cons.prems(1,2) ys by auto
    with Cons.prems(4) [of x y] \<open>y \<in> set xs\<close> ne show False by simp
  qed
  moreover have "xs = ys'"
    using Cons.prems ys \<open>x = y\<close> by (intro Cons.IH) auto
  ultimately show ?case using ys by simp
qed simp

lemma sort_by_perm:
  assumes "mset xs = mset ys"
    "\<And>x y. x \<in> set xs \<Longrightarrow> y \<in> set xs \<Longrightarrow> le x y \<Longrightarrow> le y x \<Longrightarrow> x = y"
  shows "sort_by le xs = sort_by le ys"
proof (rule sorted_unique)
  show "mset (sort_by le xs) = mset (sort_by le ys)" using assms(1) by (simp add: mset_sort_by)
  have "set (sort_by le xs) = set xs" using mset_sort_by mset_eq_setD by blast
  with assms(2) show "x = y"
    if "x \<in> set (sort_by le xs)" "y \<in> set (sort_by le xs)" "le x y" "le y x" for x y
    using that by blast
qed (rule sorted_sort_by)+

end

section \<open>Preparing the clusters\<close>

text \<open>Strings compare by their chars, as their UTF-8 bytes do.\<close>

fun str_le :: "rstr \<Rightarrow> rstr \<Rightarrow> bool" where
  "str_le [] t = True"
| "str_le (a # s) [] = False"
| "str_le (a # s) (b # t) = (a < b \<or> a = b \<and> str_le s t)"

definition size_le :: "cluster \<Rightarrow> cluster \<Rightarrow> bool" where
  "size_le a b \<longleftrightarrow> pub_size b < pub_size a \<or> pub_size b = pub_size a \<and> pub_id a \<le> pub_id b"

definition template_order_le :: "cluster \<Rightarrow> cluster \<Rightarrow> bool" where
  "template_order_le a b \<longleftrightarrow> str_le (template a) (template b)"

definition id_le :: "cluster \<Rightarrow> cluster \<Rightarrow> bool" where
  "id_le a b \<longleftrightarrow> pub_id a \<le> pub_id b"

text \<open>An undefined comparison of two rates counts as equal.\<close>

definition rate_le :: "cluster \<Rightarrow> cluster \<Rightarrow> bool" where
  "rate_le a b \<longleftrightarrow>
     f64_lt (lines_per_minute b) (lines_per_minute a) \<or>
     \<not> f64_lt (lines_per_minute a) (lines_per_minute b) \<and> pub_id a \<le> pub_id b"

definition prepare :: "cluster list \<Rightarrow> u64 \<Rightarrow> sort_order \<Rightarrow> cluster list" where
  "prepare cs min_size order =
     (let kept = filter (\<lambda>c. min_size \<le> pub_size c) cs in
      case order of
        By_size \<Rightarrow> sort_by size_le kept
      | By_template \<Rightarrow> sort_by template_order_le kept
      | By_id \<Rightarrow> sort_by id_le kept
      | By_rate \<Rightarrow> sort_by rate_le kept)"

lemma str_le_total: "str_le s t \<or> str_le t s"
  by (induction s t rule: str_le.induct) auto

lemma str_le_antisym: "str_le s t \<Longrightarrow> str_le t s \<Longrightarrow> s = t"
  by (induction s t rule: str_le.induct) (auto elim: str_le.elims)

lemma str_le_trans: "str_le s t \<Longrightarrow> str_le t u \<Longrightarrow> str_le s u"
proof (induction s t arbitrary: u rule: str_le.induct)
  case (3 a s b t)
  then show ?case by (cases u) auto
qed auto

definition rate_of :: "cluster \<Rightarrow> rat" where
  "rate_of c = (case lines_per_minute c of Fin r \<Rightarrow> r | _ \<Rightarrow> 0)"

lemma lines_per_minute_Fin: "lines_per_minute c = Fin (rate_of c)"
  using rate_over_spec [of "pub_size c" "pub_updated_at c" "pub_created_at c"]
  by (auto simp: rate_of_def lines_per_minute_def)

lemma rate_le_eq:
  "rate_le a b \<longleftrightarrow> rate_of b < rate_of a \<or> rate_of a = rate_of b \<and> pub_id a \<le> pub_id b"
  by (auto simp: rate_le_def lines_per_minute_Fin)

interpretation by_size: ordering_by size_le
  by unfold_locales (auto simp: size_le_def)

interpretation by_template: ordering_by template_order_le
  by unfold_locales (use str_le_total str_le_trans in \<open>auto simp: template_order_le_def\<close>)

interpretation by_id: ordering_by id_le
  by unfold_locales (auto simp: id_le_def)

interpretation by_rate: ordering_by rate_le
  by unfold_locales (auto simp: rate_le_eq)

section \<open>Numbers\<close>

fun dec :: "nat \<Rightarrow> rstr" where
  "dec n = (if n < 10 then [48 + n] else dec (n div 10) @ [48 + n mod 10])"

declare dec.simps [simp del]

text \<open>\<open>{:.1}\<close> of a non-negative finite value: rounded to tenths, ties to even.\<close>

definition fixed_1 :: "f64 \<Rightarrow> rstr" where
  "fixed_1 x =
     (case x of
        Fin q \<Rightarrow> let n = nat (rhe (q * 10)) in dec (n div 10) @ [46] @ dec (n mod 10)
      | NaN \<Rightarrow> str ''NaN''
      | Inf neg \<Rightarrow> (if neg then str ''-inf'' else str ''inf''))"

definition pad_left :: "nat \<Rightarrow> rstr \<Rightarrow> rstr" where
  "pad_left w s = replicate (w - length s) 32 @ s"

definition u64_string :: "u64 \<Rightarrow> rstr" where
  "u64_string n = dec (unat n)"

fun join_with :: "rstr \<Rightarrow> rstr list \<Rightarrow> rstr" where
  "join_with sep [] = []"
| "join_with sep [s] = s"
| "join_with sep (s # ss) = s @ sep @ join_with sep ss"

section \<open>The renderers\<close>

definition max_width :: "nat \<Rightarrow> rstr list \<Rightarrow> nat" where
  "max_width least ss = fold (\<lambda>s w. max w (length s)) ss least"

definition text_row :: "bool \<Rightarrow> nat \<Rightarrow> nat \<Rightarrow> cluster \<Rightarrow> rstr" where
  "text_row show_rate id_w size_w c =
     pad_left id_w (u64_string (pub_id c)) @ [32, 32] @ pad_left size_w (u64_string (pub_size c)) @
     [32, 32] @
     (if show_rate then pad_left 9 (fixed_1 (lines_per_minute c)) @ [32, 32] else []) @
     template c @ [10]"

definition render_text :: "cluster list \<Rightarrow> rstr" where
  "render_text cs =
     (let show_rate = list_ex (\<lambda>c. f64_lt (Fin 0) (lines_per_minute c)) cs;
          id_w = max_width 2 (map (u64_string \<circ> pub_id) cs);
          size_w = max_width 4 (map (u64_string \<circ> pub_size) cs);
          header = pad_left id_w (str ''ID'') @ [32, 32] @ pad_left size_w (str ''SIZE'') @ [32, 32] @
            (if show_rate then pad_left 9 (str ''RATE/MIN'') @ [32, 32] else []) @
            str ''TEMPLATE'' @ [10]
      in header @ concat (map (text_row show_rate id_w size_w) cs))"

datatype json_value =
    JNull
  | JU64 u64
  | JF64 f64
  | JStr rstr
  | JArr "json_value list"
  | JObj "(rstr \<times> json_value) list"

definition json_opt :: "('a \<Rightarrow> json_value) \<Rightarrow> 'a option \<Rightarrow> json_value" where
  "json_opt f x = (case x of None \<Rightarrow> JNull | Some y \<Rightarrow> f y)"

definition cluster_json :: "cluster \<Rightarrow> json_value" where
  "cluster_json c = JObj
     [(str ''id'', JU64 (pub_id c)), (str ''size'', JU64 (pub_size c)),
      (str ''template'', JStr (template c)),
      (str ''linesPerMinute'', JF64 (lines_per_minute c)),
      (str ''createdAt'', JU64 (unix_ms (pub_created_at c))),
      (str ''updatedAt'', JU64 (unix_ms (pub_updated_at c))),
      (str ''eventFirstSeen'', json_opt (JU64 \<circ> unix_ms) (event_first c)),
      (str ''eventLastSeen'', json_opt (JU64 \<circ> unix_ms) (event_last c)),
      (str ''eventRatePerMinute'', json_opt JF64 (event_lines_per_minute c)),
      (str ''members'', JArr (map JStr (pub_members c))),
      (str ''suffix'', json_opt JStr (pub_suffix c))]"

definition render_json :: "(json_value \<Rightarrow> rstr) \<Rightarrow> cluster list \<Rightarrow> rstr" where
  "render_json to_string_pretty cs = to_string_pretty (JArr (map cluster_json cs))"

definition render_jsonl :: "(json_value \<Rightarrow> rstr) \<Rightarrow> cluster list \<Rightarrow> rstr" where
  "render_jsonl to_string cs =
     fold (\<lambda>c out. (out @ to_string (cluster_json c)) @ [10]) cs []"

text \<open>34 is the double quote, 44 the comma.\<close>

definition csv_escape :: "rstr \<Rightarrow> rstr" where
  "csv_escape field =
     (if list_ex (\<lambda>c. c \<in> {44, 34, 10, 13}) field
      then [34] @ concat (map (\<lambda>c. if c = 34 then [34, 34] else [c]) field) @ [34]
      else field)"

definition csv_header :: rstr where
  "csv_header = str ''id,size,rate_per_min,template,created_at,updated_at,'' @
     str ''event_first_seen,event_last_seen,event_rate_per_min,members,suffix'' @ [10]"

definition opt_string :: "rstr option \<Rightarrow> rstr" where
  "opt_string x = (case x of None \<Rightarrow> [] | Some s \<Rightarrow> s)"

definition csv_row :: "cluster \<Rightarrow> rstr list" where
  "csv_row c =
     (let opt_ms = map_option (\<lambda>t. u64_string (unix_ms t)) in
      [u64_string (pub_id c), u64_string (pub_size c), fixed_1 (lines_per_minute c), template c,
       u64_string (unix_ms (pub_created_at c)), u64_string (unix_ms (pub_updated_at c)),
       opt_string (opt_ms (event_first c)), opt_string (opt_ms (event_last c)),
       opt_string (map_option fixed_1 (event_lines_per_minute c)),
       join_with [59] (pub_members c), opt_string (pub_suffix c)])"

definition render_csv :: "cluster list \<Rightarrow> rstr" where
  "render_csv cs =
     fold (\<lambda>c out. out @ join_with [44] (map csv_escape (csv_row c)) @ [10]) cs csv_header"

definition render ::
    "(json_value \<Rightarrow> rstr) \<Rightarrow> (json_value \<Rightarrow> rstr) \<Rightarrow> cluster list \<Rightarrow> format \<Rightarrow> rstr" where
  "render to_string to_string_pretty cs fmt =
     (case fmt of
        Text \<Rightarrow> render_text cs
      | Json \<Rightarrow> render_json to_string_pretty cs
      | Jsonl \<Rightarrow> render_jsonl to_string cs
      | Csv \<Rightarrow> render_csv cs)"

end
