(* ===== verification/Cli_Output.thy ===== *)
theory Cli_Output
  imports Cli_Format
begin

text \<open>
  Properties of the command line's output: the ordering is a sorted permutation of the kept
  clusters and does not depend on the iteration order of the miner's hash map, and the CSV
  parses back, field by field, by a reader of RFC 4180.
\<close>

section \<open>A reader of RFC 4180\<close>

text \<open>
  The reader is a state machine over the characters: at the start of a field, inside a plain or a
  quoted field, or behind a quote inside a quoted field.  Its state holds the field, the row and
  the rows read so far.
\<close>

datatype csv_mode = At_start | In_plain | In_quoted | Behind_quote

type_synonym csv_state = "csv_mode \<times> rstr \<times> rstr list \<times> rstr list list"

definition csv_close :: "rchar \<Rightarrow> rstr \<Rightarrow> rstr list \<Rightarrow> rstr list list \<Rightarrow> csv_state" where
  "csv_close c field row rows =
     (if c = 44 then (At_start, [], row @ [field], rows)
      else (At_start, [], [], rows @ [row @ [field]]))"

fun csv_step :: "csv_state \<Rightarrow> rchar \<Rightarrow> csv_state" where
  "csv_step (At_start, field, row, rows) c =
     (if c = 34 then (In_quoted, [], row, rows)
      else if c = 44 \<or> c = 10 then csv_close c [] row rows
      else (In_plain, [c], row, rows))"
| "csv_step (In_plain, field, row, rows) c =
     (if c = 44 \<or> c = 10 then csv_close c field row rows else (In_plain, field @ [c], row, rows))"
| "csv_step (In_quoted, field, row, rows) c =
     (if c = 34 then (Behind_quote, field, row, rows) else (In_quoted, field @ [c], row, rows))"
| "csv_step (Behind_quote, field, row, rows) c =
     (if c = 34 then (In_quoted, field @ [34], row, rows)
      else if c = 44 \<or> c = 10 then csv_close c field row rows
      else (In_plain, field @ [c], row, rows))"

definition csv_read :: "csv_state \<Rightarrow> rstr \<Rightarrow> csv_state" where
  "csv_read = foldl csv_step"

definition csv_parse :: "rstr \<Rightarrow> rstr list list" where
  "csv_parse s = snd (snd (snd (csv_read (At_start, [], [], []) s)))"

lemma csv_read_append: "csv_read st (s @ t) = csv_read (csv_read st s) t"
  by (simp add: csv_read_def)

lemma csv_read_Nil [simp]: "csv_read st [] = st"
  by (simp add: csv_read_def)

lemma csv_read_Cons: "csv_read st (c # s) = csv_read (csv_step st c) s"
  by (simp add: csv_read_def)

lemma csv_read_quoted:
  "csv_read (In_quoted, acc, row, rows) (concat (map (\<lambda>c. if c = 34 then [34, 34] else [c]) field)) =
     (In_quoted, acc @ field, row, rows)"
  by (induction field arbitrary: acc) (simp_all add: csv_read_Cons)

lemma csv_read_plain:
  "set field \<inter> {44, 34, 10, 13} = {} \<Longrightarrow>
     csv_read (In_plain, acc, row, rows) field = (In_plain, acc @ field, row, rows)"
  by (induction field arbitrary: acc) (auto simp: csv_read_Cons)

text \<open>An escaped field, followed by a comma or the end of the row, reads as the field.\<close>

lemma csv_read_escaped:
  assumes "c = 44 \<or> c = 10"
  shows "csv_read (At_start, [], row, rows) (csv_escape field @ [c]) = csv_close c field row rows"
proof (cases "list_ex (\<lambda>c. c \<in> {44, 34, 10, 13}) field")
  case True
  with assms show ?thesis
    by (auto simp: csv_escape_def csv_read_Cons csv_read_append csv_read_quoted)
next
  case False
  then have plain: "set field \<inter> {44, 34, 10, 13} = {}" by (auto simp: list_ex_iff)
  from False have esc: "csv_escape field = field" by (simp only: csv_escape_def if_False)
  show ?thesis
  proof (cases field)
    case Nil
    with assms esc show ?thesis by (auto simp: csv_read_Cons)
  next
    case (Cons d ds)
    with plain assms csv_read_plain [of ds "[d]" row rows] show ?thesis
      unfolding esc by (auto simp: csv_read_Cons csv_read_append)
  qed
qed

lemma csv_read_row:
  "flds \<noteq> [] \<Longrightarrow>
     csv_read (At_start, [], row, rows) (join_with [44] (map csv_escape flds) @ [10]) =
       (At_start, [], [], rows @ [row @ flds])"
proof (induction flds arbitrary: row)
  case (Cons f fs)
  show ?case
  proof (cases fs)
    case Nil
    then show ?thesis by (simp add: csv_read_escaped csv_close_def)
  next
    case (Cons g gs)
    have "csv_read (At_start, [], row, rows) (csv_escape f @ [44]) = (At_start, [], row @ [f], rows)"
      by (simp add: csv_read_escaped csv_close_def)
    then have "csv_read (At_start, [], row, rows) ((csv_escape f @ [44]) @ join_with [44] (map csv_escape fs) @ [10]) =
        csv_read (At_start, [], row @ [f], rows) (join_with [44] (map csv_escape fs) @ [10])"
      by (simp only: csv_read_append)
    with Cons.IH [of "row @ [f]"] Cons show ?thesis by simp
  qed
qed simp

definition header_fields :: "rstr list" where
  "header_fields = map str [''id'', ''size'', ''rate_per_min'', ''template'', ''created_at'',
     ''updated_at'', ''event_first_seen'', ''event_last_seen'', ''event_rate_per_min'',
     ''members'', ''suffix'']"

lemma csv_header_row: "csv_header = join_with [44] (map csv_escape header_fields) @ [10]"
  by (simp add: csv_header_def header_fields_def csv_escape_def)

lemma csv_row_ne [simp]: "csv_row c \<noteq> []"
  by (simp add: csv_row_def Let_def)

lemma csv_read_rows:
  assumes "csv_read (At_start, [], [], []) out = (At_start, [], [], rows)"
  shows "csv_read (At_start, [], [], [])
      (fold (\<lambda>c out. out @ join_with [44] (map csv_escape (csv_row c)) @ [10]) cs out) =
    (At_start, [], [], rows @ map csv_row cs)"
  using assms
proof (induction cs arbitrary: out rows)
  case (Cons c cs)
  have "csv_read (At_start, [], [], []) (out @ join_with [44] (map csv_escape (csv_row c)) @ [10]) =
      (At_start, [], [], rows @ [csv_row c])"
    by (simp only: csv_read_append [of _ out] Cons.prems) (simp add: csv_read_row)
  from Cons.IH [OF this] show ?case by simp
qed simp

lemma csv_parse_render:
  "csv_parse (render_csv cs) = header_fields # map csv_row cs"
proof -
  have "csv_read (At_start, [], [], []) csv_header = (At_start, [], [], [header_fields])"
    unfolding csv_header_row by (subst csv_read_row) (simp_all add: header_fields_def)
  from csv_read_rows [OF this, of cs] show ?thesis
    by (simp add: csv_parse_def render_csv_def)
qed

section \<open>Properties\<close>

text \<open>
  The CSV output parses back: a reader of RFC 4180 finds the header and then, for every
  cluster in order, exactly its eleven fields, whatever commas, quotes and line breaks its
  template, members and suffix hold.
\<close>

theorem csv_roundtrip:
  "csv_parse (render_csv cs) = header_fields # map csv_row cs"
  by (rule csv_parse_render)

text \<open>
  The prepared output is exactly the clusters of at least the minimal size, in the requested order:
  a sorted permutation of them.
\<close>

theorem prepare_sorted:
  "mset (prepare cs min_size order) = filter_mset (\<lambda>c. min_size \<le> pub_size c) (mset cs) \<and>
   sorted_wrt (case order of By_size \<Rightarrow> size_le | By_template \<Rightarrow> template_order_le | By_id \<Rightarrow> id_le
     | By_rate \<Rightarrow> rate_le) (prepare cs min_size order)"
  by (cases order)
    (simp_all add: prepare_def Let_def by_size.mset_sort_by by_template.mset_sort_by
      by_id.mset_sort_by by_rate.mset_sort_by by_size.sorted_sort_by by_template.sorted_sort_by
      by_id.sorted_sort_by by_rate.sorted_sort_by)

lemma ties_have_one_id:
  "size_le x y \<Longrightarrow> size_le y x \<Longrightarrow> pub_id x = pub_id y"
  "id_le x y \<Longrightarrow> id_le y x \<Longrightarrow> pub_id x = pub_id y"
  "rate_le x y \<Longrightarrow> rate_le y x \<Longrightarrow> pub_id x = pub_id y"
  by (auto simp: size_le_def id_le_def rate_le_eq)

lemma template_tie: "template_order_le x y \<Longrightarrow> template_order_le y x \<Longrightarrow> template x = template y"
  by (auto simp: template_order_le_def intro: str_le_antisym)

text \<open>
  The output does not depend on the iteration order of the miner's hash map: listings of the same
  clusters, with distinct ids and, for the order by template, distinct templates, prepare to the
  same list.
\<close>

theorem prepare_deterministic:
  assumes "mset cs = mset ds" "distinct (map pub_id cs)"
    "order = By_template \<Longrightarrow> distinct (map template cs)"
  shows "prepare cs min_size order = prepare ds min_size order"
proof -
  let ?k = "filter (\<lambda>c. min_size \<le> pub_size c) cs" and ?l = "filter (\<lambda>c. min_size \<le> pub_size c) ds"
  have m: "mset ?k = mset ?l" using assms(1) by simp
  have id: "x = y" if "x \<in> set ?k" "y \<in> set ?k" "pub_id x = pub_id y" for x y
    using that assms(2) by (auto simp: distinct_map inj_on_def)
  have "sort_by size_le ?k = sort_by size_le ?l"
    by (rule by_size.sort_by_perm [OF m id]) (assumption | rule ties_have_one_id)+
  moreover have "sort_by id_le ?k = sort_by id_le ?l"
    by (rule by_id.sort_by_perm [OF m id]) (assumption | rule ties_have_one_id)+
  moreover have "sort_by rate_le ?k = sort_by rate_le ?l"
    by (rule by_rate.sort_by_perm [OF m id]) (assumption | rule ties_have_one_id)+
  moreover have "sort_by template_order_le ?k = sort_by template_order_le ?l" if "order = By_template"
  proof (rule by_template.sort_by_perm [OF m])
    fix x y
    assume xy: "x \<in> set ?k" "y \<in> set ?k" and le: "template_order_le x y" "template_order_le y x"
    from xy have "x \<in> set cs" "y \<in> set cs" by simp_all
    moreover have "template x = template y" using le by (rule template_tie)
    moreover have "inj_on template (set cs)" using assms(3) [OF that] by (simp only: distinct_map)
    ultimately show "x = y" by (blast dest: inj_onD)
  qed
  ultimately show ?thesis
    unfolding prepare_def Let_def by (cases order) simp_all
qed

definition sample_cluster :: "u64 \<Rightarrow> token list \<Rightarrow> cluster" where
  "sample_cluster i toks = to_public (cluster_new i toks 0 None None)"

lemma sample_cluster_sel [simp]:
  "pub_id (sample_cluster i toks) = i" "pub_size (sample_cluster i toks) = 1"
  "template (sample_cluster i toks) = render_template toks"
  by (simp_all add: sample_cluster_def to_public_def Let_def)

theorem prepare_deterministic_witness:
  "prepare [sample_cluster 2 [plain_token [98]], sample_cluster 1 [plain_token [97]]] 0 By_size =
   prepare [sample_cluster 1 [plain_token [97]], sample_cluster 2 [plain_token [98]]] 0 By_size"
  by (rule prepare_deterministic) simp_all

end
