(* ===== verification/Cli_Run.thy ===== *)
theory Cli_Run
  imports Cli_Props Cli_Output
begin

text \<open>
  Model of the remaining half of \<^verbatim>\<open>crates/logdrain-cli/src/main.rs\<close>: the parsed
  arguments, the construction of the miner from them, the lines of a byte stream, and
  \<^verbatim>\<open>run\<close> and \<^verbatim>\<open>main\<close>.  The argument parser \<^verbatim>\<open>clap\<close> is
  left out: a run starts from the record it fills.  The host (files, standard input, the
  libraries, the iteration order of the miner's map) is a parameter.
\<close>

section \<open>Arguments and errors\<close>

record 'path cli =
  cli_files :: "'path list"
  cli_key :: "rstr option"
  cli_format :: format
  cli_min_size :: u64
  cli_sort :: sort_order
  cli_sim_th :: f64
  cli_depth :: nat
  cli_path_delimiters :: "rstr option"
  cli_first_line_only :: bool
  cli_masks :: "rstr option"
  cli_record_separator :: "rstr option"
  cli_multiline_start :: "rstr option"
  cli_time_key :: "rstr option"
  cli_time_format :: "rstr option"

text \<open>A message is the format string of its constructor filled with the arguments.\<close>

datatype 'path cli_error =
    Unknown_mask rstr
  | Bad_options logdrain_error
  | Both_splitters
  | Empty_separator
  | Bad_start rstr
  | Cannot_open 'path rstr
  | Cannot_read rstr

section \<open>The lines of a stream\<close>

text \<open>
  \<^verbatim>\<open>String::from_utf8\<close>: decoding replaces nothing exactly when encoding gives the
  bytes back.
\<close>

definition from_utf8 :: "u8 list \<Rightarrow> rstr option" where
  "from_utf8 bytes =
     (let s = from_utf8_lossy bytes in if into_bytes s = bytes then Some s else None)"

definition decode_line :: "u8 list \<Rightarrow> rstr + rstr" where
  "decode_line bytes =
     (case from_utf8 bytes of
        None \<Rightarrow> Inl (str ''stream did not contain valid UTF-8'')
      | Some s \<Rightarrow> Inr s)"

text \<open>A line that ends in a line feed loses it, and then a carriage return.\<close>

definition strip_cr :: "u8 list \<Rightarrow> u8 list" where
  "strip_cr bytes = (if bytes \<noteq> [] \<and> last bytes = 13 then butlast bytes else bytes)"

text \<open>
  \<^verbatim>\<open>BufRead::lines\<close> on a sequence of reads: every read is cut at its line feeds, a
  read of no bytes is the end.  Nobody looks behind an error.
\<close>

fun buf_lines :: "u8 list \<Rightarrow> (rstr + u8 list) list \<Rightarrow> (rstr + rstr) list" where
  "buf_lines buf [] = (if buf \<noteq> [] then [decode_line buf] else [])"
| "buf_lines buf (Inl e # reads) = [Inl e]"
| "buf_lines buf (Inr chunk # reads) =
     (if chunk = [] then buf_lines buf []
      else
        (case split_sep [10] (buf @ chunk) of
           (ls, rest) \<Rightarrow> map (decode_line \<circ> strip_cr) ls @ buf_lines rest reads))"

definition open_source :: "(rstr + u8 list) list \<Rightarrow> source" where
  "open_source reads = \<lparr>src_lines = buf_lines [] reads, src_reads = reads\<rparr>"

section \<open>Building the miner\<close>

definition mask_named ::
    "(rstr \<Rightarrow> rstr + 're) \<Rightarrow> rstr \<Rightarrow> ('path cli_error + 're mask) option" where
  "mask_named regex_new name =
     (if name = str ''uuid'' then map_option Inr (mask_uuid regex_new)
      else if name = str ''hex32'' then map_option Inr (mask_hex32 regex_new)
      else if name = str ''email'' then map_option Inr (mask_email regex_new)
      else if name = str ''ipv4'' then map_option Inr (mask_ipv4 regex_new)
      else if name = str ''jwt'' then map_option Inr (mask_jwt regex_new)
      else Some (Inl (Unknown_mask name)))"

text \<open>\<^verbatim>\<open>collect\<close> into a \<^verbatim>\<open>Result\<close> stops at the first error.\<close>

fun collect_masks ::
    "(rstr \<Rightarrow> rstr + 're) \<Rightarrow> rstr list \<Rightarrow> ('path cli_error + 're mask list) option" where
  "collect_masks regex_new [] = Some (Inr [])"
| "collect_masks regex_new (name # names) =
     (case mask_named regex_new name of
        None \<Rightarrow> None
      | Some (Inl e) \<Rightarrow> Some (Inl e)
      | Some (Inr m) \<Rightarrow> map_option (map_sum id (\<lambda>ms. m # ms)) (collect_masks regex_new names))"

text \<open>44 is the comma.\<close>

definition mask_names :: "rstr \<Rightarrow> rstr list" where
  "mask_names spec = filter (\<lambda>s. s \<noteq> []) (map trim (split_on (\<lambda>c. c = 44) spec))"

definition build_masks ::
    "(rstr \<Rightarrow> rstr + 're) \<Rightarrow> rstr \<Rightarrow> ('path cli_error + 're mask list) option" where
  "build_masks regex_new spec = collect_masks regex_new (mask_names spec)"

definition build_miner ::
    "(rstr \<Rightarrow> rstr + 're) \<Rightarrow> 'path cli \<Rightarrow> ('path cli_error + 're miner) option" where
  "build_miner regex_new cli =
     (let b = set_first_line_only (cli_first_line_only cli)
                (set_depth (cli_depth cli) (set_sim_threshold (cli_sim_th cli) builder_new));
          b1 = (case cli_path_delimiters cli of None \<Rightarrow> b | Some pd \<Rightarrow> set_path_delimiters pd b);
          finish = (\<lambda>b2. case build b2 of Inl e \<Rightarrow> Some (Inl (Bad_options e)) | Inr m \<Rightarrow> Some (Inr m))
      in case cli_masks cli of
           None \<Rightarrow> finish b1
         | Some spec \<Rightarrow>
             (case build_masks regex_new spec of
                None \<Rightarrow> None
              | Some (Inl e) \<Rightarrow> Some (Inl e)
              | Some (Inr ms) \<Rightarrow> finish (set_masks ms b1)))"

section \<open>The run\<close>

record ('path, 're, 'v) host =
  regex_new :: "rstr \<Rightarrow> rstr + 're"
  regex_replace :: "'re \<Rightarrow> rstr \<Rightarrow> rstr \<Rightarrow> cow"
  regex_is_match :: "'re \<Rightarrow> rstr \<Rightarrow> bool"
  host_json :: "'v json_lib"
  host_chrono :: chrono_lib
  host_clock :: "u64 \<Rightarrow> systime"
  open_file :: "'path \<Rightarrow> rstr + (rstr + u8 list) list"
  stdin_reads :: "(rstr + u8 list) list"
  map_order :: "'re miner \<Rightarrow> u64 list"
  json_compact :: "json_value \<Rightarrow> rstr"
  json_pretty :: "json_value \<Rightarrow> rstr"

definition separator_of :: "'path cli \<Rightarrow> 'path cli_error + u8 list option" where
  "separator_of cli =
     (case cli_record_separator cli of
        None \<Rightarrow> Inr None
      | Some s \<Rightarrow>
          let s1 = unescape s
          in if s1 = [] then Inl Empty_separator else Inr (Some (into_bytes s1)))"

definition start_of :: "(rstr \<Rightarrow> rstr + 're) \<Rightarrow> 'path cli \<Rightarrow> 'path cli_error + 're option" where
  "start_of compile cli =
     (case cli_multiline_start cli of
        None \<Rightarrow> Inr None
      | Some p \<Rightarrow> (case compile p of Inl e \<Rightarrow> Inl (Bad_start e) | Inr re \<Rightarrow> Inr (Some re)))"

definition cli_env_of :: "('path, 're, 'v) host \<Rightarrow> 'path cli \<Rightarrow> ('re, 'v) cli_env" where
  "cli_env_of h cli =
     \<lparr>env_replace = regex_replace h, env_json = host_json h, env_chrono = host_chrono h,
      env_clock = host_clock h,
      env_ing = \<lparr>msg_key = cli_key cli, time_key = cli_time_key cli,
        time_format = cli_time_format cli\<rparr>\<rparr>"

fun ingest_files ::
    "('path, 're, 'v) host \<Rightarrow> ('re, 'v) cli_env \<Rightarrow> u8 list option \<Rightarrow> (rstr \<Rightarrow> bool) option \<Rightarrow>
     'path list \<Rightarrow> 're ingest_state \<Rightarrow> (('path cli_error + unit) \<times> 're ingest_state) option" where
  "ingest_files h env sep start [] st = Some (Inr (), st)"
| "ingest_files h env sep start (path # paths) st =
     (case open_file h path of
        Inl e \<Rightarrow> Some (Inl (Cannot_open path e), st)
      | Inr reads \<Rightarrow>
          (case ingest_source env (open_source reads) sep start st of
             None \<Rightarrow> None
           | Some (Inl e, st') \<Rightarrow> Some (Inl (Cannot_read e), st')
           | Some (Inr u, st') \<Rightarrow> ingest_files h env sep start paths st'))"

definition ingest_inputs ::
    "('path, 're, 'v) host \<Rightarrow> ('re, 'v) cli_env \<Rightarrow> u8 list option \<Rightarrow> (rstr \<Rightarrow> bool) option \<Rightarrow>
     'path list \<Rightarrow> 're ingest_state \<Rightarrow> (('path cli_error + unit) \<times> 're ingest_state) option" where
  "ingest_inputs h env sep start paths st =
     (if paths = []
      then map_option (map_prod (map_sum Cannot_read id) id)
             (ingest_source env (open_source (stdin_reads h)) sep start st)
      else ingest_files h env sep start paths st)"

text \<open>What a run leaves behind: standard output, the warning's count, and its result.\<close>

record 'path outcome =
  printed :: rstr
  warned :: "u64 option"
  verdict :: "'path cli_error + unit"

definition failed :: "'path cli_error \<Rightarrow> 'path outcome" where
  "failed e = \<lparr>printed = [], warned = None, verdict = Inl e\<rparr>"

definition run_cli :: "('path, 're, 'v) host \<Rightarrow> 'path cli \<Rightarrow> 'path outcome option" where
  "run_cli h cli =
     (case build_miner (regex_new h) cli of
        None \<Rightarrow> None
      | Some (Inl e) \<Rightarrow> Some (failed e)
      | Some (Inr m) \<Rightarrow>
          if cli_record_separator cli \<noteq> None \<and> cli_multiline_start cli \<noteq> None
          then Some (failed Both_splitters)
          else
            (case separator_of cli of
               Inl e \<Rightarrow> Some (failed e)
             | Inr sep \<Rightarrow>
                 (case start_of (regex_new h) cli of
                    Inl e \<Rightarrow> Some (failed e)
                  | Inr start \<Rightarrow>
                      (case ingest_inputs h (cli_env_of h cli) sep
                          (map_option (regex_is_match h) start) (cli_files cli)
                          \<lparr>st_miner = m, time_parse_failures = 0\<rparr> of
                         None \<Rightarrow> None
                       | Some (Inl e, st) \<Rightarrow> Some (failed e)
                       | Some (Inr u, st) \<Rightarrow>
                           let failures = time_parse_failures st;
                               cs = prepare (clusters (map_order h (st_miner st)) (st_miner st))
                                      (cli_min_size cli) (cli_sort cli)
                           in Some
                             \<lparr>printed = render (json_compact h) (json_pretty h) cs (cli_format cli),
                              warned = (if 0 < failures then Some failures else None),
                              verdict = Inr ()\<rparr>))))"

text \<open>\<^verbatim>\<open>main\<close>: the exit code of a run.\<close>

definition exit_code :: "'path outcome \<Rightarrow> u8" where
  "exit_code out = (case verdict out of Inr u \<Rightarrow> 0 | Inl e \<Rightarrow> 2)"

end
