(* ===== verification/Cli_Run_Input.thy ===== *)
theory Cli_Run_Input
  imports Cli_Run
begin

text \<open>
  What a run of the command line does with its inputs and arguments: the records that a stream of
  reads is cut into, errors included, the inputs of a run as one list of records, and the
  arguments that build a miner.
\<close>

section \<open>The bytes of a stream\<close>

text \<open>What a sequence of reads delivers before its end or its first error, and that error.\<close>

fun content :: "(rstr + u8 list) list \<Rightarrow> u8 list" where
  "content [] = []"
| "content (Inl e # reads) = []"
| "content (Inr chunk # reads) = (if chunk = [] then [] else chunk @ content reads)"

fun read_error :: "(rstr + u8 list) list \<Rightarrow> rstr option" where
  "read_error [] = None"
| "read_error (Inl e # reads) = Some e"
| "read_error (Inr chunk # reads) = (if chunk = [] then None else read_error reads)"

lemma buf_lines_eq:
  assumes "find_sub buf [10] = None"
  shows "buf_lines buf reads =
    (case split_sep [10] (buf @ content reads) of
       (ls, rest) \<Rightarrow> map (decode_line \<circ> strip_cr) ls @
         (case read_error reads of
            Some e \<Rightarrow> [Inl e]
          | None \<Rightarrow> if rest = [] then [] else [decode_line rest]))"
  using assms
proof (induction buf reads rule: buf_lines.induct)
  case (1 buf)
  then show ?case by (simp add: split_sep_None)
next
  case (2 buf e reads)
  then show ?case by (simp add: split_sep_None)
next
  case (3 buf chunk reads)
  show ?case
  proof (cases "chunk = []")
    case True
    with 3 show ?thesis by (simp add: split_sep_None)
  next
    case False
    obtain ls rest where sp: "split_sep [10] (buf @ chunk) = (ls, rest)"
      by (cases "split_sep [10] (buf @ chunk)")
    have rest: "find_sub rest [10] = None"
      using split_sep_rest [of "[10]" "buf @ chunk"] sp by simp
    have app: "split_sep [10] (buf @ chunk @ content reads) =
        (ls @ fst (split_sep [10] (rest @ content reads)), snd (split_sep [10] (rest @ content reads)))"
      using split_sep_append [of "[10]" "buf @ chunk" "content reads"] sp by simp
    from 3(2) [OF False sp [symmetric] rest] False sp app show ?thesis
      by (simp add: split_beta)
  qed
qed

lemma separated_loop_eq:
  assumes "sep \<noteq> []" "find_sub buf sep = None"
  shows "separated_loop env sep reads buf st =
    (case split_sep sep (buf @ content reads) of
       (ps, rest) \<Rightarrow>
         (case read_error reads of
            Some e \<Rightarrow> map_option (Pair (Inl e)) (feed_all env (map from_utf8_lossy ps) st)
          | None \<Rightarrow> map_option (Pair (Inr ()))
              (feed_all env (map from_utf8_lossy (ps @ (if rest = [] then [] else [rest]))) st)))"
  using assms(2)
proof (induction reads arbitrary: buf st)
  case Nil
  then show ?case by (auto simp: split_sep_None split: option.splits)
next
  case (Cons r reads)
  show ?case
  proof (cases r)
    case (Inl e)
    with Cons show ?thesis by (simp add: split_sep_None)
  next
    case (Inr chunk)
    show ?thesis
    proof (cases "chunk = []")
      case True
      with Inr Cons show ?thesis by (auto simp: split_sep_None split: option.splits)
    next
      case False
      obtain ps rest where sp: "split_sep sep (buf @ chunk) = (ps, rest)"
        by (cases "split_sep sep (buf @ chunk)")
      have rest: "find_sub rest sep = None"
        using split_sep_rest [OF assms(1), of "buf @ chunk"] sp by simp
      have app: "split_sep sep (buf @ chunk @ content reads) =
          (ps @ fst (split_sep sep (rest @ content reads)), snd (split_sep sep (rest @ content reads)))"
        using split_sep_append [OF assms(1), of "buf @ chunk" "content reads"] sp by simp
      show ?thesis
        using Inr False
        by (simp add: drain_loop_split [OF assms(1)] sp app Cons.IH [OF rest] feed_all_append
            split_beta split: option.splits)
    qed
  qed
qed

section \<open>The records of an input\<close>

text \<open>The lines before the first error, and the error.\<close>

fun good_lines :: "(rstr + rstr) list \<Rightarrow> rstr list \<times> rstr option" where
  "good_lines [] = ([], None)"
| "good_lines (Inl e # ls) = ([], Some e)"
| "good_lines (Inr l # ls) = (case good_lines ls of (gs, err) \<Rightarrow> (l # gs, err))"

text \<open>The records that are complete: all but the one in progress.\<close>

fun closed_groups :: "(rstr \<Rightarrow> bool) \<Rightarrow> rstr list \<Rightarrow> rstr list \<Rightarrow> rstr list list" where
  "closed_groups is_match [] cur = []"
| "closed_groups is_match (l # ls) cur =
     (if is_match l \<and> cur \<noteq> [] then cur # closed_groups is_match ls (open_lines l)
      else closed_groups is_match ls (if cur = [] then open_lines l else cur @ [l]))"

definition ending :: "'e option \<Rightarrow> 'e + unit" where
  "ending err = (case err of None \<Rightarrow> Inr () | Some e \<Rightarrow> Inl e)"

lemma ending_simps [simp]: "ending None = Inr ()" "ending (Some e) = Inl e"
  by (simp_all add: ending_def)

lemma ingest_reader_eq:
  "ingest_reader env ls st =
     (case good_lines ls of (gs, err) \<Rightarrow> map_option (Pair (ending err)) (feed_all env gs st))"
  by (induction env ls st rule: ingest_reader.induct) (auto split: option.splits prod.splits)

lemma multiline_loop_eq:
  "proper cur \<Longrightarrow>
     multiline_loop env is_match ls (join_lines cur) st =
       (case good_lines ls of
          (gs, err) \<Rightarrow> map_option (Pair (ending err))
            (feed_all env (map join_lines
              (if err = None then group_lines is_match gs cur else closed_groups is_match gs cur)) st))"
proof (induction ls arbitrary: cur st)
  case Nil
  then show ?case by (auto simp: join_lines_Nil_iff split: option.splits)
next
  case (Cons r ls)
  show ?case
  proof (cases r)
    case (Inr l)
    show ?thesis
    proof (cases "cur = []")
      case True
      with Inr Cons.IH [of "open_lines l"] show ?thesis by (simp add: split_beta)
    next
      case False
      with Cons.prems have ne: "join_lines cur \<noteq> []" by (simp add: join_lines_Nil_iff)
      from Inr Cons.IH [of "open_lines l"] Cons.IH [of "cur @ [l]"] Cons.prems False ne show ?thesis
        by (auto simp: join_lines_snoc Let_def split_beta split: option.splits)
    qed
  qed simp
qed

lemmas multiline_start_eq = multiline_loop_eq [of "[]", simplified]

definition source_records ::
    "u8 list option \<Rightarrow> (rstr \<Rightarrow> bool) option \<Rightarrow> (rstr + u8 list) list \<Rightarrow> rstr list \<times> rstr option" where
  "source_records sep start reads =
     (case (sep, start) of
        (Some s, _) \<Rightarrow>
          (case split_sep s (content reads) of
             (ps, rest) \<Rightarrow>
               (map from_utf8_lossy
                  (ps @ (if rest = [] \<or> read_error reads \<noteq> None then [] else [rest])),
                read_error reads))
      | (None, Some is_match) \<Rightarrow>
          (case good_lines (buf_lines [] reads) of
             (ls, err) \<Rightarrow>
               (map join_lines
                  (if err = None then group_lines is_match ls [] else closed_groups is_match ls []),
                err))
      | (None, None) \<Rightarrow> good_lines (buf_lines [] reads))"

lemma ingest_source_eq:
  assumes "sep \<noteq> Some []"
  shows "ingest_source env (open_source reads) sep start st =
    (case source_records sep start reads of
       (rs, err) \<Rightarrow> map_option (Pair (ending err)) (feed_all env rs st))"
proof (cases sep)
  case None
  then show ?thesis
    by (auto simp: ingest_source_def source_records_def open_source_def ingest_reader_eq
        ingest_multiline_start_def multiline_start_eq split_beta split: option.splits)
next
  case (Some s)
  with assms show ?thesis
    by (auto simp: ingest_source_def source_records_def open_source_def ingest_separated_def
        separated_loop_eq split_beta split: option.splits)
qed

text \<open>There are no more records than bytes.\<close>

lemma split_sep_count:
  "sep \<noteq> [] \<Longrightarrow> length (fst (split_sep sep buf)) + length (snd (split_sep sep buf)) \<le> length buf"
proof (induction sep buf rule: split_sep.induct)
  case (1 sep buf)
  show ?case
  proof (cases "find_sub buf sep")
    case (Some pos)
    obtain n where "length sep = Suc n" using 1(2) by (cases sep) auto
    with 1(1) [OF 1(2) Some 1(2)] conjunct1 [OF find_sub_Some [OF Some]] show ?thesis
      by (simp add: split_sep_Some [OF 1(2) Some])
  qed (simp add: split_sep_None)
qed

lemma good_lines_append:
  "good_lines (ls @ ms) =
     (case good_lines ls of
        (gs, Some e) \<Rightarrow> (gs, Some e)
      | (gs, None) \<Rightarrow> (case good_lines ms of (hs, err) \<Rightarrow> (gs @ hs, err)))"
  by (induction ls rule: good_lines.induct) (auto split: prod.splits option.splits)

lemma good_lines_length: "length (fst (good_lines ls)) \<le> length ls"
  by (induction ls rule: good_lines.induct) (auto split: prod.splits)

lemma buf_lines_count: "length (fst (good_lines (buf_lines [] reads))) \<le> length (content reads)"
proof -
  obtain ls rest where sp: "split_sep [10] (content reads) = (ls, rest)"
    by (cases "split_sep [10] (content reads)")
  let ?tail = "case read_error reads of Some e \<Rightarrow> [Inl e] | None \<Rightarrow> if rest = [] then [] else [decode_line rest]"
  have t: "length (fst (good_lines ?tail)) \<le> length rest"
  proof (cases "read_error reads = None \<and> rest \<noteq> []")
    case True
    then have "1 \<le> length rest" by (cases rest) auto
    with True good_lines_length [of "[decode_line rest]"] show ?thesis by simp
  next
    case False
    then show ?thesis by (auto split: option.splits)
  qed
  have "length (fst (good_lines (map (decode_line \<circ> strip_cr) ls))) \<le> length ls"
    using good_lines_length [of "map (decode_line \<circ> strip_cr) ls"] by simp
  with t split_sep_count [of "[10]" "content reads"] sp buf_lines_eq [of "[]" reads] show ?thesis
    by (auto simp: good_lines_append split: prod.splits option.splits)
qed

lemma group_lines_count:
  "length (group_lines is_match ls cur) \<le> length ls + of_bool (cur \<noteq> [])"
  "length (closed_groups is_match ls cur) \<le> length ls"
proof (induction ls arbitrary: cur)
  case (Cons l ls)
  {
    case 1
    then show ?case
      using Cons(1) [of "open_lines l"] Cons(1) [of "cur @ [l]"] by (auto simp: open_lines_def)
  next
    case 2
    then show ?case
      using Cons(2) [of "open_lines l"] Cons(2) [of "cur @ [l]"] by auto
  }
qed simp_all

lemma source_records_count:
  assumes "sep \<noteq> Some []"
  shows "length (fst (source_records sep start reads)) \<le> length (content reads)"
proof (cases sep)
  case None
  with buf_lines_count [of reads] group_lines_count [of _ "fst (good_lines (buf_lines [] reads))" "[]"]
  show ?thesis
    by (auto simp: source_records_def split_beta split: option.splits intro: le_trans)
next
  case (Some s)
  with assms split_sep_count [of s "content reads"] show ?thesis
    by (cases "snd (split_sep s (content reads))")
      (auto simp: source_records_def split_beta)
qed

section \<open>The inputs of a run\<close>

fun files_records ::
    "('path, 're, 'v) host \<Rightarrow> u8 list option \<Rightarrow> (rstr \<Rightarrow> bool) option \<Rightarrow> 'path list \<Rightarrow>
     rstr list \<times> 'path cli_error option" where
  "files_records h sep start [] = ([], None)"
| "files_records h sep start (path # paths) =
     (case open_file h path of
        Inl e \<Rightarrow> ([], Some (Cannot_open path e))
      | Inr reads \<Rightarrow>
          (case source_records sep start reads of
             (rs, Some e) \<Rightarrow> (rs, Some (Cannot_read e))
           | (rs, None) \<Rightarrow>
               (case files_records h sep start paths of (ss, err) \<Rightarrow> (rs @ ss, err))))"

definition input_records ::
    "('path, 're, 'v) host \<Rightarrow> u8 list option \<Rightarrow> (rstr \<Rightarrow> bool) option \<Rightarrow> 'path list \<Rightarrow>
     rstr list \<times> 'path cli_error option" where
  "input_records h sep start paths =
     (if paths = [] then apsnd (map_option Cannot_read) (source_records sep start (stdin_reads h))
      else files_records h sep start paths)"

text \<open>The number of bytes of input.\<close>

definition input_bytes :: "('path, 're, 'v) host \<Rightarrow> 'path list \<Rightarrow> nat" where
  "input_bytes h paths =
     (if paths = [] then length (content (stdin_reads h))
      else sum_list (map (\<lambda>p. case open_file h p of Inl e \<Rightarrow> 0 | Inr reads \<Rightarrow> length (content reads))
        paths))"

lemma ingest_files_eq:
  assumes "sep \<noteq> Some []"
  shows "ingest_files h env sep start paths st =
    (case files_records h sep start paths of
       (rs, err) \<Rightarrow> map_option (Pair (ending err)) (feed_all env rs st))"
proof (induction paths arbitrary: st)
  case (Cons path paths)
  then show ?case
    by (auto simp: ingest_source_eq [OF assms] feed_all_append split: sum.splits prod.splits option.splits)
qed simp

lemma ingest_inputs_eq:
  assumes "sep \<noteq> Some []"
  shows "ingest_inputs h env sep start paths st =
    (case input_records h sep start paths of
       (rs, err) \<Rightarrow> map_option (Pair (ending err)) (feed_all env rs st))"
  by (auto simp: ingest_inputs_def input_records_def ingest_files_eq [OF assms] ingest_source_eq [OF assms]
      ending_def option.map_comp comp_def split: prod.splits option.splits)

lemma input_records_count:
  assumes "sep \<noteq> Some []"
  shows "length (fst (input_records h sep start paths)) \<le> input_bytes h paths"
proof (cases "paths = []")
  case True
  with source_records_count [OF assms] show ?thesis by (simp add: input_records_def input_bytes_def)
next
  case False
  have "length (fst (files_records h sep start paths)) \<le>
      sum_list (map (\<lambda>p. case open_file h p of Inl e \<Rightarrow> 0 | Inr reads \<Rightarrow> length (content reads)) paths)"
  proof (induction paths)
    case (Cons path paths)
    show ?case
    proof (cases "open_file h path")
      case (Inr reads)
      with Cons source_records_count [OF assms, of start reads] show ?thesis
        by (auto split: prod.splits option.splits)
    qed simp
  qed simp
  with False show ?thesis by (simp add: input_records_def input_bytes_def)
qed

section \<open>The arguments\<close>

lemma unescape_loop_Nil: "unescape_loop out s = [] \<longleftrightarrow> out = [] \<and> s = []"
  by (induction out s rule: unescape_loop.induct) auto

lemma into_bytes_Nil: "into_bytes s = [] \<longleftrightarrow> s = []"
  by (cases s) (auto simp: into_bytes_def utf8_char_def)

definition sep_bytes :: "'path cli \<Rightarrow> u8 list option" where
  "sep_bytes cli = map_option (into_bytes \<circ> unescape) (cli_record_separator cli)"

lemma separator_of_eq:
  "separator_of cli =
     (if cli_record_separator cli = Some [] then Inl Empty_separator else Inr (sep_bytes cli))"
  "cli_record_separator cli \<noteq> Some [] \<Longrightarrow> sep_bytes cli \<noteq> Some []"
  by (auto simp: separator_of_def sep_bytes_def unescape_def unescape_loop_Nil into_bytes_Nil Let_def
      split: option.splits)

definition mask_known :: "rstr \<Rightarrow> bool" where
  "mask_known name \<longleftrightarrow> name \<in> set (map str [''uuid'', ''hex32'', ''email'', ''ipv4'', ''jwt''])"

text \<open>The built-in patterns are regular expressions.\<close>

definition patterns_compile :: "(rstr \<Rightarrow> rstr + 're) \<Rightarrow> bool" where
  "patterns_compile compile \<longleftrightarrow>
     list_all (\<lambda>p. \<not> isl (compile p))
       [uuid_pattern, hex32_pattern, email_pattern, ipv4_pattern, jwt_pattern]"

definition masks_known :: "'path cli \<Rightarrow> bool" where
  "masks_known cli \<longleftrightarrow>
     (case cli_masks cli of None \<Rightarrow> True | Some spec \<Rightarrow> list_all mask_known (mask_names spec))"

lemma builtin_mask_compiles: "\<not> isl (compile pat) \<Longrightarrow> \<exists>m. builtin_mask compile pat holder = Some m"
  by (cases "compile pat") (simp_all add: builtin_mask_def mask_new_def)

lemma mask_named_total:
  assumes "patterns_compile compile"
  shows "\<exists>m. mask_named compile name =
    Some (if mask_known name then Inr m else Inl (Unknown_mask name))"
proof -
  from assms have "\<exists>m. mask_uuid compile = Some m" "\<exists>m. mask_hex32 compile = Some m"
    "\<exists>m. mask_email compile = Some m" "\<exists>m. mask_ipv4 compile = Some m" "\<exists>m. mask_jwt compile = Some m"
    by (simp_all add: patterns_compile_def builtin_mask_compiles mask_uuid_def mask_hex32_def
        mask_email_def mask_ipv4_def mask_jwt_def)
  then show ?thesis by (auto simp: mask_named_def mask_known_def)
qed

lemma collect_masks_total:
  assumes "patterns_compile compile"
  shows "\<exists>ms. (collect_masks compile names :: ('path cli_error + 're mask list) option) =
    Some (case find (\<lambda>n. \<not> mask_known n) names of
            None \<Rightarrow> Inr ms | Some n \<Rightarrow> Inl (Unknown_mask n))"
proof (induction names)
  case (Cons name names)
  then obtain ms where ms: "(collect_masks compile names :: ('path cli_error + 're mask list) option) =
      Some (case find (\<lambda>n. \<not> mask_known n) names of
              None \<Rightarrow> Inr ms | Some n \<Rightarrow> Inl (Unknown_mask n))" by blast
  obtain m where m: "(mask_named compile name :: ('path cli_error + 're mask) option) =
      Some (if mask_known name then Inr m else Inl (Unknown_mask name))"
    using mask_named_total [OF assms] by blast
  show ?case
    by (intro exI [of _ "m # ms"]) (auto simp: m ms split: option.splits)
qed simp

lemma build_valid: "build b = (case build_options b of Inl e \<Rightarrow> Inl e | Inr opt \<Rightarrow> Inr (from_options opt))"
  "(\<exists>e. build_options b = Inl e \<and> \<not> valid_options (opts b)) \<or>
   build_options b = Inr (opts b) \<and> valid_options (opts b)"
  by (auto simp: build_def build_options_def valid_options_def threshold_in_range Let_def)

definition numbers_ok :: "'path cli \<Rightarrow> bool" where
  "numbers_ok cli \<longleftrightarrow>
     2 \<le> cli_depth cli \<and> f64_le (Fin 0) (cli_sim_th cli) \<and> f64_le (cli_sim_th cli) (Fin 1)"

lemma build_miner_total:
  assumes "patterns_compile compile"
  shows "(\<exists>opt. (build_miner compile cli :: ('path cli_error + 're miner) option) = Some (Inr (from_options opt)) \<and> valid_options opt \<and>
      masks_known cli \<and> numbers_ok cli) \<or>
    (\<exists>e. build_miner compile cli = Some (Inl e) \<and> \<not> (masks_known cli \<and> numbers_ok cli))"
proof -
  define b1 :: "'re miner_builder" where
    "b1 = (let b = set_first_line_only (cli_first_line_only cli)
             (set_depth (cli_depth cli) (set_sim_threshold (cli_sim_th cli) builder_new))
           in case cli_path_delimiters cli of None \<Rightarrow> b | Some pd \<Rightarrow> set_path_delimiters pd b)"
  have vb: "valid_options (opts b1) \<longleftrightarrow> numbers_ok cli"
    using threshold_in_range [of "cli_sim_th cli"]
    by (auto simp: b1_def valid_options_def numbers_ok_def builder_defs default_options_def Let_def
        split: option.splits)
  have bm: "build_miner compile cli =
      (let finish = (\<lambda>b2. case build b2 of Inl e \<Rightarrow> Some (Inl (Bad_options e)) | Inr m \<Rightarrow> Some (Inr m))
       in case cli_masks cli of None \<Rightarrow> finish b1
          | Some spec \<Rightarrow> (case build_masks compile spec of None \<Rightarrow> None | Some (Inl e) \<Rightarrow> Some (Inl e)
              | Some (Inr ms) \<Rightarrow> finish (set_masks ms b1)))"
    unfolding build_miner_def b1_def Let_def by (rule refl)
  show ?thesis
  proof (cases "cli_masks cli")
    case None
    then show ?thesis
      using vb build_valid(2) [of b1] by (auto simp: bm Let_def masks_known_def build_valid(1))
  next
    case (Some spec)
    obtain ms where ms: "(collect_masks compile (mask_names spec) :: ('path cli_error + 're mask list) option) =
        Some (case find (\<lambda>n. \<not> mask_known n) (mask_names spec) of
                None \<Rightarrow> Inr ms | Some n \<Rightarrow> Inl (Unknown_mask n))"
      using collect_masks_total [OF assms] by blast
    have vm: "valid_options (opts (set_masks ms b1)) \<longleftrightarrow> numbers_ok cli"
      using vb by (simp add: valid_options_def set_masks_def)
    show ?thesis
    proof (cases "find (\<lambda>n. \<not> mask_known n) (mask_names spec)")
      case None
      then have "masks_known cli"
        using Some by (auto simp: masks_known_def find_None_iff list_all_iff)
      then show ?thesis
        using Some None ms vm build_valid(2) [of "set_masks ms b1"]
        by (auto simp: bm Let_def build_masks_def build_valid(1))
    next
      case n: (Some n)
      then have "\<not> masks_known cli"
        using Some by (auto simp: masks_known_def find_Some_iff list_all_length)
      then show ?thesis
        using n ms Some by (auto simp: bm Let_def build_masks_def)
    qed
  qed
qed

end
