(* ===== verification/Cli_Run_Props.thy ===== *)
theory Cli_Run_Props
  imports Cli_Run_Input Ingest_Props
begin

text \<open>
  Properties of a whole run of the command line: when it succeeds and what it prints.
\<close>

section \<open>A run as a function of its inputs\<close>

definition start_match :: "('path, 're, 'v) host \<Rightarrow> 'path cli \<Rightarrow> (rstr \<Rightarrow> bool) option" where
  "start_match h cli =
     map_option (\<lambda>p. regex_is_match h (projr (regex_new h p))) (cli_multiline_start cli)"

definition args_ok :: "(rstr \<Rightarrow> rstr + 're) \<Rightarrow> 'path cli \<Rightarrow> bool" where
  "args_ok compile cli \<longleftrightarrow>
     masks_known cli \<and> numbers_ok cli \<and>
     \<not> (cli_record_separator cli \<noteq> None \<and> cli_multiline_start cli \<noteq> None) \<and>
     cli_record_separator cli \<noteq> Some [] \<and>
     (case cli_multiline_start cli of None \<Rightarrow> True | Some p \<Rightarrow> \<not> isl (compile p))"

definition run_records :: "('path, 're, 'v) host \<Rightarrow> 'path cli \<Rightarrow> rstr list \<times> 'path cli_error option" where
  "run_records h cli = input_records h (sep_bytes cli) (start_match h cli) (cli_files cli)"

lemma start_of_ok:
  assumes "args_ok (regex_new h) cli"
  shows "\<exists>start. start_of (regex_new h) cli = Inr start \<and>
    map_option (regex_is_match h) start = start_match h cli"
proof (cases "cli_multiline_start cli")
  case (Some p)
  with assms show ?thesis
    by (cases "regex_new h p") (auto simp: args_ok_def start_of_def start_match_def)
qed (simp add: start_of_def start_match_def)

text \<open>Bad arguments end the run before any input is read.\<close>

lemma run_cli_bad_args:
  assumes "patterns_compile (regex_new h)" "\<not> args_ok (regex_new h) cli"
  shows "\<exists>e. run_cli h cli = Some (failed e)"
  using build_miner_total [OF assms(1), of cli] assms(2) separator_of_eq(1) [of cli]
  by (auto simp: run_cli_def args_ok_def start_of_def isl_def split: option.splits sum.splits)

text \<open>The inputs, read into a new miner.\<close>

lemma inputs_run:
  assumes "valid_options opt" "sep_bytes cli \<noteq> Some []" "input_bytes h (cli_files cli) < 2 ^ 64"
  obtains st rs where
    "ingest_inputs h (cli_env_of h cli) (sep_bytes cli) (start_match h cli) (cli_files cli)
       \<lparr>st_miner = from_options opt, time_parse_failures = 0\<rparr> =
     Some (ending (snd (run_records h cli)), st)"
    "run (ingest_step (regex_replace h))
       (record_cmds (cli_env_of h cli) (tick (from_options opt)) (fst (run_records h cli)))
       (from_options opt) = Some (rs, st_miner st)"
    "length (record_cmds (cli_env_of h cli) (tick (from_options opt)) (fst (run_records h cli))) < 2 ^ 64"
proof -
  let ?env = "cli_env_of h cli" and ?st = "\<lparr>st_miner = from_options opt, time_parse_failures = 0\<rparr>"
  obtain records err where rec: "run_records h cli = (records, err)" by (cases "run_records h cli")
  have few: "length records < 2 ^ 64"
    using input_records_count [OF assms(2), of h "start_match h cli" "cli_files cli"] assms(3) rec
    by (simp add: run_records_def)
  have "budget (length records) (st_miner ?st)"
    using budget_start [OF assms(1) few] by simp
  from feed_all_run [OF this, of ?env] obtain st rs where feed: "feed_all ?env records ?st = Some st"
    "run (ingest_step (regex_replace h)) (record_cmds ?env (tick (from_options opt)) records)
      (from_options opt) = Some (rs, st_miner st)"
    by (auto simp: cli_env_of_def)
  have "ingest_inputs h ?env (sep_bytes cli) (start_match h cli) (cli_files cli) ?st = Some (ending err, st)"
    using ingest_inputs_eq [OF assms(2), of h ?env "start_match h cli" "cli_files cli" ?st] rec feed(1)
    by (simp add: run_records_def)
  moreover have "length (record_cmds ?env t records) \<le> length records" for t
    by (induction records arbitrary: t) (auto split: option.splits intro: le_SucI)
  then have "length (record_cmds ?env (tick (from_options opt)) records) < 2 ^ 64"
    using few le_less_trans by blast
  ultimately show ?thesis using that feed(2) rec by simp
qed

text \<open>Only the listing at the end looks at the order in which the map iterates.\<close>

lemma ingest_files_order:
  "ingest_files (h\<lparr>map_order := ord\<rparr>) env sep start paths st = ingest_files h env sep start paths st"
  by (induction paths arbitrary: st) (simp_all split: sum.splits prod.splits option.splits)

lemma host_order:
  "cli_env_of (h\<lparr>map_order := ord\<rparr>) cli = cli_env_of h cli"
  "ingest_inputs (h\<lparr>map_order := ord\<rparr>) env sep start paths st = ingest_inputs h env sep start paths st"
  by (simp_all add: cli_env_of_def ingest_inputs_def ingest_files_order)

text \<open>Good arguments make a run a function of the records and of that order.\<close>

definition listing :: "('path, 're, 'v) host \<Rightarrow> 'path cli \<Rightarrow> 're miner \<Rightarrow> cluster list" where
  "listing h cli m = prepare (clusters (map_order h m) m) (cli_min_size cli) (cli_sort cli)"

lemma run_cli_prints:
  assumes "patterns_compile (regex_new h)" "args_ok (regex_new h) cli"
    "input_bytes h (cli_files cli) < 2 ^ 64"
  obtains opt cmds rs m w where "build_miner (regex_new h) cli = Some (Inr (from_options opt))"
    "valid_options opt" "length cmds < 2 ^ 64"
    "run (ingest_step (regex_replace h)) cmds (from_options opt) = Some (rs, m)"
    "map (\<lambda>c. (cmd_line c, cmd_member c, cmd_event c)) cmds =
      List.map_filter (\<lambda>r. map_option (\<lambda>msg. (msg, None, record_time (cli_env_of h cli) r))
        (record_message (cli_env_of h cli) r)) (fst (run_records h cli))"
    "\<And>ord. run_cli (h\<lparr>map_order := ord\<rparr>) cli = Some (case snd (run_records h cli) of
       Some e \<Rightarrow> failed e
     | None \<Rightarrow> \<lparr>printed = render (json_compact h) (json_pretty h)
            (listing (h\<lparr>map_order := ord\<rparr>) cli m) (cli_format cli), warned = w, verdict = Inr ()\<rparr>)"
proof -
  let ?env = "cli_env_of h cli"
  obtain opt where opt: "build_miner (regex_new h) cli = Some (Inr (from_options opt))"
    "valid_options opt"
    using build_miner_total [OF assms(1), of cli] assms(2) by (auto simp: args_ok_def)
  have sep: "separator_of cli = Inr (sep_bytes cli)" "sep_bytes cli \<noteq> Some []"
    using separator_of_eq [of cli] assms(2) by (auto simp: args_ok_def)
  obtain start where start: "start_of (regex_new h) cli = Inr start"
    "map_option (regex_is_match h) start = start_match h cli"
    using start_of_ok [OF assms(2)] by blast
  let ?st = "\<lparr>st_miner = from_options opt, time_parse_failures = 0\<rparr>"
  obtain st rs where inputs:
    "ingest_inputs h ?env (sep_bytes cli) (start_match h cli) (cli_files cli) ?st =
       Some (ending (snd (run_records h cli)), st)"
    "run (ingest_step (regex_replace h))
       (record_cmds ?env (tick (from_options opt)) (fst (run_records h cli))) (from_options opt) =
     Some (rs, st_miner st)"
    "length (record_cmds ?env (tick (from_options opt)) (fst (run_records h cli))) < 2 ^ 64"
    by (rule inputs_run [OF opt(2) sep(2) assms(3)])
  let ?w = "if 0 < time_parse_failures st then Some (time_parse_failures st) else None"
  have "\<not> (cli_record_separator cli \<noteq> None \<and> cli_multiline_start cli \<noteq> None)"
    using assms(2) by (simp add: args_ok_def)
  then have "run_cli (h\<lparr>map_order := ord\<rparr>) cli = Some (case snd (run_records h cli) of
       Some e \<Rightarrow> failed e
     | None \<Rightarrow> \<lparr>printed = render (json_compact h) (json_pretty h)
            (listing (h\<lparr>map_order := ord\<rparr>) cli (st_miner st)) (cli_format cli), warned = ?w,
          verdict = Inr ()\<rparr>)" for ord
    by (cases "snd (run_records h cli)")
      (auto simp: run_cli_def opt(1) sep(1) start inputs(1) Let_def host_order listing_def)
  then show ?thesis
    by (rule that [OF opt inputs(3,2) record_cmds_fields])
qed

lemma run_cli_good_args:
  assumes "patterns_compile (regex_new h)" "args_ok (regex_new h) cli"
    "input_bytes h (cli_files cli) < 2 ^ 64"
  obtains opt cmds rs m where "valid_options opt" "length cmds < 2 ^ 64"
    "run (ingest_step (regex_replace h)) cmds (from_options opt) = Some (rs, m)"
    "map (\<lambda>c. (cmd_line c, cmd_member c, cmd_event c)) cmds =
      List.map_filter (\<lambda>r. map_option (\<lambda>msg. (msg, None, record_time (cli_env_of h cli) r))
        (record_message (cli_env_of h cli) r)) (fst (run_records h cli))"
    "case snd (run_records h cli) of
       Some e \<Rightarrow> run_cli h cli = Some (failed e)
     | None \<Rightarrow> \<exists>w. run_cli h cli = Some
         \<lparr>printed = render (json_compact h) (json_pretty h) (listing h cli m) (cli_format cli),
          warned = w, verdict = Inr ()\<rparr>"
proof (rule run_cli_prints [OF assms])
  fix opt cmds rs m w
  assume r: "valid_options opt" "length cmds < 2 ^ 64"
    "run (ingest_step (regex_replace h)) cmds (from_options opt) = Some (rs, m)"
    "map (\<lambda>c. (cmd_line c, cmd_member c, cmd_event c)) cmds =
      List.map_filter (\<lambda>r. map_option (\<lambda>msg. (msg, None, record_time (cli_env_of h cli) r))
        (record_message (cli_env_of h cli) r)) (fst (run_records h cli))"
    and out: "\<And>ord. run_cli (h\<lparr>map_order := ord\<rparr>) cli = Some (case snd (run_records h cli) of
       Some e \<Rightarrow> failed e
     | None \<Rightarrow> \<lparr>printed = render (json_compact h) (json_pretty h)
            (listing (h\<lparr>map_order := ord\<rparr>) cli m) (cli_format cli), warned = w, verdict = Inr ()\<rparr>)"
  from out [of "map_order h"] show thesis
    by (intro that [OF r]) (auto split: option.splits)
qed

section \<open>Properties\<close>


text \<open>
  A host whose standard input holds three lines, the middle one blank, delivered in two reads, and
  whose map iterates in the order of the ids.
\<close>

definition sample_host :: "(unit, unit, unit) host" where
  "sample_host =
     \<lparr>regex_new = (\<lambda>_. Inr ()), regex_replace = no_match, regex_is_match = (\<lambda>_ _. False),
      host_json = env_json plain_env, host_chrono = env_chrono plain_env, host_clock = (\<lambda>_. 0),
      open_file = (\<lambda>_. Inl []), stdin_reads = [Inr [97, 32, 98, 10, 32], Inr [10, 97, 32, 99, 10]],
      map_order = (\<lambda>m. sorted_list_of_set (fmdom' (clusters_by_id m))),
      json_compact = (\<lambda>_. []), json_pretty = (\<lambda>_. [])\<rparr>"

definition sample_cli :: "unit cli" where
  "sample_cli =
     \<lparr>cli_files = [], cli_key = None, cli_format = Csv, cli_min_size = 0, cli_sort = By_size,
      cli_sim_th = Fin (1 / 2), cli_depth = 4, cli_path_delimiters = None,
      cli_first_line_only = False, cli_masks = Some (str ''uuid, ipv4''), cli_record_separator = None,
      cli_multiline_start = None, cli_time_key = None, cli_time_format = None\<rparr>"

lemma sample_records: "run_records sample_host sample_cli = ([str ''a b'', str '' '', str ''a c''], None)"
  by code_simp

lemma sample_args: "args_ok (regex_new sample_host) sample_cli"
proof -
  have "masks_known sample_cli" by code_simp
  then show ?thesis by (simp add: args_ok_def numbers_ok_def) (simp add: sample_cli_def)
qed

lemma sample_input:
  "patterns_compile (regex_new sample_host)" "input_bytes sample_host (cli_files sample_cli) < 2 ^ 64"
  by (simp_all add: patterns_compile_def input_bytes_def sample_host_def sample_cli_def)




end
