(* ===== verification/Render.thy ===== *)
theory Render
  imports Cluster
begin

text \<open>
  What a rendered template still says of its tokens.  Reading the text that
  \<^verbatim>\<open>ClusterInner::render_template\<close> writes with \<^verbatim>\<open>tokenize_with\<close> gives the
  token texts back, up to a run of delimiters that stands behind a delimiter; and two token lists that
  render alike have the same texts.
\<close>

section \<open>Reading with whitespace\<close>

definition non_blank :: "rchar \<Rightarrow> bool" where
  "non_blank c \<longleftrightarrow> \<not> is_whitespace c"

lemma blank_space [simp]: "is_whitespace 32" "\<not> non_blank 32"
  by (simp_all add: is_whitespace_def non_blank_def)

lemma split_whitespace_blank: "is_whitespace c \<Longrightarrow> split_whitespace (c # s) = split_whitespace s"
  by (simp add: split_whitespace_def)

lemma split_whitespace_Nil [simp]: "split_whitespace [] = []"
  by (simp add: split_whitespace_def)

lemma split_on_word:
  "\<forall>c \<in> set u. \<not> P c \<Longrightarrow> split_on P (u @ s) = (u @ hd (split_on P s)) # tl (split_on P s)"
  by (induction u) (simp_all add: split: list.splits)

lemma hd_split_on: "hd (split_on P s) = takeWhile (\<lambda>c. \<not> P c) s"
  by (induction P s rule: split_on.induct) (auto split: list.splits)

lemma tl_split_on:
  "filter (\<lambda>p. p \<noteq> []) (tl (split_on P s)) = filter (\<lambda>p. p \<noteq> []) (split_on P (dropWhile (\<lambda>c. \<not> P c) s))"
  by (induction P s rule: split_on.induct) (auto split: list.splits)

lemma split_whitespace_word:
  assumes "u \<noteq> []" "list_all non_blank u"
  shows "split_whitespace (u @ s) = (u @ takeWhile non_blank s) # split_whitespace (dropWhile non_blank s)"
  using assms tl_split_on [of is_whitespace s]
  by (simp add: split_whitespace_def split_on_word hd_split_on non_blank_def [abs_def] list_all_iff)

section \<open>Token texts of a text\<close>

definition texts :: "rchar list \<Rightarrow> rstr \<Rightarrow> rstr list" where
  "texts delims s = map tok_text (tokenize_with s delims)"

text \<open>The texts from inside a piece that has text in it already: the open segment, and what follows.\<close>

definition piece_texts :: "rchar list \<Rightarrow> rstr \<Rightarrow> rstr \<Rightarrow> rstr list" where
  "piece_texts delims seg s = map tok_text (path_loop delims s None seg [])"

definition texts_from :: "rchar list \<Rightarrow> rstr \<Rightarrow> rstr \<Rightarrow> rstr list" where
  "texts_from delims seg s =
     piece_texts delims seg (takeWhile non_blank s) @ texts delims (dropWhile non_blank s)"

lemma path_loop_lead:
  "map tok_text (path_loop delims s l seg []) = map tok_text (path_loop delims s None seg [])"
  by (induction s arbitrary: l seg) (simp_all add: path_loop_out [of _ _ _ _ "[_]"])

lemma piece_texts_simps [simp]:
  "piece_texts delims seg [] = (if seg \<noteq> [] then [seg] else [])"
  "piece_texts delims seg (c # s) =
     (if c \<in> set delims then (if seg \<noteq> [] then [seg] else []) @ piece_texts delims [] s
      else piece_texts delims (seg @ [c]) s)"
  using path_loop_lead [of delims s "Some c" "[]"]
  by (simp_all add: piece_texts_def path_loop_out [of _ _ _ _ "[_]"])

lemma texts_blank [simp]: "is_whitespace c \<Longrightarrow> texts delims (c # s) = texts delims s"
  "texts delims [] = []"
  by (simp_all add: texts_def tokenize_with_concat split_whitespace_blank)

lemma texts_from_simps:
  "texts_from delims seg [] = (if seg \<noteq> [] then [seg] else [])"
  "is_whitespace c \<Longrightarrow> texts_from delims seg (c # s) = (if seg \<noteq> [] then [seg] else []) @ texts delims s"
  "c \<in> set delims \<Longrightarrow> non_blank c \<Longrightarrow>
     texts_from delims seg (c # s) = (if seg \<noteq> [] then [seg] else []) @ texts_from delims [] s"
  "c \<notin> set delims \<Longrightarrow> non_blank c \<Longrightarrow> texts_from delims seg (c # s) = texts_from delims (seg @ [c]) s"
  by (simp_all add: texts_from_def) (simp_all add: non_blank_def)

lemma texts_from_word:
  assumes "list_all (\<lambda>c. c \<notin> set delims) u" "list_all non_blank u"
  shows "texts_from delims seg (u @ s) = texts_from delims (seg @ u) s"
  using assms by (induction u arbitrary: seg) (simp_all add: texts_from_simps)

lemma texts_from_run:
  assumes "list_all (\<lambda>c. c \<in> set delims) u" "list_all non_blank u"
  shows "texts_from delims [] (u @ s) = texts_from delims [] s"
  using assms by (induction u) (simp_all add: texts_from_simps)

lemma texts_word:
  assumes "u \<noteq> []" "list_all non_blank u"
  shows "texts delims (u @ s) =
    (if list_all (\<lambda>c. c \<in> set delims) (u @ takeWhile non_blank s)
     then (u @ takeWhile non_blank s) # texts delims (dropWhile non_blank s)
     else texts_from delims [] (u @ s))"
proof -
  have "takeWhile non_blank (u @ s) = u @ takeWhile non_blank s"
    "dropWhile non_blank (u @ s) = dropWhile non_blank s"
    using assms(2) by (simp_all add: list_all_iff takeWhile_append2)
  with assms show ?thesis
    by (auto simp: texts_def texts_from_def piece_texts_def tokenize_with_concat split_whitespace_word
        path_tokens_eq list_all_iff)
qed

section \<open>Reading a rendering\<close>

text \<open>The tokens that a reader finds: a run of delimiters behind a delimiter is taken for a part of it.\<close>

fun legible :: "rchar list \<Rightarrow> rchar option \<Rightarrow> token list \<Rightarrow> token list" where
  "legible delims prev [] = []"
| "legible delims prev (t # ts) =
     (if prev \<noteq> None \<and> set (tok_text t) \<subseteq> set delims then legible delims (trailing_delim t) ts
      else t # legible delims (trailing_delim t) ts)"


text \<open>A token has text that is either free of delimiters or a run of them without flags.\<close>

definition word_token :: "rchar list \<Rightarrow> token \<Rightarrow> bool" where
  "word_token delims t \<longleftrightarrow>
     tok_text t \<noteq> [] \<and> list_all non_blank (tok_text t) \<and> list_all (\<lambda>c. c \<notin> set delims) (tok_text t)"

definition run_token :: "rchar list \<Rightarrow> token \<Rightarrow> bool" where
  "run_token delims t \<longleftrightarrow>
     tok_text t \<noteq> [] \<and> list_all non_blank (tok_text t) \<and> list_all (\<lambda>c. c \<in> set delims) (tok_text t) \<and>
     leading_delim t = None \<and> trailing_delim t = None"

lemma token_ok_cases:
  assumes "token_ok delims t"
  obtains "word_token delims t" | "run_token delims t"
proof -
  have "word_token delims t \<or> run_token delims t"
    using assms by (cases t) (auto simp: token_ok_def word_token_def run_token_def non_blank_def [abs_def] plain_token_def)
  then show ?thesis using that by blast
qed

lemma token_ok_flags:
  "token_ok delims t \<Longrightarrow> set_option (leading_delim t) \<subseteq> set delims \<and> set_option (trailing_delim t) \<subseteq> set delims"
  by (simp add: token_ok_def)

lemma word_not_run: "word_token delims t \<Longrightarrow> \<not> set (tok_text t) \<subseteq> set delims"
  by (cases "tok_text t") (auto simp: word_token_def)

lemma run_subset: "run_token delims t \<Longrightarrow> set (tok_text t) \<subseteq> set delims"
  by (auto simp: run_token_def list_all_iff)

lemma texts_lead:
  assumes "word_token delims t" "set_option l \<subseteq> set delims" "list_all non_blank delims"
  shows "texts delims (opt_list l @ tok_text t @ s) = texts_from delims (tok_text t) s"
proof -
  let ?u = "opt_list l @ tok_text t"
  have "?u \<noteq> []" "list_all non_blank ?u" "\<not> list_all (\<lambda>c. c \<in> set delims) ?u"
    using assms by (cases l; cases "tok_text t"; auto simp: word_token_def list_all_iff)+
  then have "texts delims (?u @ s) = texts_from delims [] (?u @ s)"
    using texts_word [of ?u delims s] by (auto simp: list_all_append)
  also have "\<dots> = texts_from delims [] (tok_text t @ s)"
    using assms by (cases l) (auto simp: texts_from_simps list_all_iff)
  also have "\<dots> = texts_from delims (tok_text t) s"
    using assms(1) by (simp add: word_token_def texts_from_word)
  finally show ?thesis by simp
qed

lemma render_rest_None_cases:
  "render_rest None ts = [] \<or> (\<exists>s. render_rest None ts = 32 # s)"
  by (cases ts) simp_all

lemma texts_run:
  assumes "run_token delims t"
  shows "texts delims (tok_text t @ render_rest None ts) = tok_text t # texts delims (render_rest None ts)"
  using assms texts_word [of "tok_text t" delims "render_rest None ts"] render_rest_None_cases [of ts]
  by (auto simp: run_token_def)

lemma texts_from_rest_None:
  "texts_from delims [] (render_rest None ts) = texts delims (render_rest None ts)"
  using render_rest_None_cases [of ts] by (auto simp: texts_from_simps)

lemma legible_texts:
  assumes "list_all (token_ok delims) ts" "list_all non_blank delims"
  shows "(\<forall>prev u. set_option prev \<subseteq> set delims \<longrightarrow> u \<noteq> [] \<longrightarrow>
      texts_from delims u (render_rest prev ts) = u # map tok_text (legible delims prev ts)) \<and>
    texts delims (render_rest None ts) = map tok_text (legible delims None ts)"
  using assms(1)
proof (induction ts)
  case Nil
  have "texts_from delims u (render_rest prev []) = [u]" if "set_option prev \<subseteq> set delims" "u \<noteq> []" for prev u
    using assms(2) that by (cases prev) (auto simp: texts_from_simps list_all_iff)
  then show ?case by simp
next
  case (Cons t ts)
  from Cons.prems have t: "token_ok delims t" by simp
  note flags = token_ok_flags [OF t]
  let ?rest = "render_rest (trailing_delim t) ts"
  from Cons have IH: "\<And>u. u \<noteq> [] \<Longrightarrow> texts_from delims u ?rest = u # map tok_text (legible delims (trailing_delim t) ts)"
    "texts delims (render_rest None ts) = map tok_text (legible delims None ts)"
    using flags by auto
  have None: "texts delims (render_rest None (t # ts)) = map tok_text (legible delims None (t # ts))"
  proof (rule token_ok_cases [OF t])
    assume w: "word_token delims t"
    with IH(1) [of "tok_text t"] texts_lead [OF w _ assms(2), of "leading_delim t" ?rest] flags
    show ?thesis by (simp add: word_token_def)
  next
    assume r: "run_token delims t"
    with IH(2) texts_run [OF r, of ts] show ?thesis by (simp add: run_token_def)
  qed
  have "texts_from delims u (render_rest prev (t # ts)) = u # map tok_text (legible delims prev (t # ts))"
    if p: "set_option prev \<subseteq> set delims" "u \<noteq> []" for prev u
  proof (cases prev)
    case None: None
    then show ?thesis using \<open>texts delims (render_rest None (t # ts)) = _\<close> p(2) by (simp add: texts_from_simps)
  next
    case (Some c)
    then have c: "texts_from delims u (c # s) = u # texts_from delims [] s" for s
      using p assms(2) by (auto simp: texts_from_simps list_all_iff)
    show ?thesis
    proof (rule token_ok_cases [OF t])
      assume w: "word_token delims t"
      then have "texts_from delims [] (tok_text t @ ?rest) = texts_from delims (tok_text t) ?rest"
        by (simp add: word_token_def texts_from_word)
      with Some c IH(1) [of "tok_text t"] w word_not_run [OF w] show ?thesis by (simp add: word_token_def)
    next
      assume r: "run_token delims t"
      then have "texts_from delims [] (tok_text t @ ?rest) = texts_from delims [] ?rest"
        by (simp add: run_token_def texts_from_run)
      with Some c IH(2) r run_subset [OF r] texts_from_rest_None [of delims ts]
      show ?thesis by (simp add: run_token_def)
    qed
  qed
  with None show ?case by blast
qed

lemma texts_render:
  assumes "list_all (token_ok delims) ts" "list_all non_blank delims"
  shows "texts delims (render_template ts) = map tok_text (legible delims None ts)"
proof (cases ts)
  case (Cons t ts')
  then have "render_rest None ts = 32 # render_template ts" by (intro render_rest_None) simp
  with legible_texts [OF assms] show ?thesis by simp
qed (simp add: texts_def tokenize_with_concat)

lemma length_legible: "length (legible delims prev ts) \<le> length ts"
  by (induction ts arbitrary: prev) (simp_all add: le_SucI)

lemma legible_all:
  "length (legible delims prev ts) = length ts \<longleftrightarrow>
     (ts = [] \<or> prev = None \<or> \<not> set (tok_text (hd ts)) \<subseteq> set delims) \<and>
     successively (\<lambda>t u. trailing_delim t = None \<or> \<not> set (tok_text u) \<subseteq> set delims) ts"
proof (induction ts arbitrary: prev)
  case (Cons t ts)
  have "length (legible delims (trailing_delim t) ts) \<noteq> Suc (length ts)"
    using length_legible [of delims "trailing_delim t" ts] by simp
  with Cons.IH [of "trailing_delim t"] show ?case by (auto simp: successively_Cons)
qed simp

lemma legible_id: "length (legible delims prev ts) = length ts \<Longrightarrow> legible delims prev ts = ts"
proof (induction ts arbitrary: prev)
  case (Cons t ts)
  then show ?case
    using length_legible [of delims "trailing_delim t" ts] by (auto split: if_splits)
qed simp

section \<open>Renderings that agree\<close>

text \<open>What separates a text from the next: the end, a space or a delimiter.\<close>

definition stops :: "rchar list \<Rightarrow> rstr \<Rightarrow> bool" where
  "stops delims s \<longleftrightarrow> s = [] \<or> is_whitespace (hd s) \<or> hd s \<in> set delims"

lemma stops_rest:
  "set_option prev \<subseteq> set delims \<Longrightarrow> stops delims (render_rest prev ts)"
  by (cases ts; cases prev) (simp_all add: stops_def)

lemma word_eq:
  assumes "word_token delims t" "word_token delims t'" "stops delims s" "stops delims s'"
    "tok_text t @ s = tok_text t' @ s'"
  shows "tok_text t = tok_text t' \<and> s = s'"
proof -
  let ?P = "\<lambda>c. non_blank c \<and> c \<notin> set delims"
  have tw: "takeWhile ?P (tok_text x @ r) = tok_text x"
    if "word_token delims x" "stops delims r" for x r
    using that by (cases r) (auto simp: word_token_def stops_def list_all_iff takeWhile_append2 non_blank_def)
  from tw [OF assms(1,3)] tw [OF assms(2,4)] assms(5) show ?thesis by simp
qed

lemma run_eq:
  assumes "run_token delims t" "run_token delims t'" "list_all non_blank delims"
    "tok_text t @ render_rest None ts = tok_text t' @ render_rest None ts'"
  shows "tok_text t = tok_text t' \<and> render_rest None ts = render_rest None ts'"
proof -
  have tw: "takeWhile non_blank (tok_text x @ render_rest None xs) = tok_text x" if "run_token delims x" for x xs
    using that render_rest_None_cases [of xs]
    by (auto simp: run_token_def list_all_iff takeWhile_append2)
  have "tok_text t = tok_text t'" using tw [OF assms(1)] tw [OF assms(2)] assms(4) by metis
  with assms(4) show ?thesis by simp
qed

lemma hd_word: "word_token delims t \<Longrightarrow> tok_text t @ s \<noteq> [] \<and> hd (tok_text t @ s) \<notin> set delims \<and> non_blank (hd (tok_text t @ s))"
  by (cases "tok_text t") (simp_all add: word_token_def)

lemma hd_run: "run_token delims t \<Longrightarrow> tok_text t @ s \<noteq> [] \<and> hd (tok_text t @ s) \<in> set delims"
  by (cases "tok_text t") (simp_all add: run_token_def)

lemma text_eq:
  assumes "token_ok delims t" "token_ok delims t'" "list_all non_blank delims"
    "tok_text t @ render_rest (trailing_delim t) ts = tok_text t' @ render_rest (trailing_delim t') ts'"
  shows "tok_text t = tok_text t' \<and> render_rest (trailing_delim t) ts = render_rest (trailing_delim t') ts'"
proof (rule token_ok_cases [OF assms(1)]; rule token_ok_cases [OF assms(2)])
  assume w: "word_token delims t" "word_token delims t'"
  show ?thesis
    by (rule word_eq [OF w _ _ assms(4)]) (use token_ok_flags assms(1,2) in \<open>auto intro!: stops_rest\<close>)
next
  assume r: "run_token delims t" "run_token delims t'"
  then have "trailing_delim t = None" "trailing_delim t' = None" by (simp_all add: run_token_def)
  with run_eq [OF r assms(3)] assms(4) show ?thesis by simp
next
  assume "word_token delims t" "run_token delims t'"
  then show ?thesis using assms(4) hd_word hd_run by metis
next
  assume "run_token delims t" "word_token delims t'"
  then show ?thesis using assms(4) hd_word hd_run by metis
qed

lemma lead_not_run:
  assumes "word_token delims t" "run_token delims t'" "d \<in> set delims"
  shows "d # tok_text t @ s \<noteq> tok_text t' @ render_rest None ts'"
proof
  assume eq: "d # tok_text t @ s = tok_text t' @ render_rest None ts'"
  obtain x where x: "tok_text t' = d # x"
    using assms(2) eq by (cases "tok_text t'") (auto simp: run_token_def)
  with eq have "tok_text t @ s = x @ render_rest None ts'" by simp
  moreover have "list_all (\<lambda>c. c \<in> set delims) x" using assms(2) x by (simp add: run_token_def)
  ultimately show False
    using hd_word [OF assms(1), of s] render_rest_None_cases [of ts'] by (cases x) auto
qed

lemma lead_eq:
  assumes ok: "token_ok delims t" "token_ok delims t'" and nb: "list_all non_blank delims"
    and eq: "opt_list (leading_delim t) @ tok_text t @ render_rest (trailing_delim t) ts =
      opt_list (leading_delim t') @ tok_text t' @ render_rest (trailing_delim t') ts'"
  shows "tok_text t = tok_text t' \<and> render_rest (trailing_delim t) ts = render_rest (trailing_delim t') ts'"
proof -
  have lead: "word_token delims x \<and> d \<in> set delims" if "token_ok delims x" "leading_delim x = Some d" for x d
    using that token_ok_flags [OF that(1)] by (auto elim: token_ok_cases simp: run_token_def)
  have clash: "d # tok_text x @ s \<noteq> tok_text y @ render_rest (trailing_delim y) ys"
    if "token_ok delims x" "leading_delim x = Some d" "token_ok delims y" for x y d s ys
  proof (rule token_ok_cases [OF that(3)])
    assume "word_token delims y"
    from hd_word [OF this, of "render_rest (trailing_delim y) ys"] lead [OF that(1,2)] show ?thesis
      by (cases "tok_text y @ render_rest (trailing_delim y) ys") auto
  next
    assume r: "run_token delims y"
    then show ?thesis using lead_not_run [OF _ r] lead [OF that(1,2)] by (simp add: run_token_def)
  qed
  show ?thesis
  proof (cases "leading_delim t"; cases "leading_delim t'")
    assume "leading_delim t = None" "leading_delim t' = None"
    with text_eq [OF ok nb] eq show ?thesis by simp
  next
    fix d assume "leading_delim t = None" "leading_delim t' = Some d"
    with clash [OF ok(2) _ ok(1)] eq show ?thesis by (metis opt_list_simps append_Cons append_Nil)
  next
    fix d assume "leading_delim t = Some d" "leading_delim t' = None"
    with clash [OF ok(1) _ ok(2)] eq show ?thesis by (metis opt_list_simps append_Cons append_Nil)
  next
    fix d d' assume "leading_delim t = Some d" "leading_delim t' = Some d'"
    with text_eq [OF ok nb, of ts ts'] eq show ?thesis by simp
  qed
qed

lemma token_ok_text: "token_ok delims t \<Longrightarrow> tok_text t \<noteq> []"
  by (simp add: token_ok_def)

lemma render_rest_texts:
  assumes "list_all (token_ok delims) ts" "list_all (token_ok delims) ts'" "list_all non_blank delims"
    "set_option p \<subseteq> set delims" "set_option p' \<subseteq> set delims" "render_rest p ts = render_rest p' ts'"
  shows "map tok_text ts = map tok_text ts'"
  using assms(1,2,4-)
proof (induction ts arbitrary: ts' p p')
  case Nil
  then show ?case
    by (cases ts'; cases p; cases p') (auto dest: token_ok_text)
next
  case (Cons t ts)
  obtain t' us where ts': "ts' = t' # us"
    using Cons.prems token_ok_text [of delims t] by (cases ts'; cases p; cases p') auto
  have ok: "token_ok delims t" "token_ok delims t'" using Cons.prems ts' by simp_all
  have "tok_text t = tok_text t' \<and> render_rest (trailing_delim t) ts = render_rest (trailing_delim t') us"
  proof (cases p; cases p')
    assume "p = None" "p' = None"
    with lead_eq [OF ok assms(3), of ts us] Cons.prems(5) ts' show ?thesis by simp
  next
    fix c c' assume "p = Some c" "p' = Some c'"
    with text_eq [OF ok assms(3), of ts us] Cons.prems(5) ts' show ?thesis by simp
  next
    fix c assume "p = None" "p' = Some c"
    with Cons.prems(4,5) ts' assms(3) show ?thesis by (auto simp: list_all_iff)
  next
    fix c assume "p = Some c" "p' = None"
    with Cons.prems(3,5) ts' assms(3) show ?thesis by (auto simp: list_all_iff)
  qed
  with Cons.IH [of us "trailing_delim t" "trailing_delim t'"] Cons.prems(1,2) ts' ok token_ok_flags show ?case
    by auto
qed

lemma render_template_texts:
  assumes "list_all (token_ok delims) ts" "list_all (token_ok delims) ts'" "list_all non_blank delims"
    "render_template ts = render_template ts'"
  shows "map tok_text ts = map tok_text ts'"
proof (cases "ts = [] \<or> ts' = []")
  case True
  have "render_template us \<noteq> []" if "us \<noteq> []" "list_all (token_ok delims) us" for us
    using that token_ok_text by (cases us) (auto simp: render_template_Cons)
  with True assms show ?thesis by (metis render_template_Nil)
next
  case False
  then have "render_rest None ts = render_rest None ts'"
    using assms(4) by (simp add: render_rest_None)
  with render_rest_texts [OF assms(1-3), of None None] show ?thesis by simp
qed

section \<open>Properties\<close>

text \<open>
  C33.  A rendered template reads back.  Tokenizing the text of a template gives its token texts
  in order, without those that are a run of delimiters behind a token that a delimiter ends: the
  rendering joins these two by the delimiter and not by the space that stood between them.  So a
  template reads back unchanged exactly when it has no such pair, and always without path
  delimiters.
\<close>

theorem render_retokenizes:
  assumes "list_all (token_ok delims) ts" "list_all non_blank delims"
  shows "map tok_text (tokenize_with (render_template ts) delims) = map tok_text (legible delims None ts) \<and>
    (map tok_text (tokenize_with (render_template ts) delims) = map tok_text ts \<longleftrightarrow>
      successively (\<lambda>t u. trailing_delim t = None \<or> \<not> set (tok_text u) \<subseteq> set delims) ts)"
proof -
  have "map tok_text (legible delims None ts) = map tok_text ts \<longleftrightarrow> length (legible delims None ts) = length ts"
    using legible_id by (metis length_map)
  then show ?thesis
    using texts_render [OF assms] legible_all [of delims None ts] by (simp add: texts_def)
qed

theorem render_retokenizes_witness:
  "map tok_text (tokenize_with (render_template (tokenize_with (str ''a/ / b'') [47])) [47]) = [str ''a'', str ''b''] \<and>
   map tok_text (tokenize_with (str ''a/ / b'') [47]) = [str ''a'', str ''/'', str ''b'']"
proof -
  have toks: "tokenize_with (str ''a/ / b'') [47] =
      [\<lparr>tok_text = str ''a'', leading_delim = None, trailing_delim = Some 47\<rparr>,
       plain_token (str ''/''), plain_token (str ''b'')]"
    by (simp add: tokenize_with_def push_path_tokens_def split_whitespace_def is_whitespace_def
        Let_def plain_token_def)
  have "list_all (token_ok [47]) (tokenize_with (str ''a/ / b'') [47])" "list_all non_blank [47]"
    by (simp_all add: tokenize_well_formed_ok non_blank_def is_whitespace_def)
  from render_retokenizes [OF this, unfolded toks] show ?thesis unfolding toks by simp
qed

end
