(* ===== verification/Templates_Apart.thy ===== *)
theory Templates_Apart
  imports Ingest_Props Render
begin

text \<open>
  The templates of one miner.  A run never leads to two live clusters with the same template: a
  line that would generalize one cluster to the template of another is a full match of the other,
  which the scan prefers.  The renderings of the templates differ too, unless the wildcard and the path
  delimiters share a character.
\<close>

section \<open>Full scores\<close>

lemma score_1_iff:
  assumes "length toks < 2 ^ 53"
  shows "score ts toks w = 1 \<longleftrightarrow> matches_all ts toks w"
  using similarity_range [OF assms, of ts w] by (simp add: similarity_score)

text \<open>A cluster that a line matches at every position and that shares its keys is in the line's leaf.\<close>

lemma full_in_home:
  assumes inv: "miner_inv m" and c: "body_of m j = Some c"
    "placed (options m) (length toks) (descent_keys (options m) toks) c"
    "matches_all (tokens c) toks (wildcard (options m))"
  shows "j \<in> set (home m toks)" "score_of m toks j = 1"
  using c index_okD [OF inv] by (auto simp: home_def score_of_def score_full)

lemma winner_full:
  assumes inv: "miner_inv m" and win: "winner m toks = Some i" and b: "body_of m i = Some b"
    and j: "j \<in> set (home m toks)" "score_of m toks j = 1" and len: "length toks < 2 ^ 53"
  shows "matches_all (tokens b) toks (wildcard (options m))"
proof -
  have "1 \<le> score_of m toks i"
    using first_max_Some [OF winner_Some(2) [OF win]] j by metis
  then have "score (tokens b) toks (wildcard (options m)) = 1"
    using b score_range [of "tokens b" toks "wildcard (options m)"] by (simp add: score_of_def)
  then show ?thesis using score_1_iff [OF len] by blast
qed

section \<open>The invariant\<close>

definition apart_templates :: "'re miner \<Rightarrow> bool" where
  "apart_templates m \<longleftrightarrow>
     (\<forall>i j b c. body_of m i = Some b \<longrightarrow> body_of m j = Some c \<longrightarrow>
        map tok_text (tokens b) = map tok_text (tokens c) \<longrightarrow> i = j)"

lemma matches_all_texts:
  "map tok_text ts = map tok_text us \<Longrightarrow> matches_all ts toks w \<longleftrightarrow> matches_all us toks w"
proof -
  have "matches_all xs toks w \<longleftrightarrow>
      list_all2 (\<lambda>x tok. x = w \<or> x = tok_text tok) (map tok_text xs) toks" for xs
    by (simp add: matches_all_def list_all2_map1)
  from this [of ts] this [of us] show "map tok_text ts = map tok_text us \<Longrightarrow> ?thesis" by simp
qed

lemma descent_keys_texts:
  assumes "map tok_text ts = map tok_text us"
  shows "descent_keys opt ts = descent_keys opt us"
proof -
  let ?g = "\<lambda>x. if parametrize_numeric_tokens opt \<and> is_numeric_token x then wildcard opt else x"
  have "descent_keys opt xs = map ?g (take (min (prefix_len opt) (length (map tok_text xs))) (map tok_text xs))" for xs
    by (simp add: descent_keys_def Let_def take_map comp_def)
  from this [of ts] this [of us] assms show ?thesis by (simp only:)
qed

lemma placed_texts:
  "map tok_text (tokens b) = map tok_text (tokens c) \<Longrightarrow> placed opt n ks b \<longleftrightarrow> placed opt n ks c"
  using descent_keys_texts [of "tokens b" "tokens c" opt]
    map_eq_imp_length_eq [of tok_text "tokens b" tok_text "tokens c"]
  by (simp add: placed_def)

lemma tokens_hit_body:
  assumes "length (tokens b) = length toks"
  shows "tokens (hit_body t now w toks member e b) = map2 (generalize_token w) (tokens b) toks"
  using assms by (simp add: hit_body_def generalize_tokens)

text \<open>A hit: the new template of the winner is nobody else's.\<close>

lemma hit_apart:
  assumes inv: "miner_inv m" and apart: "apart_templates m" and len: "length toks < 2 ^ 53"
    and win: "winner m toks = Some i" and b: "body_of m i = Some b"
      "placed (options m) (length toks) (descent_keys (options m) toks) b"
    and c: "body_of m j = Some c" "map tok_text (tokens c) =
      map tok_text (tokens (hit_body t now (wildcard (options m)) toks member e b))"
  shows "i = j"
proof (rule ccontr)
  assume ne: "i \<noteq> j"
  let ?w = "wildcard (options m)" and ?b' = "hit_body t now (wildcard (options m)) toks member e b"
  have l: "length (tokens b) = length toks" using b(2) by (simp add: placed_def)
  have tb: "tokens ?b' = map2 (generalize_token ?w) (tokens b) toks" by (rule tokens_hit_body [OF l])
  have "placed (options m) (length toks) (descent_keys (options m) toks) ?b'"
    using b(2) descent_keys_generalize [of "tokens b" toks "options m"] l
    by (simp add: placed_def tb)
  then have "placed (options m) (length toks) (descent_keys (options m) toks) c"
    using placed_texts [OF c(2)] by blast
  moreover have "matches_all (tokens ?b') toks ?w"
    using generalize_matches [OF l, of ?w] by (simp add: tb generalize_tokens [OF l])
  then have "matches_all (tokens c) toks ?w" using matches_all_texts [OF c(2)] by blast
  ultimately have "matches_all (tokens b) toks ?w"
    using winner_full [OF inv win b(1) _ _ len] full_in_home [OF inv c(1)] by blast
  then have "map tok_text (tokens ?b') = map tok_text (tokens b)"
    using l by (simp add: tb matches_all_def list_all2_conv_all_nth generalize_token_def list_eq_iff_nth_eq)
  with apart b(1) c ne show False unfolding apart_templates_def by metis
qed

text \<open>A creation: nobody has the new template, or the line would have hit it.\<close>

lemma create_apart:
  assumes inv: "miner_inv m" and win: "winner m toks = None" and c: "body_of m j = Some c"
  shows "map tok_text (tokens c) \<noteq> map tok_text toks"
proof
  assume t: "map tok_text (tokens c) = map tok_text toks"
  then have "placed (options m) (length toks) (descent_keys (options m) toks) c"
    using descent_keys_texts [OF t] map_eq_imp_length_eq [OF t] by (simp add: placed_def)
  moreover have "matches_all (tokens c) toks (wildcard (options m))"
    using matches_all_texts [OF t] matches_all_refl by blast
  ultimately show False
    using full_in_home [OF inv c] winner_None [OF win] passes_1 [OF miner_invD(1) [OF inv]] by metis
qed

lemma templates_step:
  assumes inv: "miner_inv m" and cnt: "counter m \<noteq> - 1" and apart: "apart_templates m"
    and len: "length (line_tokens replace_all (options m) (cmd_line c)) < 2 ^ 53"
    and step: "ingest_step replace_all c m = Some (r, m')"
  shows "apart_templates m'"
proof -
  obtain toks suffix where toks: "preprocess replace_all (options m) (cmd_line c) = (toks, suffix)"
    by (cases "preprocess replace_all (options m) (cmd_line c)")
  have len: "length toks < 2 ^ 53" using len toks by (simp add: line_tokens_def)
  from add_inner_cases [OF inv cnt toks, of "cmd_at c" "cmd_member c" "cmd_event c"]
  show ?thesis
  proof cases
    case (1 i b m'')
    let ?b' = "hit_body (tick m) (cmd_at c) (wildcard (options m)) toks (cmd_member c) (cmd_event c) b"
    have body: "body_of m' j = (if j = i then Some ?b' else body_of m j)" for j
      using 1(4,5) step by (auto simp: ingest_step_def hit_state_def)
    have "map tok_text (tokens x) = map tok_text (tokens ?b') \<Longrightarrow> i = j" if "body_of m j = Some x" for j x
      using hit_apart [OF inv apart len 1(1-3) that] .
    with apart body show ?thesis
      unfolding apart_templates_def by (metis option.inject)
  next
    case (2 m'')
    let ?i = "counter m + 1"
    have body: "body_of m' j = Some x \<Longrightarrow> (if j = ?i then tokens x = toks else body_of m j = Some x)" for j x
      using 2(2,3) step by (auto simp: ingest_step_def create_state_def split: if_splits)
    show ?thesis
      unfolding apart_templates_def
    proof (intro allI impI)
      fix j k x y
      assume xy: "body_of m' j = Some x" "body_of m' k = Some y"
        "map tok_text (tokens x) = map tok_text (tokens y)"
      show "j = k"
      proof (cases "j = ?i"; cases "k = ?i")
        assume "j \<noteq> ?i" "k \<noteq> ?i"
        with body [OF xy(1)] body [OF xy(2)] apart xy(3) show ?thesis
          unfolding apart_templates_def by metis
      qed (use body [OF xy(1)] body [OF xy(2)] create_apart [OF inv 2(1)] xy(3) in auto)
    qed
  qed
qed

definition apart_after ::
    "('re \<Rightarrow> rstr \<Rightarrow> rstr \<Rightarrow> cow) \<Rightarrow> 're options \<Rightarrow> ingest_cmd list \<Rightarrow> add_result list \<Rightarrow> 're miner \<Rightarrow> bool"
  where
  "apart_after replace_all opt cs rs m \<longleftrightarrow>
     options m = opt \<and>
     (list_all (\<lambda>c. length (line_tokens replace_all opt (cmd_line c)) < 2 ^ 53) cs \<longrightarrow> apart_templates m)"

lemma ingest_step_options:
  assumes "miner_inv m" "counter m \<noteq> - 1" "ingest_step replace_all c m = Some (r, m')"
  shows "options m' = options m"
proof -
  obtain toks suffix where toks: "preprocess replace_all (options m) (cmd_line c) = (toks, suffix)"
    by (cases "preprocess replace_all (options m) (cmd_line c)")
  from add_inner_cases [OF assms(1,2) toks, of "cmd_at c" "cmd_member c" "cmd_event c"] show ?thesis
    by cases (use assms(3) in \<open>auto simp: ingest_step_def hit_state_def create_state_def\<close>)
qed

lemma apart_run:
  assumes "valid_options opt" "length cs < 2 ^ 64"
    "run (ingest_step replace_all) cs (from_options opt) = Some (rs, m)"
    "list_all (\<lambda>c. length (line_tokens replace_all opt (cmd_line c)) < 2 ^ 53) cs"
  shows "apart_templates m"
proof -
  have b: "budget (length cs + 0) (from_options opt)"
    using budget_start [OF assms(1,2)] by simp
  have start: "apart_after replace_all opt [] [] (from_options opt)"
    by (simp add: apart_after_def apart_templates_def from_options_def)
  have "apart_after replace_all opt ([] @ cs) ([] @ rs) m"
  proof (rule miner_runs.run_history [where P = "apart_after replace_all opt", OF b start assms(3)])
    fix cs rs m c r m' k
    assume "budget (Suc k) m" and p: "apart_after replace_all opt cs rs m"
      and step: "ingest_step replace_all c m = Some (r, m')"
    then have inv: "miner_inv m" "counter m \<noteq> - 1" using budget_counter by blast+
    show "apart_after replace_all opt (cs @ [c]) (rs @ [r]) m'"
      using p ingest_step_options [OF inv step] templates_step [OF inv _ _ step] by (auto simp: apart_after_def)
  qed
  with assms(4) show ?thesis by (simp add: apart_after_def)
qed

section \<open>Tokens of a cluster\<close>

text \<open>Delimiters that are whitespace never separate anything.\<close>

definition real_delims :: "'re options \<Rightarrow> rchar list" where
  "real_delims opt = filter non_blank (active_path_delimiters opt)"

lemma path_loop_real:
  "list_all non_blank s \<Longrightarrow> path_loop (filter non_blank delims) s l seg out = path_loop delims s l seg out"
  by (induction s arbitrary: l seg out) simp_all

lemma tokenize_real:
  "tokenize_with line (filter non_blank delims) = tokenize_with line delims"
proof -
  have "path_tokens (filter non_blank delims) p = path_tokens delims p" if "p \<in> set (split_whitespace line)" for p
  proof -
    have "list_all non_blank p"
      using split_whitespace_pieces [OF that] by (auto simp: list_all_iff non_blank_def)
    then show ?thesis by (simp add: path_tokens_def push_path_tokens_def path_loop_real)
  qed
  then show ?thesis by (simp add: tokenize_with_concat cong: map_cong)
qed

lemma line_tokens_ok: "list_all (token_ok (real_delims opt)) (line_tokens replace_all opt line)"
proof -
  have "\<exists>s. line_tokens replace_all opt line = tokenize_with s (active_path_delimiters opt)"
    by (auto simp: line_tokens_def preprocess_def Let_def split: prod.splits)
  then show ?thesis
    using tokenize_well_formed_ok tokenize_real by (metis real_delims_def)
qed

definition wildcard_ok :: "'re options \<Rightarrow> bool" where
  "wildcard_ok opt \<longleftrightarrow> word_token (active_path_delimiters opt) (plain_token (wildcard opt))"

lemma token_ok_wild:
  assumes "wildcard_ok opt" "token_ok (real_delims opt) tok"
    "tok_text t = wildcard opt \<or> tok_text t = tok_text tok"
    "leading_delim t = leading_delim tok" "trailing_delim t = trailing_delim tok"
  shows "token_ok (real_delims opt) t"
proof (cases "tok_text t = tok_text tok")
  case True
  with assms(4,5) have "t = tok" by simp
  with assms(2) show ?thesis by simp
next
  case False
  with assms show ?thesis
    by (auto simp: token_ok_def wildcard_ok_def word_token_def real_delims_def list_all_iff non_blank_def)
qed

lemma cluster_tokens_ok:
  assumes "valid_options opt" "length cs < 2 ^ 64"
    "run (ingest_step replace_all) cs (from_options opt) = Some (rs, m)"
    "wildcard_ok opt" "body_of m i = Some b"
  shows "list_all (token_ok (real_delims opt)) (tokens b)"
proof -
  have "history replace_all opt cs rs m" using history_run [OF assms(1-3)] by blast
  from history_body(1) [OF this assms(5,2)] have sm: "summarizes replace_all opt (assigned i cs rs) b" .
  define c where "c = hd (assigned i cs rs)"
  have "c \<in> set (assigned i cs rs)" using summarizes_ne [OF sm] by (simp add: c_def)
  with sm have c: "matches_all (tokens b) (line_tokens replace_all opt (cmd_line c)) (wildcard opt)"
    "map leading_delim (tokens b) = map leading_delim (line_tokens replace_all opt (cmd_line c))"
    "map trailing_delim (tokens b) = map trailing_delim (line_tokens replace_all opt (cmd_line c))"
    by (simp_all add: summarizes_def Let_def list_all_iff c_def)
  let ?toks = "line_tokens replace_all opt (cmd_line c)"
  have len: "length (tokens b) = length ?toks" using c(2) map_eq_imp_length_eq by blast
  show ?thesis
    unfolding list_all_length
  proof (intro allI impI)
    fix k assume k: "k < length (tokens b)"
    have "leading_delim (tokens b ! k) = leading_delim (?toks ! k)"
      "trailing_delim (tokens b ! k) = trailing_delim (?toks ! k)"
      using arg_cong [OF c(2), of "\<lambda>x. x ! k"] arg_cong [OF c(3), of "\<lambda>x. x ! k"] k len by simp_all
    moreover have "tok_text (tokens b ! k) = wildcard opt \<or> tok_text (tokens b ! k) = tok_text (?toks ! k)"
      "token_ok (real_delims opt) (?toks ! k)"
      using c(1) line_tokens_ok [of opt replace_all "cmd_line c"] k len
      by (auto simp: list_all_length matches_all_def list_all2_conv_all_nth)
    ultimately show "token_ok (real_delims opt) (tokens b ! k)"
      using token_ok_wild [OF assms(4)] by blast
  qed
qed

lemma clusters_apart:
  assumes "valid_options opt" "length cs < 2 ^ 64"
    "run (ingest_step replace_all) cs (from_options opt) = Some (rs, m)"
    "list_all (\<lambda>c. length (line_tokens replace_all opt (cmd_line c)) < 2 ^ 53) cs"
    "body_of m i = Some b" "body_of m j = Some c" "i \<noteq> j"
  shows "map tok_text (tokens b) \<noteq> map tok_text (tokens c) \<and>
    (word_token (active_path_delimiters opt) (plain_token (wildcard opt)) \<longrightarrow>
       template (to_public b) \<noteq> template (to_public c))"
proof -
  have ne: "map tok_text (tokens b) \<noteq> map tok_text (tokens c)"
    using apart_run [OF assms(1-4)] assms(5-7) unfolding apart_templates_def by metis
  have "template (to_public b) \<noteq> template (to_public c)" if "wildcard_ok opt"
  proof -
    have "list_all non_blank (real_delims opt)" by (auto simp: real_delims_def list_all_iff)
    from render_template_texts [OF cluster_tokens_ok [OF assms(1-3) that assms(5)]
        cluster_tokens_ok [OF assms(1-3) that assms(6)] this] ne show ?thesis
      by (auto simp: to_public_def Let_def split: prod.splits)
  qed
  with ne show ?thesis by (simp add: wildcard_ok_def)
qed

section \<open>Properties\<close>

text \<open>
  C25.  No two clusters are one.  After any run from valid options, over lines of fewer than \<open>2\<close>
  to the 53 tokens, two live clusters differ in the text of their templates; and their rendered
  templates differ too when the wildcard is a word, without whitespace and path delimiters.
\<close>

theorem templates_distinct:
  assumes "valid_options opt" "length cs < 2 ^ 64"
    "run (ingest_step replace_all) cs (from_options opt) = Some (rs, m)"
    "list_all (\<lambda>c. length (line_tokens replace_all opt (cmd_line c)) < 2 ^ 53) cs"
    "body_of m i = Some b" "body_of m j = Some c" "i \<noteq> j"
  shows "map tok_text (tokens b) \<noteq> map tok_text (tokens c) \<and>
    (word_token (active_path_delimiters opt) (plain_token (wildcard opt)) \<longrightarrow>
       template (to_public b) \<noteq> template (to_public c))"
  by (rule clusters_apart [OF assms])

definition two_lines :: "ingest_cmd list" where
  "two_lines = [plain_cmd 0 (str ''a''), plain_cmd 1 (str ''b'')]"

definition two_options :: "unit options" where
  "two_options = small_options\<lparr>max_clusters_per_leaf := 2\<rparr>"

lemma two_run:
  "case run (ingest_step no_match) two_lines (from_options two_options) of
     Some (rs, m) \<Rightarrow> body_of m 1 \<noteq> None \<and> body_of m 2 \<noteq> None
   | None \<Rightarrow> False"
  by code_simp

lemma two_lines_short:
  "list_all (\<lambda>c. length (line_tokens no_match two_options (cmd_line c)) < 2 ^ 53) two_lines"
proof -
  have "list_all (\<lambda>c. length (line_tokens no_match two_options (cmd_line c)) = 1) two_lines" by code_simp
  then show ?thesis by (simp add: list_all_iff)
qed

theorem templates_distinct_witness:
  "\<exists>rs m b c. run (ingest_step no_match) two_lines (from_options two_options) = Some (rs, m) \<and>
     body_of m 1 = Some b \<and> body_of m 2 = Some c \<and>
     template (to_public b) \<noteq> template (to_public c)"
proof -
  obtain rs m b c where r: "run (ingest_step no_match) two_lines (from_options two_options) = Some (rs, m)"
    "body_of m 1 = Some b" "body_of m 2 = Some c"
    using two_run by (auto split: option.splits)
  have v: "valid_options two_options"
    using valid_small_options by (auto simp: valid_options_def two_options_def)
  have "word_token (active_path_delimiters two_options) (plain_token (wildcard two_options))"
    by (simp add: word_token_def two_options_def small_options_def default_options_def non_blank_def
        is_whitespace_def active_path_delimiters_def)
  with templates_distinct [OF v _ r(1) two_lines_short r(2,3)] r show ?thesis
    by (auto simp: two_lines_def)
qed

end
