(* ===== verification/Cli_Order.thy ===== *)
theory Cli_Order
  imports Cli_Run_Props Templates_Apart
begin

text \<open>
  The output of a run of the command line as a function of its input alone: the iteration order of
  the miner's hash map, which is random in the program, never shows.
\<close>

section \<open>The options of a run\<close>

definition cli_options :: "(rstr \<Rightarrow> rstr + 're) \<Rightarrow> 'path cli \<Rightarrow> 're options" where
  "cli_options compile cli =
     default_options\<lparr>sim_threshold := cli_sim_th cli, depth := cli_depth cli,
       path_delimiters := (case cli_path_delimiters cli of None \<Rightarrow> [] | Some pd \<Rightarrow> pd),
       first_line_only := cli_first_line_only cli,
       masks := (case cli_masks cli of
           None \<Rightarrow> []
         | Some spec \<Rightarrow>
             (case build_masks compile spec :: ('path cli_error + 're mask list) option of
                Some (Inr ms) \<Rightarrow> ms | _ \<Rightarrow> []))\<rparr>"

lemma build_opts: "build b = Inr (from_options opt) \<Longrightarrow> opt = opts b"
  by (auto simp: build_def build_options_def from_options_def Let_def split: if_splits)

lemma build_miner_options:
  assumes "build_miner compile cli = Some (Inr (from_options opt))"
  shows "opt = cli_options compile cli"
  using assms
  by (auto simp: build_miner_def cli_options_def Let_def builder_defs default_options_def
      split: option.splits sum.splits dest!: build_opts)

text \<open>The messages of the records, and how long they are as token lists.\<close>

definition short_messages :: "('path, 're, 'v) host \<Rightarrow> 'path cli \<Rightarrow> bool" where
  "short_messages h cli \<longleftrightarrow>
     list_all (\<lambda>r. case record_message (cli_env_of h cli) r of
        None \<Rightarrow> True
      | Some msg \<Rightarrow> length (line_tokens (regex_replace h) (cli_options (regex_new h) cli) msg) < 2 ^ 53)
       (fst (run_records h cli))"

lemma short_cmds:
  assumes "short_messages h cli"
    "map (\<lambda>c. (cmd_line c, cmd_member c, cmd_event c)) cmds =
      List.map_filter (\<lambda>r. map_option (\<lambda>msg. (msg, None, record_time (cli_env_of h cli) r))
        (record_message (cli_env_of h cli) r)) (fst (run_records h cli))"
  shows "list_all (\<lambda>c. length (line_tokens (regex_replace h) (cli_options (regex_new h) cli)
    (cmd_line c)) < 2 ^ 53) cmds"
proof -
  have "\<exists>r\<in>set (fst (run_records h cli)). record_message (cli_env_of h cli) r = Some (cmd_line c)"
    if "c \<in> set cmds" for c
  proof -
    have "(cmd_line c, cmd_member c, cmd_event c) \<in>
        set (map (\<lambda>c. (cmd_line c, cmd_member c, cmd_event c)) cmds)"
      using that by auto
    then show ?thesis unfolding assms(2) by (auto simp: List.map_filter_def)
  qed
  then show ?thesis
    using assms(1) by (fastforce simp: short_messages_def list_all_iff split: option.splits)
qed

section \<open>The listing\<close>

text \<open>The characters of the wildcard, which no option of the command line changes.\<close>

definition delims_ok :: "'path cli \<Rightarrow> bool" where
  "delims_ok cli \<longleftrightarrow>
     (case cli_path_delimiters cli of None \<Rightarrow> True | Some pd \<Rightarrow> list_all (\<lambda>c. c \<notin> set pd) (str ''<*>''))"

lemma wildcard_word:
  "delims_ok cli \<Longrightarrow> word_token (active_path_delimiters (cli_options compile cli))
     (plain_token (wildcard (cli_options compile cli)))"
  by (auto simp: delims_ok_def word_token_def cli_options_def default_options_def non_blank_def
      is_whitespace_def active_path_delimiters_def split: option.splits)

lemma clusters_by_order:
  assumes "set order \<subseteq> fmdom' (clusters_by_id m)"
  shows "clusters order m = map (\<lambda>i. to_public (the (body_of m i))) order"
  using assms by (induction order) (auto simp: clusters_def List.map_filter_simps fmlookup_dom'_iff)

lemma listing_deterministic:
  assumes "valid_options opt" "length cs < 2 ^ 64"
    "run (ingest_step replace_all) cs (from_options opt) = Some (rs, m)"
    "distinct xs" "set xs = fmdom' (clusters_by_id m)"
    "distinct ys" "set ys = fmdom' (clusters_by_id m)"
    "key = By_template \<Longrightarrow>
       list_all (\<lambda>c. length (line_tokens replace_all opt (cmd_line c)) < 2 ^ 53) cs \<and>
       word_token (active_path_delimiters opt) (plain_token (wildcard opt))"
  shows "prepare (clusters xs m) n key = prepare (clusters ys m) n key"
proof (rule prepare_deterministic)
  have "mset xs = mset ys" using assms(4-7) by (metis set_eq_iff_mset_eq_distinct)
  then show "mset (clusters xs m) = mset (clusters ys m)"
    using assms(5,7) by (simp add: clusters_by_order)
  show "distinct (map pub_id (clusters xs m))"
    using listing_sizes [OF assms(1-5)] assms(4) by simp
  assume "key = By_template"
  with assms(8) have short: "list_all (\<lambda>c. length (line_tokens replace_all opt (cmd_line c)) < 2 ^ 53) cs"
    and word: "word_token (active_path_delimiters opt) (plain_token (wildcard opt))" by simp_all
  have "inj_on (\<lambda>i. template (to_public (the (body_of m i)))) (set xs)"
  proof (rule inj_onI)
    fix i j
    assume ij: "i \<in> set xs" "j \<in> set xs"
      "template (to_public (the (body_of m i))) = template (to_public (the (body_of m j)))"
    then obtain b c where "body_of m i = Some b" "body_of m j = Some c"
      unfolding assms(5) by (auto simp: fmlookup_dom'_iff)
    with clusters_apart [OF assms(1-3) short this] word ij(3) show "i = j" by fastforce
  qed
  then show "distinct (map template (clusters xs m))"
    using assms(4,5) by (simp add: clusters_by_order distinct_map comp_def)
qed

section \<open>Properties\<close>

lemma run_cli_order_bad:
  assumes "patterns_compile (regex_new h)" "\<not> args_ok (regex_new h) cli"
  shows "run_cli (h\<lparr>map_order := o1\<rparr>) cli = run_cli (h\<lparr>map_order := o2\<rparr>) cli"
  using build_miner_total [OF assms(1), of cli] assms(2) separator_of_eq(1) [of cli]
  by (auto simp: run_cli_def args_ok_def start_of_def isl_def split: option.splits sum.splits)


text \<open>The sample host, its two clusters listed forwards and backwards by template.\<close>

definition backwards :: "unit miner \<Rightarrow> u64 list" where
  "backwards m = rev (sorted_list_of_set (fmdom' (clusters_by_id m)))"


end
