(* ===== verification/Spec2Isabelle.thy ===== *)
theory Spec2Isabelle
  imports Ingest_Props Persistence Remote_Persistence Concurrent_Races Concurrent_Snapshot Concurrent_Query_Props
    Cli_Order
begin

text \<open>
  A model of \<^verbatim>\<open>logdrain\<close>, an online log-template miner: the library crate
  (\<^verbatim>\<open>crates/logdrain/src\<close>) and its command line
  (\<^verbatim>\<open>crates/logdrain-cli/src\<close>).

  \<^bold>\<open>The program.\<close>  A miner assigns every line to a cluster.  The line is masked, split
  into tokens and looked up in a tree: the number of tokens selects a shard, the first tokens a
  path in its prefix tree, and the path ends in a leaf, a bucket of cluster ids of bounded
  capacity.  The bodies of the clusters live in a map from ids.  Among the clusters of the leaf the
  most similar one at or above the threshold is hit: its template is generalized at the positions
  where the line differs.  Otherwise a cluster is created, and a full leaf evicts its least recently used
  one.  A miner can be saved through a backend and restored; the command line feeds it
  with records of files and prints its clusters.

  \<^bold>\<open>Theories and code.\<close>
  \<^item> \<open>Prelude\<close>: strings as lists of code points, the words, and the list and map operations
    of the standard library that several components use (\<open>swap_remove\<close>, \<open>min_by_key\<close>, the scan
    for the first maximum).  \<open>Float64\<close>: the part of IEEE binary64 that the code computes with.
    \<open>Runs\<close>: runs of a fallible operation and the locale \<open>stepper\<close>.
  \<^item> \<open>Tokenize\<close> (\<^verbatim>\<open>tokenize.rs\<close>), \<open>Similarity\<close> (\<^verbatim>\<open>similarity.rs\<close>), \<open>Mask\<close>
    (\<^verbatim>\<open>mask.rs\<close>, \<^verbatim>\<open>error.rs\<close>), \<open>Options\<close> (\<^verbatim>\<open>options.rs\<close>), \<open>Prefix_Tree\<close>
    (\<^verbatim>\<open>tree.rs\<close>), \<open>Cluster\<close> (\<^verbatim>\<open>cluster.rs\<close>): the components below the miner, one
    definition for each function.  \<open>Template\<close> is the abstract specification of a template: a list of
    slots, ordered by generality, with its join.  \<open>Render\<close> reads rendered templates back.
  \<^item> \<open>Miner\<close> (\<^verbatim>\<open>miner.rs\<close>): the record \<open>miner\<close> and every operation, as run by one
    thread.  \<open>Miner_Inv\<close> and \<open>Miner_Step\<close> hold the invariant \<open>miner_inv\<close> (shape of the tree,
    bodies, and that the leaves index exactly the bodies) and its preservation, \<open>Miner_Query\<close> the
    queries, \<open>Ingest\<close> and \<open>Ingest_Props\<close> the runs of many ingests, with the history invariant
    that says what each cluster has made of its lines;
    \<open>Templates_Apart\<close> adds that no two clusters have one template.
  \<^item> \<open>Concurrent\<close>: \<^verbatim>\<open>Miner::add_inner\<close> cut into its atomic accesses and run by any number
    of threads (\<open>pc_next\<close> is the step of a thread, \<open>unblocked\<close> the locks, \<open>cstep\<close> the
    interleaving).  \<open>Concurrent_Inv\<close>, \<open>Concurrent_Step\<close>, \<open>Concurrent_Thread\<close> and
    \<open>Concurrent_Reach\<close> prove its invariant, access by access; \<open>Concurrent_Props\<close> safety,
    termination and progress; \<open>Concurrent_Count\<close> that no hit is lost and no line gets two clusters;
    \<open>Concurrent_Solo\<close> that a thread alone is \<open>add_inner\<close>; \<open>Concurrent_Races\<close> concrete
    interleavings; \<open>Concurrent_Snapshot\<close> runs \<^verbatim>\<open>Miner::snapshot\<close> beside the threads.
    \<open>Concurrent_Query\<close> cuts \<^verbatim>\<open>match_only\<close> and \<^verbatim>\<open>extract\<close> into their accesses and
    runs any number of them beside the threads (\<open>query_next\<close>, \<open>mixed_next\<close>); its invariant is in
    \<open>Concurrent_Query_Inv\<close> and \<open>Concurrent_Query_Run\<close>, what it gives in \<open>Concurrent_Query_Props\<close>.
  \<^item> \<open>Snapshot\<close> (\<^verbatim>\<open>snapshot.rs\<close>), \<open>Restore\<close> (the snapshot and restore half of
    \<^verbatim>\<open>miner.rs\<close>), \<open>Restore_Any\<close> (restores that evict), \<open>Persistence\<close> and \<open>Remote_Persistence\<close>
    (\<^verbatim>\<open>persistence.rs\<close>: memory and file, Redis and Kafka).
  \<^item> \<open>Cli_Text\<close>, \<open>Cli_Ingest\<close>, \<open>Cli_Props\<close> (\<^verbatim>\<open>input.rs\<close> and the ingest half of
    \<^verbatim>\<open>main.rs\<close>: escapes, UTF-8, event times, record assembly), \<open>Cli_Format\<close>,
    \<open>Cli_Output\<close> (\<^verbatim>\<open>format.rs\<close>), \<open>Cli_Run\<close>, \<open>Cli_Run_Input\<close>,
    \<open>Cli_Run_Props\<close> (\<^verbatim>\<open>run\<close> and \<^verbatim>\<open>main\<close>, from the parsed arguments to the exit code),
    \<open>Cli_Order\<close> (the output does not depend on the iteration order of the hash map).

  \<^bold>\<open>What the theorems show.\<close>  One line: after an ingest, the same line matches the same cluster,
  matching picks a most similar live cluster, and a query predicts the ingest.  Runs: from valid
  options no run panics, a cluster is a function of the lines assigned to it (the join of their
  templates, their number, their event window), templates only generalize, sizes account for the
  lines, leaves keep within their capacity, eviction is by least recent use, no two clusters have one
  template, and a rendered template reads back.  Threads: any interleaving
  is safe, ends, can always be brought to its end, counts every hit and makes one cluster of one
  new line; but it is not linearizable when clusters are evicted.  Queries beside the threads do not
  deadlock, find a cluster as long as it lives, and return only clusters that reach the threshold.  Persistence: snapshot and restore give
  the same clusters, a restore keeps the invariant under any options, also for a snapshot taken while
  threads ingest, a crash during a save loses nothing, the remote backends return what was saved
  last, as far as their servers keep it, the format is checked exactly.
  Command line: what records a stream is cut into does not depend on the reads, a run is a run of
  the library, it fails exactly as documented, its CSV parses back, and its output is a function of its
  input.

  \<^bold>\<open>Conventions.\<close>  A \<^verbatim>\<open>u64\<close> is a \<open>64 word\<close>, so counters wrap; a \<^verbatim>\<open>usize\<close> is
  a natural number; a \<^verbatim>\<open>char\<close> is its code point.  A panic is \<open>None\<close>, an error the left of a
  sum.  The theorems about runs assume fewer ingests than ids are left below \<open>2\<close> to the 64, which
  no process reaches.  A binary64 number is a rational rounded to 53 bits, ties to even, an
  infinity or NaN; the exponent is not bounded, which is exact for the quotients and products that
  occur here.  The clock is an argument of each operation, and so is the order in which a
  hash map iterates.  Concurrent ingest needs no fuel: a thread makes at most
  \<open>13 + 3 * max_clusters_per_leaf\<close> steps, a query at most \<open>5 + max_clusters_per_leaf\<close>.

  \<^bold>\<open>Parameters.\<close>  Third-party code is an argument: the expressions of \<^verbatim>\<open>regex\<close>, the
  serializers of \<^verbatim>\<open>bincode\<close>, \<^verbatim>\<open>serde_json\<close> and \<^verbatim>\<open>chrono\<close>, the clients
  of \<^verbatim>\<open>redis\<close> and \<^verbatim>\<open>rdkafka\<close>, and the system calls of the file backend.  What is
  assumed of them stands in the theorems that need it.

  \<^bold>\<open>Not modelled.\<close>  The argument parser \<^verbatim>\<open>clap\<close>, the texts of error messages, a failing
  write to standard output and the two crate roots, which only declare modules.  In the concurrent
  model: restores and listings, the internal locks of \<^verbatim>\<open>DashMap\<close> (each call on
  it is one step) and memory orderings weaker than sequential consistency.  Benchmarks, examples
  and tests are not part of the program.
\<close>

end
